(* ===== verification/Mp2tp_Prelude.thy ===== *)
theory Mp2tp_Prelude
  imports Main "HOL-Library.Word" "HOL-Library.Monad_Syntax"
begin

text \<open>
  The vocabulary every component of the development shares.

  Machine integers are words of their width: \<open>uint8_t\<close> is \<^typ>\<open>8 word\<close> and so on,
  with the wrap-around of the library's \<open>+\<close>, \<open>-\<close> and \<open>push_bit\<close>.

  A raw pointer \<open>const uint8_t* p\<close> is the list of the bytes that may be read from \<open>p\<close> on:
  reading \<open>p[i]\<close> past that extent has no defined behaviour in C++ and is \<^const>\<open>None\<close> here.
  The same holds for \<open>std::vector::operator[]\<close> and for \<open>memcpy\<close>. All code that may do such
  a read is written in the option monad, so a theorem that a function returns \<open>Some\<close> is a theorem
  that it returns and that no access was out of range.

  The library is built for x86-64 and AArch64 Linux and Windows hosts, which are little endian:
  a \<open>memcpy\<close> of two bytes into a \<open>uint16_t\<close> puts the first byte into the low half
  (\<open>le16\<close>), and \<open>ntohs\<close>/\<open>htons\<close> swap the two halves.
\<close>

unbundle bit_operations_syntax

type_synonym u8 = "8 word"
type_synonym u16 = "16 word"
type_synonym u32 = "32 word"
type_synonym u64 = "64 word"
type_synonym bytes = "8 word list"

named_theorems mem_simps \<open>reads from concatenations\<close>
named_theorems endian_simps \<open>byte order of multi-byte fields\<close>
named_theorems word_bits \<open>bitwise facts on words of fixed width\<close>

section \<open>Checked memory reads\<close>

definition rd :: "'a list \<Rightarrow> nat \<Rightarrow> 'a option" where
  "rd xs i = (if i < length xs then Some (xs ! i) else None)"

definition rd_n :: "'a list \<Rightarrow> nat \<Rightarrow> nat \<Rightarrow> 'a list option" where
  "rd_n xs i n = (if i + n \<le> length xs then Some (take n (drop i xs)) else None)"

lemma rd_Some_iff: "rd xs i = Some x \<longleftrightarrow> i < length xs \<and> x = xs ! i"
  by (auto simp: rd_def)

lemma rd_None_iff: "rd xs i = None \<longleftrightarrow> length xs \<le> i"
  by (simp add: rd_def)

lemma rd_in [intro]: "i < length xs \<Longrightarrow> rd xs i = Some (xs ! i)"
  by (simp add: rd_def)

lemma rd_Cons_0 [simp]: "rd (x # xs) 0 = Some x"
  by (simp add: rd_def)

lemma rd_Cons_Suc [simp]: "rd (x # xs) (Suc i) = rd xs i"
  by (simp add: rd_def)

lemma rd_Cons_numeral [simp]: "rd (x # xs) (numeral k) = rd xs (pred_numeral k)"
  by (simp add: numeral_eq_Suc)

lemma rd_Nil [simp]: "rd [] i = None"
  by (simp add: rd_def)

lemma rd_append [mem_simps]:
  "rd (xs @ ys) i = (if i < length xs then rd xs i else rd ys (i - length xs))"
  by (auto simp: rd_def nth_append)

lemma rd_at [mem_simps]: "n = length pre \<Longrightarrow> rd (pre @ x # post) n = Some x"
  by (simp add: rd_def)

lemma rd_n_Some_iff: "rd_n xs i n = Some ys \<longleftrightarrow> i + n \<le> length xs \<and> ys = take n (drop i xs)"
  by (auto simp: rd_n_def)

lemma rd_n_length [dest]: "rd_n xs i n = Some ys \<Longrightarrow> length ys = n"
  by (auto simp: rd_n_def split: if_splits)

lemma rd_n_zero [simp]: "i \<le> length xs \<Longrightarrow> rd_n xs i 0 = Some []"
  by (simp add: rd_n_def)

lemma rd_n_at [mem_simps]:
  "n = length pre \<Longrightarrow> m = length xs \<Longrightarrow> rd_n (pre @ xs @ post) n m = Some xs"
  by (simp add: rd_n_def)

lemma rd_n_prefix [mem_simps]: "m = length xs \<Longrightarrow> rd_n (xs @ post) 0 m = Some xs"
  by (simp add: rd_n_def)

lemma rd_n_all [mem_simps]: "m = length xs \<Longrightarrow> rd_n xs 0 m = Some xs"
  by (simp add: rd_n_def)

lemma rd_n_append [mem_simps]:
  "length xs \<le> i \<Longrightarrow> rd_n (xs @ ys) i n = rd_n ys (i - length xs) n"
  by (auto simp: rd_n_def)

section \<open>Byte order\<close>

definition le16 :: "u8 \<Rightarrow> u8 \<Rightarrow> u16" where
  "le16 b0 b1 = ucast b0 OR push_bit 8 (ucast b1)"

definition ntohs :: "u16 \<Rightarrow> u16" where
  "ntohs w = push_bit 8 w OR drop_bit 8 w"

definition htons :: "u16 \<Rightarrow> u16" where
  "htons w = push_bit 8 w OR drop_bit 8 w"

definition lo8 :: "u16 \<Rightarrow> u8" where
  "lo8 w = ucast w"

definition hi8 :: "u16 \<Rightarrow> u8" where
  "hi8 w = ucast (drop_bit 8 w)"

text \<open>\<open>memcpy(buf, &w, 2)\<close> of a \<open>uint16_t\<close>: the low half first.\<close>

definition bytes16 :: "u16 \<Rightarrow> bytes" where
  "bytes16 w = [lo8 w, hi8 w]"

definition be16 :: "u8 \<Rightarrow> u8 \<Rightarrow> u16" where
  "be16 b0 b1 = push_bit 8 (ucast b0) OR ucast b1"

definition le32 :: "u8 \<Rightarrow> u8 \<Rightarrow> u8 \<Rightarrow> u8 \<Rightarrow> u32" where
  "le32 b0 b1 b2 b3 =
     ucast b0 OR push_bit 8 (ucast b1) OR push_bit 16 (ucast b2) OR push_bit 24 (ucast b3)"

definition ntohl :: "u32 \<Rightarrow> u32" where
  "ntohl w = push_bit 24 w OR push_bit 8 (w AND 0xFF00) OR (drop_bit 8 w AND 0xFF00) OR drop_bit 24 w"

definition be32 :: "u8 \<Rightarrow> u8 \<Rightarrow> u8 \<Rightarrow> u8 \<Rightarrow> u32" where
  "be32 b0 b1 b2 b3 =
     push_bit 24 (ucast b0) OR push_bit 16 (ucast b1) OR push_bit 8 (ucast b2) OR ucast b3"

text \<open>The four \<open>(crc >> k) & 0xff\<close> bytes the tables append, most significant first.\<close>

definition bytes_be32 :: "u32 \<Rightarrow> bytes" where
  "bytes_be32 w =
     [ucast (drop_bit 24 w AND 0xFF), ucast (drop_bit 16 w AND 0xFF),
      ucast (drop_bit 8 w AND 0xFF), ucast (w AND 0xFF)]"

text \<open>\<open>memcpy(&v, p + i, 2)\<close> and \<open>memcpy(&v, p + i, 4)\<close>.\<close>

definition rd16 :: "bytes \<Rightarrow> nat \<Rightarrow> u16 option" where
  "rd16 xs i = do { a \<leftarrow> rd xs i; b \<leftarrow> rd xs (i + 1); Some (le16 a b) }"

definition rd32 :: "bytes \<Rightarrow> nat \<Rightarrow> u32 option" where
  "rd32 xs i = do { a \<leftarrow> rd xs i; b \<leftarrow> rd xs (i + 1); c \<leftarrow> rd xs (i + 2); d \<leftarrow> rd xs (i + 3);
     Some (le32 a b c d) }"

lemma less_8_cases: "(n::nat) < 8 \<longleftrightarrow> n \<in> {0, 1, 2, 3, 4, 5, 6, 7}"
  by (auto simp: eval_nat_numeral less_Suc_eq)

lemma less_16_cases:
  "(n::nat) < 16 \<longleftrightarrow> n \<in> {0, 1, 2, 3, 4, 5, 6, 7, 8, 9, 10, 11, 12, 13, 14, 15}"
  by (auto simp: eval_nat_numeral less_Suc_eq)

text \<open>Bits past the width are clear; the simplifier uses these for bytes and halfwords.\<close>

lemma bit_u8_high [simp]: "8 \<le> n \<Longrightarrow> \<not> bit (w :: u8) n"
  using bit_imp_le_length [of w n] by auto

lemma bit_u16_high [simp]: "16 \<le> n \<Longrightarrow> \<not> bit (w :: u16) n"
  using bit_imp_le_length [of w n] by auto

lemma bit_u32_high [simp]: "32 \<le> n \<Longrightarrow> \<not> bit (w :: u32) n"
  using bit_imp_le_length [of w n] by auto

lemma bit_u64_high [simp]: "64 \<le> n \<Longrightarrow> \<not> bit (w :: u64) n"
  using bit_imp_le_length [of w n] by auto

lemma bit_u64_double: "bit (w * 2 :: u64) k \<longleftrightarrow> 0 < k \<and> k < 64 \<and> bit w (k - 1)"
  using bit_double_iff [of w k] by (auto simp: mult.commute)

text \<open>Small numbers survive the conversions between \<^typ>\<open>nat\<close> and words.\<close>

lemma unat_of_nat_small [simp]:
  "n < 2 ^ LENGTH('a) \<Longrightarrow> unat (word_of_nat n :: 'a::len word) = n"
  by (simp add: unat_of_nat)

lemma uint_of_nat_small:
  "n < 2 ^ LENGTH('a) \<Longrightarrow> uint (word_of_nat n :: 'a::len word) = int n"
  by (simp add: unsigned_of_nat take_bit_nat_eq_self)

lemma uint_le_numeral: "uint w \<le> numeral k \<longleftrightarrow> unat w \<le> numeral k"
proof -
  have "unat w \<le> numeral k \<longleftrightarrow> int (unat w) \<le> int (numeral k)"
    by (simp only: of_nat_le_iff)
  then show ?thesis by simp
qed

lemma ucast_u8_u16_u8 [simp]: "ucast (ucast (b :: u8) :: u16) = b"
  by (rule bit_word_eqI) (auto simp: bit_simps)

lemma uint_ucast_u8_u16 [simp]: "uint (ucast (b :: u8) :: u16) = uint b"
  by (rule bit_eqI) (auto simp: bit_simps bit_uint_iff dest: bit_imp_le_length)

lemma sint_ucast_u8_u16: "sint (ucast (b :: u8) :: u16) = int (unat b)"
  by (rule bit_eqI) (auto simp: bit_simps bit_sint_iff min_def)

lemma bit_be16: "bit (be16 a b) n \<longleftrightarrow> n < 8 \<and> bit b n \<or> 8 \<le> n \<and> bit a (n - 8)"
proof -
  have "n < 8 \<or> (\<exists>k. n = 8 + k \<and> k < 8) \<or> 16 \<le> n" by presburger
  then show ?thesis by (auto simp: be16_def bit_simps)
qed

lemma ntohs_le16 [endian_simps]: "ntohs (le16 a b) = be16 a b"
  by (rule bit_word_eqI) (auto simp: ntohs_def le16_def be16_def bit_simps)

lemma htons_eq_ntohs: "htons w = ntohs w"
  by (simp add: htons_def ntohs_def)

lemma ntohs_ntohs [endian_simps]: "ntohs (ntohs w) = w"
  by (rule bit_word_eqI) (auto simp: ntohs_def bit_simps)

lemma lo8_be16 [endian_simps]: "lo8 (be16 a b) = b"
  by (rule bit_word_eqI) (auto simp: lo8_def be16_def bit_simps)

lemma hi8_be16 [endian_simps]: "hi8 (be16 a b) = a"
  by (rule bit_word_eqI) (auto simp: hi8_def be16_def bit_simps)

lemma be16_hi_lo [endian_simps]: "be16 (hi8 w) (lo8 w) = w"
  by (rule bit_word_eqI) (auto simp: be16_def hi8_def lo8_def bit_simps)

lemma lo8_htons [endian_simps]: "lo8 (htons w) = hi8 w"
  by (rule bit_word_eqI) (auto simp: lo8_def hi8_def htons_def bit_simps)

lemma hi8_htons [endian_simps]: "hi8 (htons w) = lo8 w"
  by (rule bit_word_eqI) (auto simp: lo8_def hi8_def htons_def bit_simps)

lemma bytes16_htons [endian_simps]: "bytes16 (htons w) = [hi8 w, lo8 w]"
  by (simp add: bytes16_def endian_simps)

text \<open>Testing one bit of a byte with a mask, the code's way of reading a flag.\<close>

lemma and_flag_masks [word_bits]:
  fixes w :: u8
  shows "w AND 0x80 = 0 \<longleftrightarrow> \<not> bit w 7" "w AND 0x40 = 0 \<longleftrightarrow> \<not> bit w 6"
    "w AND 0x20 = 0 \<longleftrightarrow> \<not> bit w 5" "w AND 0x10 = 0 \<longleftrightarrow> \<not> bit w 4"
    "w AND 0x08 = 0 \<longleftrightarrow> \<not> bit w 3" "w AND 0x04 = 0 \<longleftrightarrow> \<not> bit w 2"
    "w AND 0x02 = 0 \<longleftrightarrow> \<not> bit w 1" "w AND 0x01 = 0 \<longleftrightarrow> \<not> bit w 0"
  using and_exp_eq_0_iff_not_bit [of w 7] and_exp_eq_0_iff_not_bit [of w 6]
    and_exp_eq_0_iff_not_bit [of w 5] and_exp_eq_0_iff_not_bit [of w 4]
    and_exp_eq_0_iff_not_bit [of w 3] and_exp_eq_0_iff_not_bit [of w 2]
    and_exp_eq_0_iff_not_bit [of w 1] and_exp_eq_0_iff_not_bit [of w 0]
  by simp_all

text \<open>
  Which bits the masks of the code have: low masks \<open>2 ^ n - 1\<close>, single bits, and ranges of bits.
  Stated on \<^typ>\<open>int\<close>, where the simplifier takes the numerals of every width.
\<close>

lemma bit_low_masks [word_bits]:
  fixes n :: nat
  shows "bit (3 :: int) n \<longleftrightarrow> n < 2"
    "bit (7 :: int) n \<longleftrightarrow> n < 3"
    "bit (15 :: int) n \<longleftrightarrow> n < 4"
    "bit (31 :: int) n \<longleftrightarrow> n < 5"
    "bit (127 :: int) n \<longleftrightarrow> n < 7"
    "bit (255 :: int) n \<longleftrightarrow> n < 8"
    "bit (1023 :: int) n \<longleftrightarrow> n < 10"
    "bit (4095 :: int) n \<longleftrightarrow> n < 12"
    "bit (8191 :: int) n \<longleftrightarrow> n < 13"
    "bit (32767 :: int) n \<longleftrightarrow> n < 15"
    "bit (1073741823 :: int) n \<longleftrightarrow> n < 30"
    "bit (2147483647 :: int) n \<longleftrightarrow> n < 31"
    "bit (8589934591 :: int) n \<longleftrightarrow> n < 33"
proof -
  have m: "(3 :: int) = mask 2"
    "(7 :: int) = mask 3"
    "(15 :: int) = mask 4"
    "(31 :: int) = mask 5"
    "(127 :: int) = mask 7"
    "(255 :: int) = mask 8"
    "(1023 :: int) = mask 10"
    "(4095 :: int) = mask 12"
    "(8191 :: int) = mask 13"
    "(32767 :: int) = mask 15"
    "(1073741823 :: int) = mask 30"
    "(2147483647 :: int) = mask 31"
    "(8589934591 :: int) = mask 33"
    by (simp_all add: mask_eq_exp_minus_1)
  show "bit (3 :: int) n \<longleftrightarrow> n < 2"
    "bit (7 :: int) n \<longleftrightarrow> n < 3"
    "bit (15 :: int) n \<longleftrightarrow> n < 4"
    "bit (31 :: int) n \<longleftrightarrow> n < 5"
    "bit (127 :: int) n \<longleftrightarrow> n < 7"
    "bit (255 :: int) n \<longleftrightarrow> n < 8"
    "bit (1023 :: int) n \<longleftrightarrow> n < 10"
    "bit (4095 :: int) n \<longleftrightarrow> n < 12"
    "bit (8191 :: int) n \<longleftrightarrow> n < 13"
    "bit (32767 :: int) n \<longleftrightarrow> n < 15"
    "bit (1073741823 :: int) n \<longleftrightarrow> n < 30"
    "bit (2147483647 :: int) n \<longleftrightarrow> n < 31"
    "bit (8589934591 :: int) n \<longleftrightarrow> n < 33"
    unfolding m by (simp_all add: bit_simps)
qed

lemma bit_single_masks [word_bits]:
  fixes n :: nat
  shows "bit (2 :: int) n \<longleftrightarrow> n = 1"
    "bit (4 :: int) n \<longleftrightarrow> n = 2"
    "bit (8 :: int) n \<longleftrightarrow> n = 3"
    "bit (16 :: int) n \<longleftrightarrow> n = 4"
    "bit (32 :: int) n \<longleftrightarrow> n = 5"
    "bit (64 :: int) n \<longleftrightarrow> n = 6"
    "bit (128 :: int) n \<longleftrightarrow> n = 7"
    "bit (256 :: int) n \<longleftrightarrow> n = 8"
proof -
  have e: "bit (2 ^ k :: int) n \<longleftrightarrow> n = k" for k
    by (auto simp: bit_exp_iff)
  show "bit (2 :: int) n \<longleftrightarrow> n = 1"
    "bit (4 :: int) n \<longleftrightarrow> n = 2"
    "bit (8 :: int) n \<longleftrightarrow> n = 3"
    "bit (16 :: int) n \<longleftrightarrow> n = 4"
    "bit (32 :: int) n \<longleftrightarrow> n = 5"
    "bit (64 :: int) n \<longleftrightarrow> n = 6"
    "bit (128 :: int) n \<longleftrightarrow> n = 7"
    "bit (256 :: int) n \<longleftrightarrow> n = 8"
    using e [of 1] e [of 2] e [of 3] e [of 4] e [of 5] e [of 6] e [of 7] e [of 8] by simp_all
qed

lemma bit_range_masks [word_bits]:
  fixes n :: nat
  shows "bit (192 :: int) n \<longleftrightarrow> 6 \<le> n \<and> n < 8"
    "bit (224 :: int) n \<longleftrightarrow> 5 \<le> n \<and> n < 8"
    "bit (48 :: int) n \<longleftrightarrow> 4 \<le> n \<and> n < 6"
    "bit (14 :: int) n \<longleftrightarrow> 1 \<le> n \<and> n < 4"
    "bit (62 :: int) n \<longleftrightarrow> 1 \<le> n \<and> n < 6"
    "bit (240 :: int) n \<longleftrightarrow> 4 \<le> n \<and> n < 8"
    "bit (65280 :: int) n \<longleftrightarrow> 8 \<le> n \<and> n < 16"
    "bit (16711680 :: int) n \<longleftrightarrow> 16 \<le> n \<and> n < 24"
    "bit (6442450944 :: int) n \<longleftrightarrow> 31 \<le> n \<and> n < 33"
proof -
  have m: "(192 :: int) = push_bit 6 (mask 2)"
    "(224 :: int) = push_bit 5 (mask 3)"
    "(48 :: int) = push_bit 4 (mask 2)"
    "(14 :: int) = push_bit 1 (mask 3)"
    "(62 :: int) = push_bit 1 (mask 5)"
    "(240 :: int) = push_bit 4 (mask 4)"
    "(65280 :: int) = push_bit 8 (mask 8)"
    "(16711680 :: int) = push_bit 16 (mask 8)"
    "(6442450944 :: int) = push_bit 31 (mask 2)"
    by (simp_all add: push_bit_eq_mult mask_eq_exp_minus_1)
  show "bit (192 :: int) n \<longleftrightarrow> 6 \<le> n \<and> n < 8"
    "bit (224 :: int) n \<longleftrightarrow> 5 \<le> n \<and> n < 8"
    "bit (48 :: int) n \<longleftrightarrow> 4 \<le> n \<and> n < 6"
    "bit (14 :: int) n \<longleftrightarrow> 1 \<le> n \<and> n < 4"
    "bit (62 :: int) n \<longleftrightarrow> 1 \<le> n \<and> n < 6"
    "bit (240 :: int) n \<longleftrightarrow> 4 \<le> n \<and> n < 8"
    "bit (65280 :: int) n \<longleftrightarrow> 8 \<le> n \<and> n < 16"
    "bit (16711680 :: int) n \<longleftrightarrow> 16 \<le> n \<and> n < 24"
    "bit (6442450944 :: int) n \<longleftrightarrow> 31 \<le> n \<and> n < 33"
    unfolding m by (auto simp only: bit_push_bit_iff bit_mask_iff possible_bit_int)
qed

lemma bit_mixed_masks [word_bits]:
  fixes n :: nat
  shows "bit (176 :: int) n \<longleftrightarrow> n = 4 \<or> n = 5 \<or> n = 7"
    "bit (193 :: int) n \<longleftrightarrow> n = 0 \<or> n = 6 \<or> n = 7"
    "bit (243 :: int) n \<longleftrightarrow> n < 2 \<or> 4 \<le> n \<and> n < 8"
proof -
  have m: "(176 :: int) = 16 OR 32 OR 128" "(193 :: int) = 1 OR 64 OR 128" "(243 :: int) = 3 OR 240"
    by simp_all
  have "bit (1 :: int) n \<longleftrightarrow> n = 0" by (simp add: bit_1_iff)
  then show "bit (176 :: int) n \<longleftrightarrow> n = 4 \<or> n = 5 \<or> n = 7"
    "bit (193 :: int) n \<longleftrightarrow> n = 0 \<or> n = 6 \<or> n = 7"
    "bit (243 :: int) n \<longleftrightarrow> n < 2 \<or> 4 \<le> n \<and> n < 8"
    unfolding m bit_or_iff by (simp_all add: word_bits)
qed

lemma length_bytes_be32 [simp]: "length (bytes_be32 w) = 4"
  by (simp add: bytes_be32_def)

lemma bytes_be32_be32 [endian_simps]: "bytes_be32 (be32 a b c d) = [a, b, c, d]"
  by (auto intro!: bit_word_eqI simp: bytes_be32_def be32_def bit_simps word_bits)

lemma u32_bytewise_eqI:
  fixes v w :: u32
  assumes "\<And>k. k < 8 \<Longrightarrow> bit v k = bit w k \<and> bit v (8 + k) = bit w (8 + k) \<and>
    bit v (16 + k) = bit w (16 + k) \<and> bit v (24 + k) = bit w (24 + k)"
  shows "v = w"
proof (rule bit_word_eqI)
  fix n assume "n < LENGTH(32)"
  then have "n = n mod 8 \<or> n = 8 + n mod 8 \<or> n = 16 + n mod 8 \<or> n = 24 + n mod 8" by auto presburger
  then show "bit v n = bit w n" using assms [of "n mod 8"] by (metis mod_less_divisor zero_less_numeral)
qed

lemma ntohl_le32 [endian_simps]: "ntohl (le32 a b c d) = be32 a b c d"
  by (rule u32_bytewise_eqI) (simp add: ntohl_def le32_def be32_def bit_simps word_bits)

lemma be32_bytes [endian_simps]:
  "be32 (ucast (drop_bit 24 w AND 0xFF)) (ucast (drop_bit 16 w AND 0xFF))
     (ucast (drop_bit 8 w AND 0xFF)) (ucast (w AND 0xFF)) = w"
  by (rule u32_bytewise_eqI) (simp add: be32_def bit_simps word_bits)

lemma le32_bytes [endian_simps]:
  "le32 (ucast (drop_bit 24 w AND 0xFF)) (ucast (drop_bit 16 w AND 0xFF))
     (ucast (drop_bit 8 w AND 0xFF)) (ucast (w AND 0xFF)) = ntohl w"
  by (rule u32_bytewise_eqI) (simp add: le32_def ntohl_def bit_simps word_bits)

lemma ntohl_ntohl [endian_simps]: "ntohl (ntohl w) = w"
  by (subst le32_bytes [of w, symmetric]) (simp only: ntohl_le32 be32_bytes)

text \<open>Reads of two and four bytes behind a prefix, and when they are in range.\<close>

lemma rd16_defined: "rd16 xs i \<noteq> None \<longleftrightarrow> i + 1 < length xs"
  by (auto simp: rd16_def rd_def)

lemma rd32_defined: "rd32 xs i \<noteq> None \<longleftrightarrow> i + 3 < length xs"
  by (auto simp: rd32_def rd_def)

lemma rd16_at [mem_simps]: "k = length pre \<Longrightarrow> rd16 (pre @ a # b # post) k = Some (le16 a b)"
  by (simp add: rd16_def rd_append)

lemma rd32_at: "k = length pre \<Longrightarrow> rd32 (pre @ a # b # c # d # post) k = Some (le32 a b c d)"
  by (simp add: rd32_def rd_append)

lemma rd32_bytes_be32 [mem_simps]:
  "k = length pre \<Longrightarrow> rd32 (pre @ bytes_be32 w @ post) k = Some (ntohl w)"
  by (simp add: bytes_be32_def rd32_at endian_simps)

lemma pid_mask_eq:
  fixes w :: u16
  shows "w < 0x2000 \<Longrightarrow> w AND 0x1FFF = w"
  using less_mask_eq [of w 13] by (simp add: mask_eq_exp_minus_1)

lemma pid_mask_less:
  fixes w :: u16
  shows "w AND 0x1FFF < 0x2000"
  using and_mask_less' [of 13 w] by (simp add: mask_eq_exp_minus_1)

lemma pid_high_bits: "(w :: u16) < 0x2000 \<Longrightarrow> 13 \<le> n \<Longrightarrow> \<not> bit w n"
  by (subst pid_mask_eq [symmetric]) (simp_all add: bit_simps word_bits)

lemma le16_be16: "le16 a b = be16 b a"
  by (rule bit_word_eqI) (auto simp: le16_def be16_def bit_simps)

text \<open>Unfolding ranges with literal bounds.\<close>

lemma upt_from_0: "[0..<numeral k] = 0 # [Suc 0..<numeral k]"
  by (simp add: upt_conv_Cons)

lemma upt_from_1: "[Suc 0..<numeral k] = (if (2 :: nat) \<le> numeral k then Suc 0 # [2..<numeral k] else [])"
  by (auto simp: upt_conv_Cons numeral_2_eq_2)

text \<open>An index below a bound of its own width does not wrap when it is incremented.\<close>

lemma unat_inc: "(i :: 'a::len word) < n \<Longrightarrow> unat (i + 1) = unat i + 1"
proof -
  assume "i < n"
  moreover have "unat n < 2 ^ LENGTH('a)" by (rule unsigned_less)
  ultimately have "unat i + 1 < 2 ^ LENGTH('a)" unfolding word_less_nat_alt by linarith
  then show ?thesis by (simp add: unat_word_ariths)
qed

end
