(* ===== verification/Adaptation_Field.thy ===== *)
theory Adaptation_Field
  imports Mp2tp_Prelude
begin

text \<open>
  \<open>lcss::AdaptationField\<close> (\<open>tsadptfd.cpp\<close>): a view on the adaptation field of a transport packet.
  Its only state is the pointer \<open>_data\<close>, null after the default constructor and otherwise four
  bytes past the start of the packet it was given. Dereferencing the null pointer or reading past
  the packet is \<^const>\<open>None\<close>.
\<close>

record adaptation_field =
  af_data :: "bytes option"

definition af_null :: adaptation_field where
  "af_null = \<lparr>af_data = None\<rparr>"

definition af_of :: "bytes \<Rightarrow> adaptation_field" where
  "af_of d = \<lparr>af_data = Some (drop 4 d)\<rparr>"

definition af_parse :: "adaptation_field \<Rightarrow> bytes \<Rightarrow> adaptation_field" where
  "af_parse af d = af\<lparr>af_data := Some (drop 4 d)\<rparr>"

text \<open>\<open>short len = 0; memcpy(&len, _data, 1)\<close>: the low byte of a little-endian \<open>short\<close>.\<close>

definition af_length :: "adaptation_field \<Rightarrow> u16 option" where
  "af_length af = do { p \<leftarrow> af_data af; b \<leftarrow> rd p 0; Some (le16 b 0) }"

text \<open>\<open>_data[1] & MASK ? true : false\<close>, the form of the eight flag accessors.\<close>

definition af_flag :: "u8 \<Rightarrow> adaptation_field \<Rightarrow> bool option" where
  "af_flag m af = do { p \<leftarrow> af_data af; b \<leftarrow> rd p 1; Some (b AND m \<noteq> 0) }"

definition discontinuity_indicator :: "adaptation_field \<Rightarrow> bool option" where
  "discontinuity_indicator = af_flag 0x80"

definition random_access_indicator :: "adaptation_field \<Rightarrow> bool option" where
  "random_access_indicator = af_flag 0x40"

definition elementary_stream_priority_indicator :: "adaptation_field \<Rightarrow> bool option" where
  "elementary_stream_priority_indicator = af_flag 0x20"

definition PCR_flag :: "adaptation_field \<Rightarrow> bool option" where
  "PCR_flag = af_flag 0x10"

definition OPCR_flag :: "adaptation_field \<Rightarrow> bool option" where
  "OPCR_flag = af_flag 0x08"

definition splicing_point_flag :: "adaptation_field \<Rightarrow> bool option" where
  "splicing_point_flag = af_flag 0x04"

definition transport_private_data_flag :: "adaptation_field \<Rightarrow> bool option" where
  "transport_private_data_flag = af_flag 0x02"

definition adaptation_field_extension_flag :: "adaptation_field \<Rightarrow> bool option" where
  "adaptation_field_extension_flag = af_flag 0x01"

text \<open>
  \<open>getPCR(pcr)\<close> overwrites the first six bytes of the caller's buffer when the flag is set and
  leaves it alone otherwise; a buffer of fewer than six bytes would be overrun.
\<close>

definition getPCR :: "adaptation_field \<Rightarrow> bytes \<Rightarrow> (bool \<times> bytes) option" where
  "getPCR af pcr = do {
     f \<leftarrow> PCR_flag af;
     if f then do {
       p \<leftarrow> af_data af;
       bs \<leftarrow> rd_n p 2 6;
       if length pcr < 6 then None else Some (True, bs @ drop 6 pcr)
     } else Some (False, pcr) }"

lemmas af_flag_defs =
  discontinuity_indicator_def random_access_indicator_def elementary_stream_priority_indicator_def
  PCR_flag_def OPCR_flag_def splicing_point_flag_def transport_private_data_flag_def
  adaptation_field_extension_flag_def

lemma af_parse_eq: "af_parse af d = af_of d"
  by (simp add: af_parse_def af_of_def)

lemma af_length_of: "4 < length d \<Longrightarrow> af_length (af_of d) = Some (ucast (d ! 4))"
  by (auto simp: af_length_def af_of_def rd_def le16_def)

lemma af_flag_of: "5 < length d \<Longrightarrow> af_flag m (af_of d) = Some (d ! 5 AND m \<noteq> 0)"
  by (simp add: af_flag_def af_of_def rd_def)

lemma getPCR_of:
  "12 \<le> length d \<Longrightarrow> length pcr = 6 \<Longrightarrow>
   getPCR (af_of d) pcr =
     Some (if d ! 5 AND 0x10 \<noteq> 0 then (True, take 6 (drop 6 d)) else (False, pcr))"
  by (auto simp: getPCR_def PCR_flag_def af_flag_of) (auto simp: af_of_def rd_n_def)

text \<open>The value of the six bytes of a PCR by ISO/IEC 13818-1: base, six reserved bits, extension.\<close>

definition pcr_value :: "bytes \<Rightarrow> u64" where
  "pcr_value b =
     (push_bit 25 (ucast (b ! 0)) OR push_bit 17 (ucast (b ! 1)) OR push_bit 9 (ucast (b ! 2)) OR
      push_bit 1 (ucast (b ! 3)) OR drop_bit 7 (ucast (b ! 4))) * 300 +
     (push_bit 8 (ucast (b ! 4) AND 1) OR ucast (b ! 5))"

end
