(* ===== verification/Transport_Packet.thy ===== *)
theory Transport_Packet
  imports Adaptation_Field
begin

text \<open>
  \<open>lcss::TransportPacket\<close> (\<open>tspckt.cpp\<close>): the 188-byte packet. \<open>pk_data\<close> is the
  \<open>std::array<uint8_t, 188> _data\<close>, whose length never changes (\<open>wf_packet\<close>); \<open>pk_pos\<close> is
  \<open>_pos\<close>. The member \<open>_adptFd\<close> is a cache that \<open>getAdaptationField\<close> sets again before every
  use, so the model returns the view instead of storing it. Which object owns the implementation
  (\<open>std::unique_ptr\<close>, moves) is not modelled.
\<close>

definition TS_SIZE :: nat where
  "TS_SIZE = 188"

record ts_packet =
  pk_pos :: nat
  pk_data :: bytes

definition wf_packet :: "ts_packet \<Rightarrow> bool" where
  "wf_packet p \<longleftrightarrow> length (pk_data p) = 188"

section \<open>Construction and raw access\<close>

definition new_packet :: ts_packet where
  "new_packet = \<lparr>pk_pos = 0, pk_data = replicate TS_SIZE 0xFF\<rparr>"

definition packet_copy :: "ts_packet \<Rightarrow> ts_packet" where
  "packet_copy src = \<lparr>pk_pos = pk_pos src, pk_data = pk_data src\<rparr>"

definition impl_clear :: "ts_packet \<Rightarrow> ts_packet" where
  "impl_clear p = p\<lparr>pk_pos := 0\<rparr>"

text \<open>\<open>Impl::insert\<close>: the assertion, then \<open>len\<close> bytes copied from the pointer.\<close>

definition impl_insert :: "ts_packet \<Rightarrow> bytes \<Rightarrow> nat \<Rightarrow> ts_packet option" where
  "impl_insert p d len =
     (if len \<noteq> TS_SIZE then None
      else do { bs \<leftarrow> rd_n d 0 len;
                Some ((impl_clear p)\<lparr>pk_data := bs @ drop len (pk_data p), pk_pos := len\<rparr>) })"

definition impl_push_back :: "ts_packet \<Rightarrow> u8 \<Rightarrow> ts_packet" where
  "impl_push_back p d =
     (if pk_pos p < TS_SIZE
      then p\<lparr>pk_data := (pk_data p)[pk_pos p := d], pk_pos := pk_pos p + 1\<rparr> else p)"

definition packet_of :: "bytes \<Rightarrow> ts_packet option" where
  "packet_of d = impl_insert new_packet d TS_SIZE"

text \<open>The constructor with a length ignores it: 188 bytes are read whatever \<open>len\<close> says.\<close>

definition packet_of_len :: "bytes \<Rightarrow> nat \<Rightarrow> ts_packet option" where
  "packet_of_len d len = impl_insert new_packet d TS_SIZE"

definition packet_parse :: "ts_packet \<Rightarrow> bytes \<Rightarrow> ts_packet option" where
  "packet_parse p buf = impl_insert p buf TS_SIZE"

definition packet_push_back :: "ts_packet \<Rightarrow> u8 \<Rightarrow> ts_packet" where
  "packet_push_back p b = impl_push_back p b"

definition packet_length :: "ts_packet \<Rightarrow> nat" where
  "packet_length p = pk_pos p"

section \<open>Header fields\<close>

definition TEI :: "ts_packet \<Rightarrow> bool" where
  "TEI p \<longleftrightarrow> pk_data p ! 1 AND 0x80 \<noteq> 0"

definition payloadUnitStart :: "ts_packet \<Rightarrow> bool" where
  "payloadUnitStart p \<longleftrightarrow> pk_data p ! 1 AND 0x40 \<noteq> 0"

definition transportPriority :: "ts_packet \<Rightarrow> bool" where
  "transportPriority p \<longleftrightarrow> pk_data p ! 1 AND 0x20 \<noteq> 0"

definition PID :: "ts_packet \<Rightarrow> u16" where
  "PID p = le16 (pk_data p ! 2) (pk_data p ! 1) AND 0x1FFF"

text \<open>
  \<open>memset(pidArray, npid, 2)\<close> fills both bytes with the low byte of \<open>npid = htons(pid)\<close>.
\<close>

definition setPID :: "ts_packet \<Rightarrow> u16 \<Rightarrow> ts_packet" where
  "setPID p pid =
     (let npid = htons pid;
          c = lo8 npid;
          flags = pk_data p ! 1 AND 0xE0;
          d = (pk_data p)[1 := c, 2 := c]
      in p\<lparr>pk_data := d[1 := d ! 1 OR flags]\<rparr>)"

definition scramblingControl :: "ts_packet \<Rightarrow> u8" where
  "scramblingControl p = drop_bit 6 (pk_data p ! 3 AND 0xC0)"

definition adaptationFieldExist :: "ts_packet \<Rightarrow> u8" where
  "adaptationFieldExist p = drop_bit 4 (pk_data p ! 3 AND 0x30)"

definition cc :: "ts_packet \<Rightarrow> u8" where
  "cc p = pk_data p ! 3 AND 0x0F"

definition continuity_value :: bytes where
  "continuity_value = [0x10, 0x11, 0x12, 0x13, 0x14, 0x15, 0x16, 0x17,
                       0x18, 0x19, 0x1A, 0x1B, 0x1C, 0x1D, 0x1E, 0x1F]"

definition continuity_value_adaptation :: bytes where
  "continuity_value_adaptation = [0x30, 0x31, 0x32, 0x33, 0x34, 0x35, 0x36, 0x37,
                                  0x38, 0x39, 0x3A, 0x3B, 0x3C, 0x3D, 0x3E, 0x3F]"

definition incrementCC :: "ts_packet \<Rightarrow> ts_packet \<times> u8" where
  "incrementCC p =
     (let afc = adaptationFieldExist p;
          k = (unat (cc p) + 1) mod 16;
          v = (if afc = 0x01 then continuity_value ! k else continuity_value_adaptation ! k);
          p' = p\<lparr>pk_data := (pk_data p)[3 := v]\<rparr>
      in (p', cc p'))"

section \<open>Adaptation field and payload\<close>

definition getAdaptationField :: "ts_packet \<Rightarrow> adaptation_field option" where
  "getAdaptationField p =
     (let flag = adaptationFieldExist p
      in if flag = 0x02 \<or> flag = 0x03 then Some (af_parse af_null (pk_data p)) else None)"

text \<open>\<open>data_byte()\<close>: how many payload bytes end the packet.\<close>

definition data_byte :: "ts_packet \<Rightarrow> u8 option" where
  "data_byte p =
     (let afc = adaptationFieldExist p
      in if afc = 0x01 then Some 184
         else if afc = 0x02 then Some 183
         else if afc = 0x03 then do {
           af \<leftarrow> getAdaptationField p;
           len \<leftarrow> af_length af;
           Some (if 0 \<le> sint len \<and> sint len \<le> 182 then 184 - ucast len - 1 else 182)
         } else Some 0)"

text \<open>
  \<open>for (it = first; it != end; ++it, i++) if (i < len) out[i] = *it;\<close>, the copy loop of
  \<open>getData\<close>, \<open>getPayload\<close> and \<open>serialize\<close>. Writing past the caller's buffer is \<^const>\<open>None\<close>.
\<close>

fun copy_out :: "bytes \<Rightarrow> nat \<Rightarrow> int \<Rightarrow> bytes \<Rightarrow> bytes option" where
  "copy_out [] i len out = Some out"
| "copy_out (x # xs) i len out =
     (if int i < len
      then (if i < length out then copy_out xs (i + 1) len (out[i := x]) else None)
      else copy_out xs (i + 1) len out)"

definition getData_copy :: "ts_packet \<Rightarrow> bytes \<Rightarrow> int \<Rightarrow> bytes option" where
  "getData_copy p buffer len = do {
     db \<leftarrow> data_byte p;
     let start = int TS_SIZE - uint db;
     if start > 0 then copy_out (drop (nat start) (pk_data p)) 0 len buffer else Some buffer }"

text \<open>
  The pointer that \<open>getData()\<close> returns: \<open>Some None\<close> is the null pointer, \<open>Some (Some bs)\<close> a
  pointer to the bytes \<open>bs\<close> at the end of the packet.
\<close>

definition getData :: "ts_packet \<Rightarrow> bytes option option" where
  "getData p = do {
     db \<leftarrow> data_byte p;
     let start = int TS_SIZE - uint db;
     Some (if start > 0 then Some (drop (nat start) (pk_data p)) else None) }"

definition getPayload :: "ts_packet \<Rightarrow> bytes \<Rightarrow> int \<Rightarrow> (bytes \<times> int) option" where
  "getPayload p out len = do {
     db \<leftarrow> data_byte p;
     let start = int TS_SIZE - uint db;
     if start > 0 then do {
       let payload = drop (nat start) (pk_data p);
       out' \<leftarrow> copy_out payload 0 len out;
       Some (out', int (length payload))
     } else Some (out, 0) }"

text \<open>\<open>setPayload\<close>: the same loop in the other direction, \<open>if (i < len) *it = data[i];\<close>.\<close>

fun copy_in :: "bytes \<Rightarrow> nat \<Rightarrow> int \<Rightarrow> bytes \<Rightarrow> bytes option" where
  "copy_in [] i len src = Some []"
| "copy_in (x # xs) i len src =
     (if int i < len
      then do { b \<leftarrow> rd src i; bs \<leftarrow> copy_in xs (i + 1) len src; Some (b # bs) }
      else do { bs \<leftarrow> copy_in xs (i + 1) len src; Some (x # bs) })"

definition setPayload :: "ts_packet \<Rightarrow> bytes \<Rightarrow> int \<Rightarrow> ts_packet option" where
  "setPayload p src len = do {
     db \<leftarrow> data_byte p;
     let start = int TS_SIZE - uint db;
     if start > 0 then do {
       new \<leftarrow> copy_in (drop (nat start) (pk_data p)) 0 len src;
       Some (p\<lparr>pk_data := take (nat start) (pk_data p) @ new\<rparr>)
     } else Some p }"

definition packet_serialize :: "ts_packet \<Rightarrow> bytes \<Rightarrow> int \<Rightarrow> bytes option" where
  "packet_serialize p out len = copy_out (pk_data p) 0 len out"

section \<open>Every operation keeps the array's size\<close>

text \<open>The packet that holds the bytes \<open>b\<close>.\<close>

definition pkt :: "bytes \<Rightarrow> ts_packet" where
  "pkt b = \<lparr>pk_pos = 188, pk_data = b\<rparr>"

lemma pkt_simps [simp]: "pk_pos (pkt b) = 188" "pk_data (pkt b) = b"
  by (simp_all add: pkt_def)

lemma wf_new_packet [simp]: "wf_packet new_packet"
  by (simp add: wf_packet_def new_packet_def TS_SIZE_def)

lemma impl_insert_Some:
  "impl_insert p d len = Some q \<Longrightarrow> wf_packet p \<Longrightarrow>
   len = 188 \<and> 188 \<le> length d \<and> q = \<lparr>pk_pos = 188, pk_data = take 188 d\<rparr>"
  by (auto simp: impl_insert_def impl_clear_def rd_n_def TS_SIZE_def wf_packet_def
      split: if_splits bind_splits)

lemma packet_of_eq:
  "packet_of d = (if 188 \<le> length d then Some \<lparr>pk_pos = 188, pk_data = take 188 d\<rparr> else None)"
  by (simp add: packet_of_def impl_insert_def impl_clear_def new_packet_def rd_n_def TS_SIZE_def)

lemma packet_of_pkt: "packet_of d = (if 188 \<le> length d then Some (pkt (take 188 d)) else None)"
  by (simp add: packet_of_eq pkt_def)

lemma packet_of_len_eq: "packet_of_len d len = packet_of d"
  by (simp add: packet_of_len_def packet_of_def)

lemma packet_parse_eq:
  "wf_packet p \<Longrightarrow>
   packet_parse p d = (if 188 \<le> length d then Some \<lparr>pk_pos = 188, pk_data = take 188 d\<rparr> else None)"
  by (simp add: packet_parse_def impl_insert_def impl_clear_def rd_n_def TS_SIZE_def wf_packet_def)

lemma wf_push_back: "wf_packet p \<Longrightarrow> wf_packet (packet_push_back p b)"
  by (simp add: wf_packet_def packet_push_back_def impl_push_back_def)

lemma wf_setPID: "wf_packet p \<Longrightarrow> wf_packet (setPID p pid)"
  by (simp add: wf_packet_def setPID_def Let_def)

lemma wf_incrementCC: "wf_packet p \<Longrightarrow> wf_packet (fst (incrementCC p))"
  by (simp add: wf_packet_def incrementCC_def Let_def)

section \<open>The copy loops in closed form\<close>

lemma copy_out_stop: "len \<le> int i \<Longrightarrow> copy_out xs i len out = Some out"
  by (induction xs i len out rule: copy_out.induct) auto

lemma copy_in_stop: "len \<le> int i \<Longrightarrow> copy_in xs i len src = Some xs"
  by (induction xs i len src rule: copy_in.induct) auto

lemma copy_out_closed:
  "n = min (length xs) (nat (len - int i)) \<Longrightarrow> i + n \<le> length out \<Longrightarrow>
   copy_out xs i len out = Some (take i out @ take n xs @ drop (i + n) out)"
proof (induction xs i len out arbitrary: n rule: copy_out.induct)
  case (1 i len out)
  then show ?case by simp
next
  case (2 x xs i len out)
  show ?case
  proof (cases "int i < len")
    case True
    define m where "m = min (length xs) (nat (len - int (i + 1)))"
    have n: "n = Suc m" using "2.prems"(1) True by (auto simp: m_def)
    have i: "i < length out" using "2.prems"(2) n by simp
    have "copy_out xs (i + 1) len (out[i := x])
          = Some (take (i + 1) (out[i := x]) @ take m xs @ drop (i + 1 + m) (out[i := x]))"
      using True i "2.prems" n by (intro "2.IH"(1)) (auto simp: m_def)
    then show ?thesis
      using True n i by (simp add: take_Suc_conv_app_nth)
  qed (use "2.prems" in \<open>simp add: copy_out_stop\<close>)
qed

lemma copy_in_closed:
  "n = min (length xs) (nat (len - int i)) \<Longrightarrow> i + n \<le> length src \<Longrightarrow>
   copy_in xs i len src = Some (take n (drop i src) @ drop n xs)"
proof (induction xs i len src arbitrary: n rule: copy_in.induct)
  case (1 i len src)
  then show ?case by simp
next
  case (2 x xs i len src)
  show ?case
  proof (cases "int i < len")
    case True
    define m where "m = min (length xs) (nat (len - int (i + 1)))"
    have n: "n = Suc m" using "2.prems"(1) True by (auto simp: m_def)
    have i: "i < length src" using "2.prems"(2) n by simp
    have "copy_in xs (i + 1) len src = Some (take m (drop (i + 1) src) @ drop m xs)"
      if "rd src i = Some b" for b
      using True i "2.prems" n that by (intro "2.IH"(1)) (auto simp: m_def)
    then show ?thesis
      using True n i by (simp add: rd_def Cons_nth_drop_Suc [symmetric])
  qed (use "2.prems" in \<open>simp add: copy_in_stop\<close>)
qed

section \<open>Payload geometry\<close>

text \<open>The number of payload bytes \<open>data_byte\<close> computes, as a number.\<close>

definition payload_size :: "ts_packet \<Rightarrow> nat" where
  "payload_size p =
     (let afc = adaptationFieldExist p; l = unat (pk_data p ! 4)
      in if afc = 1 then 184 else if afc = 2 then 183
         else if afc = 3 then (if l \<le> 182 then 183 - l else 182) else 0)"

lemma payload_size_le: "payload_size p \<le> 184"
  by (auto simp: payload_size_def Let_def)

lemma data_byte_wf:
  assumes "wf_packet p"
  shows "data_byte p = Some (word_of_nat (payload_size p))"
proof (cases "adaptationFieldExist p = 3")
  case True
  then have "getAdaptationField p = Some (af_of (pk_data p))"
    by (simp add: getAdaptationField_def af_parse_eq)
  moreover have "af_length (af_of (pk_data p)) = Some (ucast (pk_data p ! 4))"
    using assms by (intro af_length_of) (simp add: wf_packet_def)
  ultimately show ?thesis
    using True by (auto simp: data_byte_def payload_size_def Let_def sint_ucast_u8_u16 of_nat_diff
        uint_le_numeral)
qed (auto simp: data_byte_def payload_size_def Let_def)

lemma data_byte_uint: "wf_packet p \<Longrightarrow> data_byte p = Some b \<Longrightarrow> uint b = int (payload_size p)"
  using payload_size_le [of p] by (auto simp: data_byte_wf uint_of_nat_small)

definition payload_start :: "ts_packet \<Rightarrow> nat" where
  "payload_start p = 188 - payload_size p"

lemma payload_start_bounds: "4 \<le> payload_start p" "payload_start p \<le> 188"
  using payload_size_le [of p] by (simp_all add: payload_start_def)

lemma payload_start_size: "payload_start p + payload_size p = 188"
  using payload_size_le [of p] by (simp add: payload_start_def)

lemma start_wf:
  "wf_packet p \<Longrightarrow> data_byte p = Some b \<Longrightarrow> int TS_SIZE - uint b = int (payload_start p)"
  using payload_size_le [of p] data_byte_uint [of p b]
  by (simp add: TS_SIZE_def payload_start_def)

lemma payload_length:
  "wf_packet p \<Longrightarrow> length (drop (payload_start p) (pk_data p)) = payload_size p"
  using payload_start_size [of p] by (simp add: wf_packet_def)

lemma data_byte_ex: "wf_packet p \<Longrightarrow> \<exists>b. data_byte p = Some b"
  by (simp add: data_byte_wf)

lemma getData_wf:
  assumes "wf_packet p"
  shows "getData p = Some (Some (drop (payload_start p) (pk_data p)))"
proof -
  obtain b where b: "data_byte p = Some b" using data_byte_ex [OF assms] by blast
  show ?thesis
    using start_wf [OF assms b] payload_start_bounds(1) [of p] by (simp add: getData_def b)
qed

lemma getPayload_wf:
  assumes "wf_packet p" and k: "k = min (payload_size p) (nat len)" and "k \<le> length out"
  shows "getPayload p out len =
    Some (take k (drop (payload_start p) (pk_data p)) @ drop k out, int (payload_size p))"
proof -
  obtain b where b: "data_byte p = Some b" using data_byte_ex [OF assms(1)] by blast
  have "copy_out (drop (payload_start p) (pk_data p)) 0 len out
      = Some (take 0 out @ take k (drop (payload_start p) (pk_data p)) @ drop (0 + k) out)"
    using assms payload_length [OF assms(1)] by (intro copy_out_closed) auto
  then show ?thesis
    using start_wf [OF assms(1) b] payload_start_bounds(1) [of p] payload_length [OF assms(1)]
    by (simp add: getPayload_def b)
qed

lemma setPayload_wf:
  assumes "wf_packet p" and k: "k = min (payload_size p) (nat len)" and "k \<le> length src"
  shows "setPayload p src len = Some (p\<lparr>pk_data :=
    take (payload_start p) (pk_data p) @ take k src @ drop (payload_start p + k) (pk_data p)\<rparr>)"
proof -
  obtain b where b: "data_byte p = Some b" using data_byte_ex [OF assms(1)] by blast
  have "copy_in (drop (payload_start p) (pk_data p)) 0 len src
      = Some (take k (drop 0 src) @ drop k (drop (payload_start p) (pk_data p)))"
    using assms payload_length [OF assms(1)] by (intro copy_in_closed) auto
  then show ?thesis
    using start_wf [OF assms(1) b] payload_start_bounds(1) [of p]
    by (simp add: setPayload_def b add.commute)
qed

text \<open>The payload geometry depends on bytes 3 and 4 only, which lie before a payload they announce.\<close>

lemma payload_size_cong:
  "pk_data q ! 3 = pk_data p ! 3 \<Longrightarrow>
   (adaptationFieldExist p = 3 \<Longrightarrow> pk_data q ! 4 = pk_data p ! 4) \<Longrightarrow> payload_size q = payload_size p"
  by (auto simp: payload_size_def adaptationFieldExist_def Let_def)

lemma payload_start_adaptation: "adaptationFieldExist p = 3 \<Longrightarrow> 5 \<le> payload_start p"
  by (auto simp: payload_start_def payload_size_def Let_def)

lemma payload_size_prefix:
  assumes "take (payload_start p) (pk_data q) = take (payload_start p) (pk_data p)"
  shows "payload_size q = payload_size p"
proof (rule payload_size_cong)
  have nth: "pk_data q ! i = pk_data p ! i" if "i < payload_start p" for i
    using assms that by (metis nth_take)
  show "pk_data q ! 3 = pk_data p ! 3"
    using payload_start_bounds(1) [of p] by (intro nth) simp
  show "pk_data q ! 4 = pk_data p ! 4" if "adaptationFieldExist p = 3"
    using payload_start_adaptation [OF that] by (intro nth) simp
qed

section \<open>Properties\<close>

subsection \<open>Header fields\<close>

text \<open>The transport header as the standard lays it out, field by field.\<close>

definition ts_header :: "bool \<Rightarrow> bool \<Rightarrow> bool \<Rightarrow> u16 \<Rightarrow> u8 \<Rightarrow> u8 \<Rightarrow> u8 \<Rightarrow> bytes" where
  "ts_header tei pusi pri pid scr afc ctr =
     [0x47,
      (if tei then 0x80 else 0) OR (if pusi then 0x40 else 0) OR (if pri then 0x20 else 0)
        OR (hi8 pid AND 0x1F),
      lo8 pid,
      push_bit 6 scr OR push_bit 4 (afc AND 3) OR (ctr AND 15)]"

lemma length_ts_header [simp]: "length (ts_header a b c d e f g) = 4"
  by (simp add: ts_header_def)

lemma byte1_bits:
  fixes h :: u8 and a b c :: bool
  defines "w \<equiv> (if a then 0x80 else 0) OR (if b then 0x40 else 0) OR (if c then 0x20 else 0) OR (h AND 0x1F)"
  shows "bit w 7 \<longleftrightarrow> a" "bit w 6 \<longleftrightarrow> b" "bit w 5 \<longleftrightarrow> c" "n < 5 \<Longrightarrow> bit w n \<longleftrightarrow> bit h n"
  by (auto simp: w_def bit_simps less_Suc_eq numeral_eq_Suc)

text \<open>
  A packet built from 188 bytes that start with the standard's transport header gives
  back every header field through its accessor: the three flags, the 13-bit PID, the scrambling and
  adaptation field control bits and the continuity counter.
\<close>

lemma header_decode:
  assumes "184 \<le> length payload"
  shows "\<exists>p. packet_of (ts_header tei pusi pri pid scr afc ctr @ payload) = Some p \<and> wf_packet p \<and>
    TEI p = tei \<and> payloadUnitStart p = pusi \<and> transportPriority p = pri \<and>
    PID p = pid AND 0x1FFF \<and> scramblingControl p = scr AND 3 \<and>
    adaptationFieldExist p = afc AND 3 \<and> cc p = ctr AND 15"
proof -
  define d where "d = ts_header tei pusi pri pid scr afc ctr @ payload"
  define p where "p = \<lparr>pk_pos = 188, pk_data = take 188 d\<rparr>"
  have len: "188 \<le> length d" using assms by (simp add: d_def)
  define b1 where "b1 = pk_data p ! 1"
  have "b1 = (if tei then 0x80 else 0) OR (if pusi then 0x40 else 0) OR (if pri then 0x20 else 0)
      OR (hi8 pid AND 0x1F)"
    using len by (simp add: b1_def p_def d_def ts_header_def)
  then have b1: "bit b1 7 \<longleftrightarrow> tei" "bit b1 6 \<longleftrightarrow> pusi" "bit b1 5 \<longleftrightarrow> pri"
    "\<And>n. n < 5 \<Longrightarrow> bit b1 n \<longleftrightarrow> bit (hi8 pid) n"
    by (simp_all only: byte1_bits)
  have d2: "pk_data p ! 2 = lo8 pid"
    and d3: "pk_data p ! 3 = push_bit 6 scr OR push_bit 4 (afc AND 3) OR (ctr AND 15)"
    using len by (simp_all add: p_def d_def ts_header_def)
  have "packet_of d = Some p" using len by (simp add: packet_of_eq p_def)
  moreover have "wf_packet p" using len by (simp add: wf_packet_def p_def)
  moreover have "TEI p = tei" "payloadUnitStart p = pusi" "transportPriority p = pri"
    by (simp_all only: TEI_def payloadUnitStart_def transportPriority_def word_bits
        b1_def [symmetric] b1 simp_thms)
  moreover have "PID p = pid AND 0x1FFF"
    unfolding PID_def d2 b1_def [symmetric]
    by (rule bit_word_eqI) (auto simp: word_bits le16_def bit_simps b1 lo8_def hi8_def)
  moreover have "scramblingControl p = scr AND 3"
    by (rule bit_word_eqI)
       (auto simp: scramblingControl_def d3 word_bits bit_simps)
  moreover have "adaptationFieldExist p = afc AND 3"
    by (rule bit_word_eqI)
       (auto simp: adaptationFieldExist_def d3 word_bits bit_simps)
  moreover have "cc p = ctr AND 15"
    by (rule bit_word_eqI) (auto simp: cc_def d3 word_bits bit_simps)
  ultimately show ?thesis by (auto simp: d_def)
qed

text \<open>
  \<open>setPID\<close> stores the high byte of its argument in both PID bytes (the call is
  \<open>memset\<close>, not \<open>memcpy\<close>), so reading the PID back gives the argument exactly when it fits in 13
  bits and its two bytes are equal.
\<close>

lemma setPID_roundtrip_iff:
  assumes "wf_packet p"
  shows "PID (setPID p pid) = be16 (hi8 pid) (hi8 pid) AND 0x1FFF \<and>
    (PID (setPID p pid) = pid \<longleftrightarrow> pid < 0x2000 \<and> lo8 pid = hi8 pid)"
proof -
  define h where "h = hi8 pid"
  define flags where "flags = pk_data p ! 1 AND 0xE0"
  have flags: "\<not> bit flags n" if "n < 5" for n
    using that by (auto simp: flags_def bit_simps less_Suc_eq numeral_eq_Suc)
  have "PID (setPID p pid) = le16 h (h OR flags) AND 0x1FFF"
    using assms by (simp add: PID_def setPID_def Let_def wf_packet_def endian_simps h_def flags_def)
  also have "\<dots> = be16 h h AND 0x1FFF"
    by (rule bit_word_eqI) (auto simp: word_bits le16_def be16_def bit_simps flags)
  finally have pid: "PID (setPID p pid) = be16 h h AND 0x1FFF" .
  have "be16 h h AND 0x1FFF = pid \<longleftrightarrow> pid < 0x2000 \<and> lo8 pid = h"
  proof
    assume eq: "be16 h h AND 0x1FFF = pid"
    have "lo8 (be16 h h AND 0x1FFF) = h"
      by (rule bit_word_eqI) (auto simp: lo8_def word_bits be16_def bit_simps)
    with eq show "pid < 0x2000 \<and> lo8 pid = h"
      using pid_mask_less [of "be16 h h"] by simp
  next
    assume "pid < 0x2000 \<and> lo8 pid = h"
    then show "be16 h h AND 0x1FFF = pid"
      using be16_hi_lo [of pid] by (simp add: h_def pid_mask_eq)
  qed
  with pid show ?thesis by (simp add: h_def)
qed

text \<open>
  \<open>incrementCC\<close> advances the continuity counter by one modulo 16 and returns it,
  touches no byte but the fourth, keeps \<open>payload only\<close> packets payload only, marks every other packet
  as adaptation field plus payload, and clears the scrambling bits.
\<close>

lemma incrementCC_step:
  assumes "wf_packet p"
  shows "snd (incrementCC p) = (cc p + 1) AND 15 \<and> cc (fst (incrementCC p)) = (cc p + 1) AND 15 \<and>
    fst (incrementCC p) = p\<lparr>pk_data := (pk_data p)[3 := pk_data (fst (incrementCC p)) ! 3]\<rparr> \<and>
    adaptationFieldExist (fst (incrementCC p)) = (if adaptationFieldExist p = 1 then 1 else 3) \<and>
    scramblingControl (fst (incrementCC p)) = 0"
proof -
  have "cc p \<in> set (map word_of_nat [0..<16])"
  proof -
    have "unat (cc p) < 16"
      using and_mask_less' [of 4 "pk_data p ! 3"]
      by (simp add: cc_def mask_eq_exp_minus_1 word_less_nat_alt)
    then show ?thesis by (auto simp: image_iff intro!: bexI [of _ "unat (cc p)"])
  qed
  then have "cc p \<in> {0, 1, 2, 3, 4, 5, 6, 7, 8, 9, 10, 11, 12, 13, 14, 15}"
    by (simp add: upt_rec)
  then show ?thesis
    using assms
    by (elim insertE emptyE)
       (simp_all add: incrementCC_def Let_def wf_packet_def cc_def [of "_\<lparr>pk_data := _\<rparr>"]
          adaptationFieldExist_def [of "_\<lparr>pk_data := _\<rparr>"]
          scramblingControl_def [of "_\<lparr>pk_data := _\<rparr>"]
          continuity_value_def continuity_value_adaptation_def)
qed

subsection \<open>Payload\<close>

text \<open>
  The payload pointer of every packet is defined: \<open>data_byte\<close> is at most 184 and
  \<open>getData\<close> points at the last \<open>data_byte\<close> bytes of the packet. With payload only it skips the
  four header bytes; with an adaptation field of a legal length it skips the header, the length
  byte and the field itself.
\<close>

lemma getData_geometry:
  assumes "wf_packet p"
  shows "\<exists>b bs. data_byte p = Some b \<and> b \<le> 184 \<and> getData p = Some (Some bs) \<and>
    length bs = unat b \<and> bs = drop (188 - unat b) (pk_data p) \<and>
    (adaptationFieldExist p = 1 \<longrightarrow> bs = drop 4 (pk_data p)) \<and>
    (adaptationFieldExist p = 3 \<and> pk_data p ! 4 \<le> 182 \<longrightarrow>
       bs = drop (5 + unat (pk_data p ! 4)) (pk_data p))"
proof (intro exI conjI impI)
  let ?b = "word_of_nat (payload_size p) :: u8" and ?bs = "drop (payload_start p) (pk_data p)"
  have b: "unat ?b = payload_size p"
    using payload_size_le [of p] by simp
  show "data_byte p = Some ?b" by (rule data_byte_wf [OF assms])
  show "?b \<le> 184" using b payload_size_le [of p] by (simp add: word_le_nat_alt)
  show "getData p = Some (Some ?bs)" by (rule getData_wf [OF assms])
  show "length ?bs = unat ?b" using payload_length [OF assms] b by simp
  show "?bs = drop (188 - unat ?b) (pk_data p)" by (simp only: b payload_start_def)
  show "?bs = drop 4 (pk_data p)" if "adaptationFieldExist p = 1"
    using that by (simp add: payload_start_def payload_size_def)
  show "?bs = drop (5 + unat (pk_data p ! 4)) (pk_data p)"
    if "adaptationFieldExist p = 3 \<and> pk_data p ! 4 \<le> 182"
  proof -
    have "unat (pk_data p ! 4) \<le> 182" using that by (simp add: word_le_nat_alt)
    then show ?thesis using that by (simp add: payload_start_def payload_size_def Let_def)
  qed
qed

text \<open>
  Writing a payload and reading it back is the identity: \<open>setPayload\<close> with at least
  \<open>data_byte\<close> bytes replaces the payload, keeps every byte before it, and \<open>getPayload\<close> then
  returns exactly those bytes and their number.
\<close>

lemma payload_roundtrip:
  assumes "wf_packet p" and "length src = payload_size p" and "length out = payload_size p"
    and "int (payload_size p) \<le> len"
  shows "\<exists>q. setPayload p src len = Some q \<and> wf_packet q \<and>
    take (payload_start p) (pk_data q) = take (payload_start p) (pk_data p) \<and>
    getPayload q out len = Some (src, int (payload_size p))"
proof -
  let ?q = "p\<lparr>pk_data := take (payload_start p) (pk_data p) @ src\<rparr>"
  have len: "length (pk_data p) = 188" using assms(1) by (simp add: wf_packet_def)
  have sum: "payload_start p + payload_size p = 188" by (rule payload_start_size)
  have k: "payload_size p = min (payload_size p) (nat len)" using assms(4) by simp
  have set: "setPayload p src len = Some ?q"
    using setPayload_wf [OF assms(1) k] assms(2) len sum by simp
  have wf: "wf_packet ?q" using len sum assms(2) by (simp add: wf_packet_def)
  have hdr: "take (payload_start p) (pk_data ?q) = take (payload_start p) (pk_data p)"
    using len sum by simp
  then have size: "payload_size ?q = payload_size p" by (rule payload_size_prefix)
  then have start: "payload_start ?q = payload_start p" by (simp add: payload_start_def)
  have "getPayload ?q out len = Some (src, int (payload_size p))"
    using getPayload_wf [OF wf, of "payload_size p" len out] assms k len sum
    by (simp add: size start)
  with set wf hdr show ?thesis by blast
qed

text \<open>
  \<open>serialize\<close> after \<open>parse\<close> gives back the 188 bytes that were parsed, whatever the
  packet held before, and leaves the rest of the caller's buffer alone.
\<close>

lemma serialize_parse:
  assumes "wf_packet p" and "188 \<le> length d" and "188 \<le> length out" and "188 \<le> len"
  shows "\<exists>q. packet_parse p d = Some q \<and> wf_packet q \<and> packet_length q = 188 \<and>
    packet_serialize q out len = Some (take 188 d @ drop 188 out)"
proof -
  let ?q = "\<lparr>pk_pos = 188, pk_data = take 188 d\<rparr>"
  have "copy_out (take 188 d) 0 len out = Some (take 0 out @ take 188 (take 188 d) @ drop (0 + 188) out)"
    using assms by (intro copy_out_closed) (auto simp: min_def)
  then show ?thesis
    using assms
    by (simp add: packet_parse_eq packet_serialize_def wf_packet_def packet_length_def min_def)
qed

end
