(* ===== verification/TS_Parser.thy ===== *)
theory TS_Parser
  imports Transport_Packet
begin

text \<open>
  \<open>lcss::TSParser\<close> (\<open>tsprsr.cpp\<close>): cuts a byte stream, handed over in chunks, into transport
  packets and passes each to the virtual function \<open>onPacket\<close>. The client's \<open>onPacket\<close> is the
  parameter \<open>f\<close> of the operations, a function on the client's own state; \<^const>\<open>None\<close> is a client
  whose handler has no defined result.

  \<open>i\<close>, \<open>h\<close> and \<open>len\<close> are \<open>uint32_t\<close> as in the code, with its wrap-around. The scanning loop is a
  \<^theory_text>\<open>partial_function\<close>, because with a packet size below 188 its index can go backwards:
  \<^const>\<open>None\<close> is a read out of range, a failing handler, or a loop that does not end.
\<close>

record ts_parser =
  tspckt :: ts_packet
  count :: u64
  packetSize :: u32
  buffer :: bytes

definition new_parser :: ts_parser where
  "new_parser = \<lparr>tspckt = new_packet, count = 0, packetSize = 188, buffer = []\<rparr>"

definition setPacketSize :: "ts_parser \<Rightarrow> u32 \<Rightarrow> ts_parser" where
  "setPacketSize p sz = p\<lparr>packetSize := sz\<rparr>"

definition packetCount :: "ts_parser \<Rightarrow> u64" where
  "packetCount p = count p"

text \<open>The base class's \<open>onPacket\<close> does nothing.\<close>

definition onPacket_default :: "'c \<Rightarrow> ts_packet \<Rightarrow> 'c option" where
  "onPacket_default c pckt = Some c"

text \<open>\<open>while (_buffer.size() < TS_SIZE) _buffer.push_back(stream[i++]);\<close>: no check against \<open>len\<close>.\<close>

function fill_buffer :: "bytes \<Rightarrow> u32 \<Rightarrow> bytes \<Rightarrow> (u32 \<times> bytes) option" where
  "fill_buffer stream i buf =
     (if length buf < TS_SIZE
      then do { b \<leftarrow> rd stream (unat i); fill_buffer stream (i + 1) (buf @ [b]) }
      else Some (i, buf))"
  by pat_completeness auto
termination
  by (relation "measure (\<lambda>(stream, i, buf). TS_SIZE - length buf)") auto

declare fill_buffer.simps [simp del]

text \<open>\<open>while (i < len) _buffer.push_back(stream[i++]);\<close>\<close>

function push_rest :: "bytes \<Rightarrow> u32 \<Rightarrow> u32 \<Rightarrow> bytes \<Rightarrow> (u32 \<times> bytes) option" where
  "push_rest stream i len buf =
     (if i < len
      then do { b \<leftarrow> rd stream (unat i); push_rest stream (i + 1) len (buf @ [b]) }
      else Some (i, buf))"
  by pat_completeness auto
termination
proof (relation "measure (\<lambda>(stream, i, len, buf). unat len - unat i)")
  fix stream :: bytes and i len :: u32 and buf :: bytes and b :: u8
  assume "i < len"
  then have "unat (i + 1) = unat i + 1" "unat i < unat len"
    by (simp_all add: unat_inc word_less_nat_alt)
  then show "((stream, i + 1, len, buf @ [b]), (stream, i, len, buf))
      \<in> measure (\<lambda>(stream, i, len, buf). unat len - unat i)"
    by simp
qed simp

declare push_rest.simps [simp del]

text \<open>Parse the buffered packet, hand it to the client, start over with an empty packet and buffer.\<close>

definition deliver ::
  "('c \<Rightarrow> ts_packet \<Rightarrow> 'c option) \<Rightarrow> ts_parser \<Rightarrow> bytes \<Rightarrow> 'c \<Rightarrow> (ts_parser \<times> 'c) option" where
  "deliver f p buf c = do {
     pk \<leftarrow> packet_parse (tspckt p) buf;
     c' \<leftarrow> f c pk;
     Some (p\<lparr>tspckt := new_packet, count := count p + 1, buffer := []\<rparr>, c') }"

partial_function (option) parse_loop ::
  "('c \<Rightarrow> ts_packet \<Rightarrow> 'c option) \<Rightarrow> bytes \<Rightarrow> u32 \<Rightarrow> bool \<Rightarrow> u32 \<Rightarrow> u32 \<Rightarrow> bool \<Rightarrow> ts_parser \<Rightarrow> 'c \<Rightarrow>
   (u32 \<times> u32 \<times> bool \<times> ts_parser \<times> 'c) option" where
  "parse_loop f stream len strict i h result p c =
     (if i < len then do {
        b \<leftarrow> rd stream (unat i);
        if b \<noteq> 0x47 then
          parse_loop f stream len strict
            (if packetSize p \<noteq> 188 then i + (packetSize p - 188) else i + 1) h result p c
        else if i + 188 \<le> len then do {
          let result' = (if strict \<and> h \<noteq> 0 \<and> h \<noteq> i \<and> i - h \<noteq> packetSize p then False else result);
          let h' = (if strict then i else h);
          (i', buf) \<leftarrow> (if buffer p = []
             then do { bs \<leftarrow> rd_n stream (unat i) TS_SIZE; Some (i + 188, bs) }
             else Some (i, buffer p));
          (p', c') \<leftarrow> deliver f p buf c;
          parse_loop f stream len strict i' h' result' p' c'
        }
        else do {
          (i', buf) \<leftarrow> push_rest stream i len (buffer p);
          parse_loop f stream len strict i' h result (p\<lparr>buffer := buf\<rparr>) c
        }
      } else Some (i, h, result, p, c))"

definition parse ::
  "('c \<Rightarrow> ts_packet \<Rightarrow> 'c option) \<Rightarrow> bytes \<Rightarrow> u32 \<Rightarrow> bool \<Rightarrow> ts_parser \<Rightarrow> 'c \<Rightarrow>
   (bool \<times> ts_parser \<times> 'c) option" where
  "parse f stream len strict p c = do {
     (i, buf) \<leftarrow> (if 0 < length (buffer p) \<and> length (buffer p) \<noteq> TS_SIZE
        then fill_buffer stream 0 (buffer p) else Some (0, buffer p));
     (i', h, result, p', c') \<leftarrow> parse_loop f stream len strict i 0 True (p\<lparr>buffer := buf\<rparr>) c;
     Some (if strict \<and> buffer p' = [] \<and> i' - h \<noteq> packetSize p' then False else result, p', c') }"

section \<open>The loops in closed form\<close>

lemma word_of_nat_less_iff32:
  "k < 2 ^ 32 \<Longrightarrow> n < 2 ^ 32 \<Longrightarrow> (word_of_nat k :: u32) < word_of_nat n \<longleftrightarrow> k < n"
  by (simp add: word_less_nat_alt)

lemma word_of_nat_le_iff32:
  "k < 2 ^ 32 \<Longrightarrow> n < 2 ^ 32 \<Longrightarrow> (word_of_nat k :: u32) \<le> word_of_nat n \<longleftrightarrow> k \<le> n"
  by (simp add: word_le_nat_alt)

lemma word_of_nat_plus_numeral: "(word_of_nat k :: u32) + 188 = word_of_nat (k + 188)"
  by simp

lemma fill_buffer_eq:
  "length buf + m = 188 \<Longrightarrow> k + m \<le> length s \<Longrightarrow> k + m < 2 ^ 32 \<Longrightarrow>
   fill_buffer s (word_of_nat k) buf = Some (word_of_nat (k + m), buf @ take m (drop k s))"
proof (induction m arbitrary: k buf)
  case 0
  then show ?case by (subst fill_buffer.simps) (simp add: TS_SIZE_def)
next
  case (Suc m)
  have k: "k < length s" and w: "unat (word_of_nat k :: u32) = k"
    using Suc.prems by simp_all
  have "fill_buffer s (word_of_nat k) buf = fill_buffer s (word_of_nat (Suc k)) (buf @ [s ! k])"
    using Suc.prems k by (subst fill_buffer.simps) (simp add: TS_SIZE_def w rd_in add.commute)
  also have "\<dots> = Some (word_of_nat (Suc k + m), (buf @ [s ! k]) @ take m (drop (Suc k) s))"
    using Suc.prems by (intro Suc.IH) simp_all
  also have "(buf @ [s ! k]) @ take m (drop (Suc k) s) = buf @ take (Suc m) (drop k s)"
    using k by (simp add: Cons_nth_drop_Suc [symmetric])
  finally show ?case by simp
qed

lemma push_rest_eq:
  "k \<le> n \<Longrightarrow> n \<le> length s \<Longrightarrow> n < 2 ^ 32 \<Longrightarrow>
   push_rest s (word_of_nat k) (word_of_nat n) buf = Some (word_of_nat n, buf @ drop k (take n s))"
proof (induction "n - k" arbitrary: k buf)
  case 0
  then show ?case by (subst push_rest.simps) simp
next
  case (Suc m)
  have k: "k < n" and w: "unat (word_of_nat k :: u32) = k"
    using Suc.hyps(2) Suc.prems by simp_all
  have "push_rest s (word_of_nat k) (word_of_nat n) buf
      = push_rest s (word_of_nat (Suc k)) (word_of_nat n) (buf @ [s ! k])"
    using Suc.prems k by (subst push_rest.simps)
      (simp add: word_of_nat_less_iff32 w rd_in add.commute)
  also have "\<dots> = Some (word_of_nat n, (buf @ [s ! k]) @ drop (Suc k) (take n s))"
    using Suc.prems Suc.hyps(2) by (intro Suc.hyps(1)) simp_all
  also have "(buf @ [s ! k]) @ drop (Suc k) (take n s) = buf @ drop k (take n s)"
    using k Suc.prems Cons_nth_drop_Suc [of k "take n s"] by simp
  finally show ?case .
qed

section \<open>Packets and what a client receives\<close>

text \<open>A transport packet on the wire: 188 bytes that start with the sync byte.\<close>

definition is_ts :: "bytes \<Rightarrow> bool" where
  "is_ts b \<longleftrightarrow> length b = 188 \<and> hd b = 0x47"

primrec feed :: "('c \<Rightarrow> ts_packet \<Rightarrow> 'c option) \<Rightarrow> bytes list \<Rightarrow> 'c \<Rightarrow> 'c option" where
  "feed f [] c = Some c"
| "feed f (b # bs) c = do { c' \<leftarrow> f c (pkt b); feed f bs c' }"

lemma feed_append: "feed f (bs @ ds) c = do { c' \<leftarrow> feed f bs c; feed f ds c' }"
  by (induction bs arbitrary: c) (auto split: bind_splits)

lemma deliver_eq:
  "wf_packet (tspckt p) \<Longrightarrow> 188 \<le> length b \<Longrightarrow>
   deliver f p b c = do { c' \<leftarrow> f c (pkt (take 188 b));
     Some (p\<lparr>tspckt := new_packet, count := count p + 1, buffer := []\<rparr>, c') }"
  by (simp add: deliver_def packet_parse_eq pkt_def)

text \<open>A parser with the default packet size between two packets.\<close>

definition std_parser :: "u64 \<Rightarrow> bytes \<Rightarrow> ts_parser" where
  "std_parser k b = \<lparr>tspckt = new_packet, count = k, packetSize = 188, buffer = b\<rparr>"

lemma std_parser_simps [simp]:
  "tspckt (std_parser k b) = new_packet" "count (std_parser k b) = k"
  "packetSize (std_parser k b) = 188" "buffer (std_parser k b) = b"
  "(std_parser k b)\<lparr>buffer := b'\<rparr> = std_parser k b'"
  by (simp_all add: std_parser_def)

lemma new_parser_std: "new_parser = std_parser 0 []"
  by (simp add: new_parser_def std_parser_def)

lemma deliver_std:
  "188 \<le> length b \<Longrightarrow> deliver f (std_parser k b') b c =
     do { c' \<leftarrow> f c (pkt (take 188 b)); Some (std_parser (k + 1) [], c') }"
  by (simp add: deliver_eq) (simp add: std_parser_def)

section \<open>One turn of the scanning loop\<close>

lemma parse_loop_done:
  "\<not> i < len \<Longrightarrow> parse_loop f s len st i h r p c = Some (i, h, r, p, c)"
  by (subst parse_loop.simps) simp

lemma parse_loop_skip:
  "i < len \<Longrightarrow> rd s (unat i) = Some b \<Longrightarrow> b \<noteq> 0x47 \<Longrightarrow>
   parse_loop f s len st i h r p c =
   parse_loop f s len st (if packetSize p \<noteq> 188 then i + (packetSize p - 188) else i + 1) h r p c"
  by (subst parse_loop.simps) simp

lemma parse_loop_packet:
  "i < len \<Longrightarrow> rd s (unat i) = Some 0x47 \<Longrightarrow> i + 188 \<le> len \<Longrightarrow> buffer p = [] \<Longrightarrow>
   rd_n s (unat i) 188 = Some bs \<Longrightarrow>
   parse_loop f s len st i h r p c =
     do { (p', c') \<leftarrow> deliver f p bs c;
          parse_loop f s len st (i + 188) (if st then i else h)
            (if st \<and> h \<noteq> 0 \<and> h \<noteq> i \<and> i - h \<noteq> packetSize p then False else r) p' c' }"
  by (subst parse_loop.simps) (simp add: TS_SIZE_def)

lemma parse_loop_buffered:
  "i < len \<Longrightarrow> rd s (unat i) = Some 0x47 \<Longrightarrow> i + 188 \<le> len \<Longrightarrow> buffer p \<noteq> [] \<Longrightarrow>
   parse_loop f s len st i h r p c =
     do { (p', c') \<leftarrow> deliver f p (buffer p) c;
          parse_loop f s len st i (if st then i else h)
            (if st \<and> h \<noteq> 0 \<and> h \<noteq> i \<and> i - h \<noteq> packetSize p then False else r) p' c' }"
  by (subst parse_loop.simps) simp

lemma parse_loop_tail:
  "i < len \<Longrightarrow> rd s (unat i) = Some 0x47 \<Longrightarrow> \<not> i + 188 \<le> len \<Longrightarrow>
   push_rest s i len (buffer p) = Some (i', b) \<Longrightarrow>
   parse_loop f s len st i h r p c = parse_loop f s len st i' h r (p\<lparr>buffer := b\<rparr>) c"
  by (subst parse_loop.simps) simp

section \<open>Aligned input\<close>

lemma drop_take_Cons:
  assumes "drop k (take n s) = b @ xs" and "length b = m" and "n \<le> length s"
  shows "k + m \<le> max k n" "0 < m \<Longrightarrow> s ! k = hd b" "m \<noteq> 0 \<Longrightarrow> rd_n s k m = Some b"
    "drop (k + m) (take n s) = xs"
proof -
  have "length (drop k (take n s)) = m + length xs" using assms by simp
  then have len: "n - k = m + length xs" using assms(3) by simp
  then show "k + m \<le> max k n" by linarith
  show "s ! k = hd b" if "0 < m"
  proof -
    have "drop k (take n s) ! 0 = (b @ xs) ! 0" by (simp only: assms(1))
    then show ?thesis using that len assms(2,3) by (cases b) auto
  qed
  show "rd_n s k m = Some b" if "m \<noteq> 0"
  proof -
    have "take m (drop k (take n s)) = b" using assms(1,2) by simp
    then have "take m (drop k s) = b" using len by (simp add: drop_take min_def)
    then show ?thesis using len that assms(3) by (simp add: rd_n_def)
  qed
  have "drop m (drop k (take n s)) = xs" using assms(1,2) by simp
  then show "drop (k + m) (take n s) = xs" by (simp add: add.commute)
qed

lemma parse_loop_aligned:
  "list_all is_ts ps \<Longrightarrow> drop k (take n s) = concat ps @ r \<Longrightarrow> n \<le> length s \<Longrightarrow> n + 188 < 2 ^ 32 \<Longrightarrow>
   (st \<Longrightarrow> h = 0 \<or> h = word_of_nat k \<or> word_of_nat k - h = 188) \<Longrightarrow>
   parse_loop f s (word_of_nat n) st (word_of_nat k) h res (std_parser cnt []) c =
     do { c' \<leftarrow> feed f ps c;
          parse_loop f s (word_of_nat n) st (word_of_nat (k + 188 * length ps))
            (if st \<and> ps \<noteq> [] then word_of_nat (k + 188 * (length ps - 1)) else h) res
            (std_parser (cnt + word_of_nat (length ps)) []) c' }"
proof (induction ps arbitrary: k h cnt c)
  case Nil
  then show ?case by simp
next
  case (Cons b ps)
  have b: "length b = 188" "hd b = 0x47" using Cons.prems(1) by (simp_all add: is_ts_def)
  have split: "drop k (take n s) = b @ (concat ps @ r)" using Cons.prems(2) by simp
  note at = drop_take_Cons [OF split b(1) Cons.prems(3)]
  have k: "k + 188 \<le> n" using at(1) split b(1) by (auto simp: max_def split: if_splits)
  have w: "unat (word_of_nat k :: u32) = k" using k Cons.prems(4) by simp
  have rd: "rd s k = Some 0x47" using at(2) b k Cons.prems(3) by (simp add: rd_def)
  have le: "(word_of_nat k :: u32) + 188 \<le> word_of_nat n"
    using k Cons.prems(4) by (simp add: word_of_nat_plus_numeral word_of_nat_le_iff32 del: of_nat_add)
  define h' where "h' = (if st then word_of_nat k else h)"
  have "parse_loop f s (word_of_nat n) st (word_of_nat k) h res (std_parser cnt []) c
    = do { (p', c') \<leftarrow> deliver f (std_parser cnt []) b c;
          parse_loop f s (word_of_nat n) st (word_of_nat (k + 188)) h' res p' c' }"
    using Cons.prems k w rd at(3) le
    by (subst parse_loop_packet [where bs = b])
       (auto simp: word_of_nat_less_iff32 h'_def simp flip: word_of_nat_plus_numeral)
  also have "\<dots> = do { c' \<leftarrow> f c (pkt b);
          parse_loop f s (word_of_nat n) st (word_of_nat (k + 188)) h' res (std_parser (cnt + 1) []) c' }"
    using b by (simp add: deliver_std)
  also have "\<dots> = do { c' \<leftarrow> f c (pkt b); c'' \<leftarrow> feed f ps c';
          parse_loop f s (word_of_nat n) st (word_of_nat (k + 188 + 188 * length ps))
            (if st \<and> ps \<noteq> [] then word_of_nat (k + 188 + 188 * (length ps - 1)) else h') res
            (std_parser (cnt + 1 + word_of_nat (length ps)) []) c'' }"
    using Cons.prems at(4) by (subst Cons.IH) (auto simp: h'_def)
  also have "\<dots> = do { c' \<leftarrow> feed f (b # ps) c;
          parse_loop f s (word_of_nat n) st (word_of_nat (k + 188 * length (b # ps)))
            (if st \<and> b # ps \<noteq> [] then word_of_nat (k + 188 * (length (b # ps) - 1)) else h) res
            (std_parser (cnt + word_of_nat (length (b # ps))) []) c' }"
    by (cases ps) (simp_all add: h'_def algebra_simps)
  finally show ?case .
qed

lemma parse_loop_rest:
  assumes "drop k (take n s) = r" and "length r < 188" and "r \<noteq> [] \<Longrightarrow> hd r = 0x47" and "k \<le> n"
    and "n \<le> length s" and "n + 188 < 2 ^ 32"
  shows "parse_loop f s (word_of_nat n) st (word_of_nat k) h res (std_parser cnt []) c =
    Some (word_of_nat n, h, res, std_parser cnt r, c)"
proof (cases "r = []")
  case True
  then have "k = n" using assms by simp
  then show ?thesis using True by (simp add: parse_loop_done)
next
  case False
  have len: "n - k = length r" using assms(1,5) by auto
  then have k: "k < n" using False by (cases r) auto
  have "s ! k = hd r" using assms(1,5) k by (metis drop_take hd_drop_conv_nth hd_take le_trans
      less_le_not_le nat_le_linear zero_less_diff)
  then have rd: "rd s k = Some 0x47" using assms(3,5) False k by (simp add: rd_def)
  have n: "\<not> k + 188 \<le> n" using len assms(2) k by linarith
  have w: "unat (word_of_nat k :: u32) = k" using k assms(6) by simp
  have i: "\<not> (word_of_nat k :: u32) + 188 \<le> word_of_nat n"
    using k n assms(6) by (simp add: word_of_nat_plus_numeral word_of_nat_le_iff32 del: of_nat_add)
  have push: "push_rest s (word_of_nat k) (word_of_nat n) [] = Some (word_of_nat n, r)"
    using assms k by (subst push_rest_eq) auto
  have "parse_loop f s (word_of_nat n) st (word_of_nat k) h res (std_parser cnt []) c
    = parse_loop f s (word_of_nat n) st (word_of_nat n) h res (std_parser cnt r) c"
    using k rd i w assms(6) push
    by (subst parse_loop_tail) (auto simp: word_of_nat_less_iff32)
  then show ?thesis by (simp add: parse_loop_done)
qed

lemma parse_loop_all:
  assumes "list_all is_ts ps" and "drop k (take n s) = concat ps @ r" and "n \<le> length s"
    and "n + 188 < 2 ^ 32" and "st \<Longrightarrow> h = 0 \<or> h = word_of_nat k \<or> word_of_nat k - h = 188"
    and "length r < 188" and "r \<noteq> [] \<Longrightarrow> hd r = 0x47" and "k \<le> n"
  shows "parse_loop f s (word_of_nat n) st (word_of_nat k) h res (std_parser cnt []) c =
    do { c' \<leftarrow> feed f ps c;
         Some (word_of_nat n, if st \<and> ps \<noteq> [] then word_of_nat (k + 188 * (length ps - 1)) else h, res,
               std_parser (cnt + word_of_nat (length ps)) r, c') }"
proof -
  have lens: "length (concat ps) = 188 * length ps"
    using assms(1) by (induction ps) (auto simp: is_ts_def)
  have "length (drop k (take n s)) = 188 * length ps + length r" using assms(2) lens by simp
  then have n: "k + 188 * length ps + length r = n" using assms(3,8) by simp
  have "drop (188 * length ps) (drop k (take n s)) = r" using assms(2) lens by simp
  then have r: "drop (k + 188 * length ps) (take n s) = r" by (simp add: add.commute)
  have "parse_loop f s (word_of_nat n) st (word_of_nat (k + 188 * length ps)) h' res (std_parser j []) c'
      = Some (word_of_nat n, h', res, std_parser j r, c')" for h' j c'
    using n by (intro parse_loop_rest [OF r]) (use assms in simp_all)
  note rest = this
  show ?thesis by (simp only: parse_loop_aligned [OF assms(1-5)] rest)
qed

lemma length_concat_is_ts: "list_all is_ts ps \<Longrightarrow> length (concat ps) = 188 * length ps"
  by (induction ps) (auto simp: is_ts_def)

text \<open>
  One call of \<open>parse\<close> on a chunk of an aligned stream. \<open>buf\<close> is what the previous calls left over;
  when there is a leftover, the chunk must complete that packet and hold at least one more.
\<close>

lemma parse_chunk:
  assumes ps: "list_all is_ts ps" and split: "buf @ take n s = concat ps @ r" and n: "n \<le> length s"
    and bound: "n + 188 < 2 ^ 32" and r: "length r < 188" "r \<noteq> [] \<Longrightarrow> hd r = 0x47"
    and buf: "length buf < 188" "buf \<noteq> [] \<Longrightarrow> 2 \<le> length ps" and st: "st \<Longrightarrow> 0 < n"
  shows "parse f s (word_of_nat n) st (std_parser cnt buf) c =
    do { c' \<leftarrow> feed f ps c; Some (True, std_parser (cnt + word_of_nat (length ps)) r, c') }"
proof (cases "buf = []")
  case True
  then have 0: "drop 0 (take n s) = concat ps @ r" using split by simp
  have "length (take n s) = 188 * length ps + length r"
    using split True length_concat_is_ts [OF ps] by simp
  then have len: "n = 188 * length ps + length r" using n by simp
  have h: "word_of_nat n - word_of_nat (188 * (length ps - 1)) = (188 :: u32)" if "r = []" "ps \<noteq> []"
    using that len by (cases ps) (simp_all add: algebra_simps)
  have "parse_loop f s (word_of_nat n) st (word_of_nat 0) 0 True (std_parser cnt []) c =
      do { c' \<leftarrow> feed f ps c;
           Some (word_of_nat n, if st \<and> ps \<noteq> [] then word_of_nat (0 + 188 * (length ps - 1)) else 0,
                 True, std_parser (cnt + word_of_nat (length ps)) r, c') }"
    by (rule parse_loop_all [OF ps 0 n bound _ r]) simp_all
  then have all: "parse_loop f s (word_of_nat n) st 0 0 True (std_parser cnt []) c =
      do { c' \<leftarrow> feed f ps c;
           Some (word_of_nat n, if st \<and> ps \<noteq> [] then word_of_nat (188 * (length ps - 1)) else 0,
                 True, std_parser (cnt + word_of_nat (length ps)) r, c') }"
    by (simp only: semiring_1_class.of_nat_0 add_0)
  have "ps \<noteq> []" if "st" "r = []" using st that len by auto
  then show ?thesis
    using True h by (cases "feed f ps c") (auto simp: parse_def all simp del: of_nat_mult)
next
  case False
  obtain b1 b2 ps' where ps_eq: "ps = b1 # b2 # ps'"
    using buf(2) [OF False] by (metis Suc_le_length_iff numeral_2_eq_2)
  have b: "length b1 = 188" "length b2 = 188" "hd b2 = 0x47" "list_all is_ts (b2 # ps')"
    using ps by (simp_all add: ps_eq is_ts_def)
  define m where "m = 188 - length buf"
  have m: "length buf + m = 188" "0 < m" using buf(1) by (simp_all add: m_def)
  have "take 188 (buf @ take n s) = b1" using split b(1) by (simp add: ps_eq)
  then have b1: "buf @ take m (take n s) = b1" using m(1) by (simp add: m_def)
  have "drop 188 (buf @ take n s) = concat (b2 # ps') @ r" using split b(1) by (simp add: ps_eq)
  then have rest: "drop m (take n s) = concat (b2 # ps') @ r" using m(1) by (simp add: m_def)
  then have rest': "drop m (take n s) = b2 @ (concat ps' @ r)" by simp
  note at = drop_take_Cons [OF rest' b(2) n]
  have mn: "m + 188 \<le> n" using at(1) rest' b(2) by (auto simp: max_def split: if_splits)
  have b1': "buf @ take m s = b1" using b1 mn by (simp add: min_def)
  have fill: "fill_buffer s 0 buf = Some (word_of_nat m, b1)"
    using fill_buffer_eq [of buf m 0 s] m mn n bound b1' by simp
  have w: "unat (word_of_nat m :: u32) = m" and i: "(word_of_nat m :: u32) < word_of_nat n"
    and le: "(word_of_nat m :: u32) + 188 \<le> word_of_nat n"
    using mn bound
    by (simp_all add: word_of_nat_less_iff32 word_of_nat_plus_numeral word_of_nat_le_iff32 del: of_nat_add)
  have rd: "rd s m = Some 0x47" using at(2) b mn n by (simp add: rd_def)
  have "b1 \<noteq> []" using b(1) by auto
  then have loop: "parse_loop f s (word_of_nat n) st (word_of_nat m) 0 True (std_parser cnt b1) c =
      do { c' \<leftarrow> f c (pkt b1);
           parse_loop f s (word_of_nat n) st (word_of_nat m) (if st then word_of_nat m else 0) True
             (std_parser (cnt + 1) []) c' }"
    using i rd w le b(1) by (subst parse_loop_buffered) (simp_all add: deliver_std)
  have "length (drop m (take n s)) = 188 * length (b2 # ps') + length r"
    using rest length_concat_is_ts [OF b(4)] by simp
  then have len: "n = m + 188 * length (b2 # ps') + length r" using n mn by simp
  have h: "word_of_nat n - word_of_nat (m + 188 * length ps') = (188 :: u32)" if "r = []"
    using that len by (simp add: algebra_simps)
  have all: "parse_loop f s (word_of_nat n) st (word_of_nat m) (if st then word_of_nat m else 0) True
        (std_parser (cnt + 1) []) c' =
      do { c'' \<leftarrow> feed f (b2 # ps') c';
           Some (word_of_nat n, if st then word_of_nat (m + 188 * length ps') else 0, True,
                 std_parser (cnt + 1 + word_of_nat (length (b2 # ps'))) r, c'') }" for c'
    using mn by (subst parse_loop_all [OF b(4) rest n bound _ r]) auto
  show ?thesis
    using False buf(1) fill h
    by (cases "f c (pkt b1)") (auto simp: parse_def TS_SIZE_def loop all ps_eq add.assoc
        simp del: of_nat_mult of_nat_add split: bind_splits)
qed

section \<open>A stream in chunks\<close>

text \<open>The client's loop: each buffer that was read is passed to \<open>parse\<close>; the results are collected.\<close>

fun parse_chunks ::
  "('c \<Rightarrow> ts_packet \<Rightarrow> 'c option) \<Rightarrow> bytes list \<Rightarrow> bool \<Rightarrow> ts_parser \<Rightarrow> 'c \<Rightarrow>
   (bool list \<times> ts_parser \<times> 'c) option" where
  "parse_chunks f [] st p c = Some ([], p, c)"
| "parse_chunks f (s # ss) st p c = do {
     (ok, p', c') \<leftarrow> parse f s (word_of_nat (length s)) st p c;
     (oks, p'', c'') \<leftarrow> parse_chunks f ss st p' c';
     Some (ok # oks, p'', c'') }"

lemma split_aligned:
  "list_all is_ts ps \<Longrightarrow> concat ps = T @ U \<Longrightarrow>
   \<exists>ps1 ps2 r. ps = ps1 @ ps2 \<and> T = concat ps1 @ r \<and> length r < 188 \<and> (r \<noteq> [] \<longrightarrow> hd r = 0x47) \<and>
     r @ U = concat ps2"
proof (induction ps arbitrary: T)
  case Nil
  then show ?case by auto
next
  case (Cons b ps)
  have b: "length b = 188" "hd b = 0x47" using Cons.prems(1) by (simp_all add: is_ts_def)
  show ?case
  proof (cases "length T < 188")
    case True
    have "hd T = 0x47" if "T \<noteq> []"
    proof -
      have "hd T = hd (concat (b # ps))" using that Cons.prems(2) by simp
      then show ?thesis using b by (cases b) auto
    qed
    then show ?thesis
      using True Cons.prems(2) by (intro exI [of _ "[]"] exI [of _ "b # ps"] exI [of _ T]) simp
  next
    case False
    have "take 188 (b @ concat ps) = take 188 (T @ U)" using Cons.prems(2) by simp
    then have "take 188 T = b" using b(1) False by simp
    then have T: "T = b @ drop 188 T" by (metis append_take_drop_id)
    then have "concat ps = drop 188 T @ U" using Cons.prems(2) b(1)
      by (metis append_assoc concat.simps(2) same_append_eq)
    then obtain ps1 ps2 r where "ps = ps1 @ ps2" "drop 188 T = concat ps1 @ r" "length r < 188"
      "r \<noteq> [] \<longrightarrow> hd r = 0x47" "r @ U = concat ps2"
      using Cons.IH [of "drop 188 T"] Cons.prems(1) by auto
    then show ?thesis
      using T by (intro exI [of _ "b # ps1"] exI [of _ ps2] exI [of _ r]) simp
  qed
qed

lemma parse_chunks_aligned:
  "list_all is_ts ps \<Longrightarrow> buf @ concat cs = concat ps \<Longrightarrow> length buf < 188 \<Longrightarrow>
   (\<And>s. s \<in> set cs \<Longrightarrow> 375 \<le> length s \<and> length s + 188 < 2 ^ 32) \<Longrightarrow>
   parse_chunks f cs st (std_parser k buf) c =
     do { c' \<leftarrow> feed f ps c;
          Some (replicate (length cs) True, std_parser (k + word_of_nat (length ps)) [], c') }"
proof (induction cs arbitrary: ps buf k c)
  case Nil
  then have "length (concat ps) < 188" by simp
  then have "ps = []" using length_concat_is_ts [OF Nil.prems(1)] by (cases ps) auto
  then show ?case using Nil.prems(2) by simp
next
  case (Cons s cs)
  have s: "375 \<le> length s" "length s + 188 < 2 ^ 32" using Cons.prems(4) [of s] by simp_all
  obtain ps1 ps2 r where eq: "ps = ps1 @ ps2" "buf @ s = concat ps1 @ r" "length r < 188"
    "r \<noteq> [] \<longrightarrow> hd r = 0x47" "r @ concat cs = concat ps2"
    using split_aligned [OF Cons.prems(1), of "buf @ s" "concat cs"] Cons.prems(2) by auto
  have ok: "list_all is_ts ps1" "list_all is_ts ps2" using Cons.prems(1) eq(1) by simp_all
  have "length buf + length s = 188 * length ps1 + length r"
    using arg_cong [OF eq(2), of length] length_concat_is_ts [OF ok(1)] by simp
  then have two: "2 \<le> length ps1" if "buf \<noteq> []"
    using that s(1) eq(3) by (cases buf) auto
  have "parse f s (word_of_nat (length s)) st (std_parser k buf) c =
      do { c' \<leftarrow> feed f ps1 c; Some (True, std_parser (k + word_of_nat (length ps1)) r, c') }"
    using eq s ok two Cons.prems(3) by (intro parse_chunk) auto
  moreover have "parse_chunks f cs st (std_parser (k + word_of_nat (length ps1)) r) c' =
      do { c'' \<leftarrow> feed f ps2 c';
           Some (replicate (length cs) True,
                 std_parser (k + word_of_nat (length ps1) + word_of_nat (length ps2)) [], c'') }" for c'
    using Cons.prems(4) by (intro Cons.IH [OF ok(2) eq(5) eq(3)]) simp
  ultimately show ?case
    by (simp add: eq(1) feed_append add.assoc)
qed

section \<open>Resynchronisation\<close>

lemma parse_loop_skips:
  "(\<And>j. k \<le> j \<Longrightarrow> j < k + m \<Longrightarrow> s ! j \<noteq> 0x47) \<Longrightarrow> packetSize p = 188 \<Longrightarrow> k + m \<le> n \<Longrightarrow> n \<le> length s \<Longrightarrow>
   n < 2 ^ 32 \<Longrightarrow>
   parse_loop f s (word_of_nat n) st (word_of_nat k) h r p c =
   parse_loop f s (word_of_nat n) st (word_of_nat (k + m)) h r p c"
proof (induction m arbitrary: k)
  case 0
  then show ?case by simp
next
  case (Suc m)
  have w: "unat (word_of_nat k :: u32) = k" and lt: "(word_of_nat k :: u32) < word_of_nat n"
    using Suc.prems by (simp_all add: word_of_nat_less_iff32)
  have "parse_loop f s (word_of_nat n) st (word_of_nat k) h r p c =
      parse_loop f s (word_of_nat n) st (word_of_nat (Suc k)) h r p c"
    using Suc.prems lt by (subst parse_loop_skip [where b = "s ! k"]) (simp_all add: w rd_in add.commute)
  also have "\<dots> = parse_loop f s (word_of_nat n) st (word_of_nat (Suc k + m)) h r p c"
    using Suc.prems by (intro Suc.IH) simp_all
  finally show ?case by simp
qed

section \<open>A chunk that ends inside the packet after the buffered one\<close>

text \<open>The buffer is filled up to 188 bytes, and then the start of the next packet is pushed behind them.\<close>

lemma parse_overfills:
  assumes b1: "length b1 = 188" and b2: "length b2 = 188" "hd b2 = 0x47" and x: "0 < x" "x < 188"
    and y: "0 < y" "y < 188" and s: "s = drop x b1 @ take y b2"
  shows "parse f s (word_of_nat (length s)) st (std_parser k (take x b1)) c =
    Some (True, std_parser k (b1 @ take y b2), c)"
proof -
  define m where "m = 188 - x"
  have m: "x + m = 188" "0 < m" using x by (simp_all add: m_def)
  have len: "length s = m + y" using b1 b2 x y by (simp add: s m_def)
  have fill: "fill_buffer s 0 (take x b1) = Some (word_of_nat m, b1)"
    using fill_buffer_eq [of "take x b1" m 0 s] b1 m len by (simp add: s)
  have rd: "rd s m = Some 0x47"
    using b1 b2 y len by (cases b2) (simp_all add: rd_def s nth_append take_Cons' m_def)
  have push: "push_rest s (word_of_nat m) (word_of_nat (length s)) b1 = Some (word_of_nat (length s), b1 @ take y b2)"
    using len m y b1 by (subst push_rest_eq) (simp_all add: s m_def)
  have i: "(word_of_nat m :: u32) < word_of_nat (length s)"
    "\<not> (word_of_nat m :: u32) + 188 \<le> word_of_nat (length s)"
    using m x y len
    by (simp_all add: word_of_nat_less_iff32 word_of_nat_plus_numeral word_of_nat_le_iff32 del: of_nat_add)
  have "unat (word_of_nat m :: u32) = m" using m x by simp
  then have "parse_loop f s (word_of_nat (length s)) st (word_of_nat m) 0 True (std_parser k b1) c =
      parse_loop f s (word_of_nat (length s)) st (word_of_nat (length s)) 0 True (std_parser k (b1 @ take y b2)) c"
    using i rd push by (subst parse_loop_tail) auto
  then have "parse_loop f s (word_of_nat (length s)) st (word_of_nat m) 0 True (std_parser k b1) c =
      Some (word_of_nat (length s), 0, True, std_parser k (b1 @ take y b2), c)"
    by (simp only: parse_loop_done [OF less_irrefl])
  then show ?thesis using x b1 b2 y fill by (auto simp: parse_def TS_SIZE_def)
qed

text \<open>The next call hands out the first 188 bytes of that buffer and drops the rest.\<close>

lemma parse_overfull:
  assumes b1: "length b1 = 188" and b3: "is_ts b3" and t: "0x47 \<notin> set t" "length t < 188"
    and u: "u \<noteq> []" and s: "s = t @ b3"
  shows "parse f s (word_of_nat (length s)) st (std_parser k (b1 @ u)) c =
    do { c' \<leftarrow> feed f [b1, b3] c; Some (True, std_parser (k + 2) [], c') }"
proof -
  define n where "n = length s"
  define m where "m = length t"
  have b3': "length b3 = 188" "hd b3 = 0x47" using b3 by (simp_all add: is_ts_def)
  have n: "n = m + 188" "n \<le> length s" "m < 188" using b3' t by (simp_all add: n_def s m_def)
  have fill: "fill_buffer s 0 (b1 @ u) = Some (0, b1 @ u)"
    using b1 by (subst fill_buffer.simps) (simp add: TS_SIZE_def)
  have skip: "parse_loop f s (word_of_nat n) st (word_of_nat 0) 0 True (std_parser k (b1 @ u)) c =
      parse_loop f s (word_of_nat n) st (word_of_nat (0 + m)) 0 True (std_parser k (b1 @ u)) c"
  proof (rule parse_loop_skips)
    fix j assume "j < 0 + m"
    then have "s ! j \<in> set t" by (simp add: s m_def nth_append)
    then show "s ! j \<noteq> 0x47" using t(1) by metis
  qed (use n in simp_all)
  have w: "unat (word_of_nat m :: u32) = m" and i: "(word_of_nat m :: u32) < word_of_nat n"
    and le: "(word_of_nat m :: u32) + 188 \<le> word_of_nat n"
    using n by (simp_all add: word_of_nat_less_iff32 word_of_nat_plus_numeral word_of_nat_le_iff32 del: of_nat_add)
  have rd: "rd s m = Some 0x47" using b3' by (cases b3) (simp_all add: rd_def s m_def nth_append)
  have first: "parse_loop f s (word_of_nat n) st (word_of_nat m) 0 True (std_parser k (b1 @ u)) c =
      do { c' \<leftarrow> f c (pkt b1);
           parse_loop f s (word_of_nat n) st (word_of_nat m) (if st then word_of_nat m else 0) True
             (std_parser (k + 1) []) c' }"
    using i rd w le b1 u by (subst parse_loop_buffered) (simp_all add: deliver_std)
  have second: "parse_loop f s (word_of_nat n) st (word_of_nat m) (if st then word_of_nat m else 0) True
        (std_parser (k + 1) []) c' =
      do { c'' \<leftarrow> feed f [b3] c';
           Some (word_of_nat n, if st then word_of_nat m else 0, True, std_parser (k + 2) [], c'') }" for c'
    using n b3 by (subst parse_loop_all [of "[b3]" m n s "[]"]) (auto simp: s m_def n_def add.commute)
  have h: "word_of_nat n - word_of_nat m = (188 :: u32)" by (simp add: n)
  show ?thesis
    using b1 u fill skip first second h unfolding n_def [symmetric]
    by (cases "f c (pkt b1)") (auto simp: parse_def TS_SIZE_def simp del: of_nat_add split: bind_splits)
qed

section \<open>The contract between the parser and its client\<close>

text \<open>What every call of \<open>onPacket\<close> is given, and what holds of the parser between two calls of \<open>parse\<close>.\<close>

definition ok_packet :: "ts_packet \<Rightarrow> bool" where
  "ok_packet pk \<longleftrightarrow> pk_pos pk = 188 \<and> is_ts (pk_data pk)"

definition parser_inv :: "ts_parser \<Rightarrow> bool" where
  "parser_inv p \<longleftrightarrow> wf_packet (tspckt p) \<and> (buffer p \<noteq> [] \<longrightarrow> hd (buffer p) = 0x47)"

definition loop_ready :: "u32 \<Rightarrow> u32 \<Rightarrow> ts_parser \<Rightarrow> bool" where
  "loop_ready i len p \<longleftrightarrow> (i < len \<longrightarrow> buffer p = [] \<or> 188 \<le> length (buffer p))"

text \<open>The step sizes the termination argument needs: an index below \<open>len\<close> moves up, without wrapping.\<close>

lemma skip_moves:
  assumes "(i :: u32) < len" and "188 \<le> sz" and "unat len + unat sz < 2 ^ 32"
  shows "unat i < unat (if sz \<noteq> 188 then i + (sz - 188) else i + 1)"
proof (cases "sz = 188")
  case True
  then show ?thesis using unat_inc [OF assms(1)] by simp
next
  case False
  have le: "188 \<le> unat sz" using assms(2) by (simp add: word_le_nat_alt)
  moreover have "unat sz \<noteq> 188" using False unsigned_word_eqI [of sz 188, where 'a = nat] by auto
  ultimately have sz: "188 < unat sz" by linarith
  have diff: "unat (sz - 188) = unat sz - 188" using assms(2) by (simp add: unat_sub)
  have "unat i < unat len" using assms(1) by (simp add: word_less_nat_alt)
  then have "unat (i + (sz - 188)) = unat i + unat (sz - 188)"
    using assms(3) diff by (simp add: unat_word_ariths)
  then show ?thesis using False sz diff by simp
qed

lemma unat_plus_188:
  "i < len \<Longrightarrow> unat (len :: u32) + 188 < 2 ^ 32 \<Longrightarrow> unat (i + 188) = unat i + 188"
  by (simp add: unat_word_ariths word_less_nat_alt)

locale packet_client =
  fixes f :: "'c \<Rightarrow> ts_packet \<Rightarrow> 'c option" and inv :: "'c \<Rightarrow> bool"
  assumes accepts: "inv c \<Longrightarrow> ok_packet pk \<Longrightarrow> \<exists>c'. f c pk = Some c' \<and> inv c'"
begin

lemma deliver_returns:
  assumes "parser_inv p" "188 \<le> length b" "hd b = 0x47" "inv c"
  obtains c' where "deliver f p b c = Some (p\<lparr>tspckt := new_packet, count := count p + 1, buffer := []\<rparr>, c')"
    and "inv c'"
proof -
  have "is_ts (take 188 b)" using assms(2,3) by (cases b) (simp_all add: is_ts_def)
  then obtain c' where "f c (pkt (take 188 b)) = Some c'" "inv c'"
    using accepts [OF assms(4), of "pkt (take 188 b)"] by (auto simp: ok_packet_def pkt_def)
  then show thesis using assms by (intro that [of c']) (simp_all add: deliver_eq parser_inv_def)
qed

lemma parse_loop_returns:
  "inv c \<Longrightarrow> parser_inv p \<Longrightarrow> loop_ready i len p \<Longrightarrow> unat len \<le> length s \<Longrightarrow>
   188 \<le> packetSize p \<Longrightarrow> unat len + unat (packetSize p) < 2 ^ 32 \<Longrightarrow>
   \<exists>i' h' r' p' c'. parse_loop f s len st i h r p c = Some (i', h', r', p', c') \<and>
     inv c' \<and> parser_inv p' \<and> packetSize p' = packetSize p"
proof (induction "2 * (unat len - unat i) + (if buffer p = [] then 0 else 1)" arbitrary: i h r p c
    rule: less_induct)
  case less
  show ?case
  proof (cases "i < len")
    case False
    then show ?thesis using less.prems by (auto simp: parse_loop_done)
  next
    case True
    then have i: "unat i < length s" "unat i < unat len" using less.prems(4) by (simp_all add: word_less_nat_alt)
    have rd: "rd s (unat i) = Some (s ! unat i)" using i by (simp add: rd_def)
    consider (skip) "s ! unat i \<noteq> 0x47" | (fresh) "s ! unat i = 0x47" "i + 188 \<le> len" "buffer p = []"
      | (buffered) "s ! unat i = 0x47" "i + 188 \<le> len" "buffer p \<noteq> []"
      | (rest) "s ! unat i = 0x47" "\<not> i + 188 \<le> len" by blast
    then show ?thesis
    proof cases
      case skip
      define i' where "i' = (if packetSize p \<noteq> 188 then i + (packetSize p - 188) else i + 1)"
      have "unat i < unat i'" unfolding i'_def by (rule skip_moves [OF True less.prems(5,6)])
      then have "2 * (unat len - unat i') + (if buffer p = [] then 0 else 1)
          < 2 * (unat len - unat i) + (if buffer p = [] then 0 else 1)"
        using i by auto
      moreover have "loop_ready i' len p" using less.prems(3) True by (simp add: loop_ready_def)
      ultimately show ?thesis
        using less.hyps [of i' p c h r] less.prems True rd skip by (simp add: parse_loop_skip i'_def)
    next
      case fresh
      define bs where "bs = take 188 (drop (unat i) s)"
      have up: "unat (i + 188) = unat i + 188" "unat i + 188 \<le> unat len"
        using fresh(2) unat_plus_188 [OF True] less.prems(5,6)
        by (simp_all add: word_le_nat_alt)
      have bs: "rd_n s (unat i) 188 = Some bs" "188 \<le> length bs" "hd bs = 0x47"
        using up less.prems(4) fresh(1) i by (simp_all add: rd_n_def bs_def hd_drop_conv_nth)
      obtain c' where c': "deliver f p bs c =
            Some (p\<lparr>tspckt := new_packet, count := count p + 1, buffer := []\<rparr>, c')" "inv c'"
        using deliver_returns [OF less.prems(2) bs(2,3) less.prems(1)] .
      show ?thesis
        using less.hyps [of "i + 188" "p\<lparr>tspckt := new_packet, count := count p + 1, buffer := []\<rparr>" c'
            "if st then i else h"] less.prems True rd fresh bs c' up
        by (simp add: parse_loop_packet parser_inv_def loop_ready_def)
    next
      case buffered
      have b: "188 \<le> length (buffer p)" "hd (buffer p) = 0x47"
        using less.prems(2,3) True buffered(3) by (simp_all add: parser_inv_def loop_ready_def)
      obtain c' where c': "deliver f p (buffer p) c =
            Some (p\<lparr>tspckt := new_packet, count := count p + 1, buffer := []\<rparr>, c')" "inv c'"
        using deliver_returns [OF less.prems(2) b less.prems(1)] .
      show ?thesis
        using less.hyps [of i "p\<lparr>tspckt := new_packet, count := count p + 1, buffer := []\<rparr>" c'
            "if st then i else h"] less.prems True rd buffered c'
        by (simp add: parse_loop_buffered parser_inv_def loop_ready_def)
    next
      case rest
      define t where "t = drop (unat i) (take (unat len) s)"
      have push: "push_rest s i len (buffer p) = Some (len, buffer p @ t)"
        using push_rest_eq [of "unat i" "unat len" s "buffer p"] i less.prems(4) unsigned_less [of len]
        by (simp add: t_def)
      have "hd (buffer p @ t) = 0x47"
        using rest(1) i less.prems(2) by (cases "buffer p") (simp_all add: parser_inv_def t_def hd_drop_conv_nth)
      then show ?thesis
        using True rd rest push less.prems by (simp add: parse_loop_tail parse_loop_done parser_inv_def)
    qed
  qed
qed

text \<open>
  With a packet size of at least 188 and a buffer that the chunk can fill up, one call of \<open>parse\<close>
  returns, whatever the bytes are: no read is out of range and the loop ends.
\<close>

lemma parse_returns:
  assumes "inv c" "parser_inv p" "unat len \<le> length s" "188 \<le> packetSize p"
    and "unat len + unat (packetSize p) < 2 ^ 32"
    and "buffer p = [] \<or> 188 \<le> length (buffer p) + unat len"
  shows "\<exists>ok p' c'. parse f s len st p c = Some (ok, p', c') \<and> inv c' \<and> parser_inv p' \<and>
    packetSize p' = packetSize p"
proof -
  have "\<exists>i buf. (if 0 < length (buffer p) \<and> length (buffer p) \<noteq> TS_SIZE
        then fill_buffer s 0 (buffer p) else Some (0, buffer p)) = Some (i, buf) \<and>
      parser_inv (p\<lparr>buffer := buf\<rparr>) \<and> loop_ready i len (p\<lparr>buffer := buf\<rparr>)"
  proof (cases "0 < length (buffer p) \<and> length (buffer p) < 188")
    case True
    define m where "m = 188 - length (buffer p)"
    have m: "length (buffer p) + m = 188" "m \<le> length s" "m < 2 ^ 32"
      using True assms(3,6) by (auto simp: m_def)
    then have "fill_buffer s 0 (buffer p) = Some (word_of_nat m, buffer p @ take m s)"
      using fill_buffer_eq [of "buffer p" m 0 s] by simp
    then show ?thesis using True m assms(2) by (simp add: TS_SIZE_def parser_inv_def loop_ready_def)
  next
    case False
    then have "fill_buffer s 0 (buffer p) = Some (0, buffer p)" if "buffer p \<noteq> []"
      using that by (subst fill_buffer.simps) (simp add: TS_SIZE_def)
    then show ?thesis using False assms(2) by (auto simp: TS_SIZE_def parser_inv_def loop_ready_def)
  qed
  then obtain i buf where start: "(if 0 < length (buffer p) \<and> length (buffer p) \<noteq> TS_SIZE
        then fill_buffer s 0 (buffer p) else Some (0, buffer p)) = Some (i, buf)"
      "parser_inv (p\<lparr>buffer := buf\<rparr>)" "loop_ready i len (p\<lparr>buffer := buf\<rparr>)" by blast
  obtain i' h' r' p' c' where "parse_loop f s len st i 0 True (p\<lparr>buffer := buf\<rparr>) c = Some (i', h', r', p', c')"
      "inv c' \<and> parser_inv p' \<and> packetSize p' = packetSize p"
    using parse_loop_returns [OF assms(1) start(2,3) assms(3), of st 0 True] assms(4,5) by auto
  then show ?thesis using start(1) by (simp add: parse_def)
qed

end

section \<open>Properties\<close>

text \<open>
  Property C1. However a stream of whole transport packets is cut into chunks of at least 375 bytes,
  in strict or lenient mode, every call of \<open>parse\<close> accepts its chunk and the client's handler
  receives exactly the packets of the stream, each once and in order; the parser ends with an empty
  buffer and has counted them all.
\<close>

theorem chunks_deliver_packets:
  assumes "list_all is_ts ps" and "concat cs = concat ps"
    and "\<And>s. s \<in> set cs \<Longrightarrow> 375 \<le> length s \<and> length s + 188 < 2 ^ 32"
  shows "parse_chunks f cs st new_parser c =
    do { c' \<leftarrow> feed f ps c;
         Some (replicate (length cs) True, new_parser\<lparr>count := word_of_nat (length ps)\<rparr>, c') }"
proof -
  have "parse_chunks f cs st (std_parser 0 []) c =
      do { c' \<leftarrow> feed f ps c;
           Some (replicate (length cs) True, std_parser (0 + word_of_nat (length ps)) [], c') }"
    using assms by (intro parse_chunks_aligned) auto
  then show ?thesis by (simp add: new_parser_std) (simp add: std_parser_def)
qed

text \<open>The handler of the repository's \<open>modifytest\<close>: it keeps every packet it is given.\<close>

definition onPacket_collect :: "ts_packet list \<Rightarrow> ts_packet \<Rightarrow> ts_packet list option" where
  "onPacket_collect oneKlvSet pckt =
     (if payloadUnitStart pckt then Some (oneKlvSet @ [pckt]) else Some (oneKlvSet @ [pckt]))"

lemma feed_collect: "feed onPacket_collect bs c = Some (c @ map pkt bs)"
  by (induction bs arbitrary: c) (simp_all add: onPacket_collect_def)

theorem chunks_deliver_packets_witness:
  "parse_chunks onPacket_collect
     [concat (replicate 3 (0x47 # replicate 187 0)) @ 0x47 # replicate 11 0,
      replicate 176 0 @ concat (replicate 4 (0x47 # replicate 187 0))] True new_parser []
   = Some ([True, True], new_parser\<lparr>count := 8\<rparr>, replicate 8 (pkt (0x47 # replicate 187 0)))"
proof -
  let ?b = "0x47 # replicate 187 0 :: bytes"
  have rep: "replicate 11 (0 :: u8) @ replicate 176 0 = replicate 187 0"
    by (simp flip: replicate_add)
  have ts: "list_all is_ts (replicate 8 ?b)" by (simp add: is_ts_def list_all_iff)
  have c8: "concat (replicate 8 ?b) = concat (replicate 3 ?b) @ ?b @ concat (replicate 4 ?b)"
    by (simp add: eval_nat_numeral)
  have cs: "concat [concat (replicate 3 ?b) @ 0x47 # replicate 11 0,
      replicate 176 0 @ concat (replicate 4 ?b)] = concat (replicate 8 ?b)"
    unfolding c8 using rep by (metis append.assoc append_Cons concat.simps append_Nil2)
  have len: "length (concat (replicate n ?b)) = 188 * n" for n
    by (simp add: length_concat sum_list_replicate)
  show ?thesis
    by (subst chunks_deliver_packets [OF ts cs]) (auto simp: feed_collect len)
qed

lemma gap_report_aux:
  assumes "h \<le> i" and "i + 188 < 2 ^ 32" and "st \<Longrightarrow> (h = 0 \<or> h = i \<or> i = h + 188) = (\<not> Q)"
  shows "(st \<and> (word_of_nat h :: u32) \<noteq> 0 \<and> (word_of_nat h :: u32) \<noteq> word_of_nat i \<and>
    (word_of_nat i :: u32) - word_of_nat h \<noteq> 188) = (st \<and> Q)"
proof -
  have inj: "(word_of_nat x :: u32) = word_of_nat y \<longleftrightarrow> x = y" if "x < 2 ^ 32" "y < 2 ^ 32" for x y
  proof
    assume "(word_of_nat x :: u32) = word_of_nat y"
    then have "unat (word_of_nat x :: u32) = unat (word_of_nat y :: u32)" by simp
    then show "x = y" using that by simp
  qed simp
  have "(word_of_nat i :: u32) - word_of_nat h = word_of_nat (i - h)" using assms(1) by (simp add: of_nat_diff)
  then have "(word_of_nat i :: u32) - word_of_nat h = 188 \<longleftrightarrow> i - h = 188"
    using inj [of "i - h" 188] assms by simp
  moreover have "(word_of_nat h :: u32) = 0 \<longleftrightarrow> h = 0" using inj [of h 0] assms by simp
  moreover have "(word_of_nat h :: u32) = word_of_nat i \<longleftrightarrow> h = i" using assms by (intro inj) simp_all
  ultimately show ?thesis using assms by auto
qed

text \<open>
  Property C31. Bytes between two runs of packets in one chunk, none of them a sync byte, are skipped: the client receives
  the packets of both runs. In strict mode the call reports the gap exactly when at least two
  packets precede it. A gap at the start of the chunk or after its first packet goes unreported,
  since the index \<open>h\<close> of the last packet is 0 there, the value that stands for \<open>none yet\<close>.
\<close>

theorem gap_report:
  assumes ps: "list_all is_ts ps1" "list_all is_ts (b # ps2)" and g: "0x47 \<notin> set g"
    and s: "s = concat ps1 @ g @ concat (b # ps2)" and bound: "length s + 188 < 2 ^ 32"
  shows "parse f s (word_of_nat (length s)) st new_parser c =
    do { c' \<leftarrow> feed f (ps1 @ b # ps2) c;
         Some (\<not> (st \<and> g \<noteq> [] \<and> 2 \<le> length ps1),
               new_parser\<lparr>count := word_of_nat (length (ps1 @ b # ps2))\<rparr>, c') }"
proof -
  define n where "n = length s"
  define j where "j = 188 * length ps1"
  define i where "i = j + length g"
  define h where "h = (if st \<and> ps1 \<noteq> [] then 188 * (length ps1 - 1) else 0)"
  have b: "length b = 188" "hd b = 0x47" "list_all is_ts ps2" using ps(2) by (simp_all add: is_ts_def)
  have n: "n = i + 188 + 188 * length ps2"
    using b length_concat_is_ts [OF ps(1)] length_concat_is_ts [OF b(3)]
    by (simp add: n_def s i_def j_def)
  have d0: "drop 0 (take n s) = concat ps1 @ g @ concat (b # ps2)" by (simp add: n_def s)
  have dj: "drop j s = g @ concat (b # ps2)" using length_concat_is_ts [OF ps(1)] by (simp add: s j_def)
  have di: "drop i (take n s) = b @ (concat ps2 @ [])"
    using length_concat_is_ts [OF ps(1)] by (simp add: n_def s i_def j_def)
  note at = drop_take_Cons [OF di b(1)]
  have run1: "parse_loop f s (word_of_nat n) st (word_of_nat 0) 0 True (std_parser 0 []) c =
      do { c' \<leftarrow> feed f ps1 c;
           parse_loop f s (word_of_nat n) st (word_of_nat (0 + 188 * length ps1))
             (if st \<and> ps1 \<noteq> [] then word_of_nat (0 + 188 * (length ps1 - 1)) else 0) True
             (std_parser (0 + word_of_nat (length ps1)) []) c' }"
    using bound by (intro parse_loop_aligned [OF ps(1) d0]) (simp_all add: n_def)
  then have run1: "parse_loop f s (word_of_nat n) st 0 0 True (std_parser 0 []) c =
      do { c' \<leftarrow> feed f ps1 c;
           parse_loop f s (word_of_nat n) st (word_of_nat j) (word_of_nat h) True
             (std_parser (word_of_nat (length ps1)) []) c' }"
    by (simp add: j_def h_def del: of_nat_mult cong: if_cong)
  have junk: "s ! q \<noteq> 0x47" if "j \<le> q" "q < j + length g" for q
  proof -
    have "s ! q = drop j s ! (q - j)" using that n by (simp add: n_def i_def)
    also have "\<dots> = g ! (q - j)" using that less_diff_conv2 [of j q "length g"] unfolding dj by (simp add: nth_append)
    finally have "s ! q = g ! (q - j)" .
    moreover have "g ! (q - j) \<in> set g" using that by (intro nth_mem) linarith
    ultimately show ?thesis using g by metis
  qed
  have skip: "parse_loop f s (word_of_nat n) st (word_of_nat j) h' r (std_parser k []) c' =
      parse_loop f s (word_of_nat n) st (word_of_nat i) h' r (std_parser k []) c'" for h' r k c'
    using bound n junk unfolding i_def by (intro parse_loop_skips) (simp_all add: n_def)
  have small: "h \<le> i" "i + 188 < 2 ^ 32" "i < n"
    using bound n by (auto simp: n_def h_def i_def j_def)
  have w: "unat (word_of_nat i :: u32) = i" and lt: "(word_of_nat i :: u32) < word_of_nat n"
    and le: "(word_of_nat i :: u32) + 188 \<le> word_of_nat n"
    using small n bound
    by (simp_all add: n_def word_of_nat_less_iff32 word_of_nat_plus_numeral word_of_nat_le_iff32
        del: of_nat_add)
  have rd: "rd s i = Some 0x47" using at(2) b small by (simp add: rd_def n_def)
  have report: "(st \<and> (word_of_nat h :: u32) \<noteq> 0 \<and> (word_of_nat h :: u32) \<noteq> word_of_nat i \<and>
      (word_of_nat i :: u32) - word_of_nat h \<noteq> 188) = (st \<and> g \<noteq> [] \<and> 2 \<le> length ps1)"
  proof (rule gap_report_aux [OF small(1,2)])
    assume st
    then show "(h = 0 \<or> h = i \<or> i = h + 188) = (\<not> (g \<noteq> [] \<and> 2 \<le> length ps1))"
      by (cases ps1; cases "tl ps1") (auto simp: h_def i_def j_def)
  qed
  have packet: "parse_loop f s (word_of_nat n) st (word_of_nat i) (word_of_nat h) True
        (std_parser (word_of_nat (length ps1)) []) c' =
      do { c'' \<leftarrow> f c' (pkt b);
           parse_loop f s (word_of_nat n) st (word_of_nat (i + 188))
             (if st then word_of_nat i else word_of_nat h)
             (\<not> (st \<and> g \<noteq> [] \<and> 2 \<le> length ps1)) (std_parser (word_of_nat (length ps1) + 1) []) c'' }" for c'
    using lt w rd le at(3) b report
    by (subst parse_loop_packet [where bs = b])
       (simp_all add: deliver_std n_def del: of_nat_add flip: word_of_nat_plus_numeral)
  have run2: "parse_loop f s (word_of_nat n) st (word_of_nat (i + 188))
        (if st then word_of_nat i else word_of_nat h) res (std_parser k []) c'' =
      do { c3 \<leftarrow> feed f ps2 c'';
           Some (word_of_nat n, if st \<and> ps2 \<noteq> [] then word_of_nat (i + 188 + 188 * (length ps2 - 1))
                 else (if st then word_of_nat i else word_of_nat h), res,
                 std_parser (k + word_of_nat (length ps2)) [], c3) }" for res k c''
    using at(4) small n bound by (intro parse_loop_all [OF b(3)]) (simp_all add: n_def)
  have last: "(word_of_nat n :: u32) - (if ps2 \<noteq> [] then word_of_nat (i + 188 + 188 * (length ps2 - 1))
      else word_of_nat i) = 188"
    using n by (cases ps2) (simp_all add: algebra_simps)
  have cnt: "(std_parser 0 [])\<lparr>count := word_of_nat (length (ps1 @ b # ps2))\<rparr> =
      std_parser (word_of_nat (length ps1) + 1 + word_of_nat (length ps2)) []"
    by (simp add: std_parser_def)
  show ?thesis
  proof (cases "feed f ps1 c")
    case None
    then show ?thesis by (simp add: parse_def new_parser_std n_def [symmetric] run1 feed_append)
  next
    case feed1: (Some c1)
    show ?thesis
    proof (cases "f c1 (pkt b)")
      case None
      then show ?thesis using feed1
        by (simp add: parse_def new_parser_std n_def [symmetric] run1 feed_append skip packet)
    next
      case feed2: (Some c2)
      show ?thesis
        unfolding new_parser_std n_def [symmetric] cnt
        using feed1 feed2 last
        by (cases "feed f ps2 c2")
          (auto simp: parse_def run1 feed_append skip packet run2 simp del: of_nat_add of_nat_mult
            split: if_splits)
    qed
  qed
qed

theorem gap_report_witness:
  "parse onPacket_collect (concat (replicate 2 (0x47 # replicate 187 0)) @ [0] @ 0x47 # replicate 187 0)
     565 True new_parser []
   = Some (False, new_parser\<lparr>count := 3\<rparr>, replicate 3 (pkt (0x47 # replicate 187 0)))"
proof -
  let ?b = "0x47 # replicate 187 0 :: bytes"
  let ?s = "concat (replicate 2 ?b) @ [0] @ ?b"
  have c: "replicate 2 ?b @ [?b] = replicate 3 ?b" by (simp add: replicate_append_same numeral_3_eq_3 numeral_2_eq_2)
  have "parse onPacket_collect ?s (word_of_nat (length ?s)) True new_parser [] =
      do { c' \<leftarrow> feed onPacket_collect (replicate 2 ?b @ [?b]) [];
           Some (\<not> (True \<and> [0 :: u8] \<noteq> [] \<and> 2 \<le> length (replicate 2 ?b)),
             new_parser\<lparr>count := word_of_nat (length (replicate 2 ?b @ [?b]))\<rparr>, c') }"
    by (rule gap_report) (simp_all add: is_ts_def length_concat sum_list_replicate list_all_iff)
  then show ?thesis unfolding c feed_collect by (simp add: length_concat sum_list_replicate)
qed

text \<open>
  Property C34. Chunks shorter than 375 bytes can lose a packet, without any sign of it in the results:
  a first chunk that ends inside packet 1, and a second that ends inside packet 2, leave more than
  188 bytes in the buffer. The third call delivers packet 1, clears the buffer with the start of
  packet 2 in it, skips the rest of packet 2 and goes on with packet 3. All three calls return true,
  in strict mode too.
\<close>

theorem short_chunks_lose_packet:
  assumes "is_ts b1" "is_ts b2" "is_ts b3" and "0 < x" "x < 188" "0 < y" "y < 188"
    and "0x47 \<notin> set (drop y b2)"
  shows "parse_chunks f [take x b1, drop x b1 @ take y b2, drop y b2 @ b3] st new_parser c =
    do { c' \<leftarrow> feed f [b1, b3] c; Some ([True, True, True], new_parser\<lparr>count := 2\<rparr>, c') }"
proof -
  have b: "length b1 = 188" "length b2 = 188" "hd b1 = 0x47" "hd b2 = 0x47"
    using assms(1,2) by (simp_all add: is_ts_def)
  have "hd (take x b1) = 0x47" using b assms(4) by (cases b1) (auto simp: take_Cons')
  then have first: "parse f (take x b1) (word_of_nat (length (take x b1))) st (std_parser 0 []) c =
      Some (True, std_parser 0 (take x b1), c)"
    using parse_chunk [of "[]" "[]" "length (take x b1)" "take x b1" "take x b1" st f 0 c] assms(4,5) b by simp
  note second = parse_overfills [OF b(1,2,4) assms(4-7) refl, of f st 0 c]
  note third = parse_overfull [OF b(1) assms(3,8), of "take y b2" _ f st 0 c, OF _ _ refl]
  have "parse f (drop y b2 @ b3) (word_of_nat (length (drop y b2 @ b3))) st (std_parser 0 (b1 @ take y b2)) c =
      do { c' \<leftarrow> feed f [b1, b3] c; Some (True, std_parser 2 [], c') }"
    using third assms(6,7) b by force
  then show ?thesis
    by (simp add: new_parser_std first second del: feed.simps length_append length_take length_drop)
       (simp add: std_parser_def)
qed

theorem short_chunks_lose_packet_witness:
  "parse_chunks onPacket_collect [0x47 # replicate 99 1, replicate 88 1 @ 0x47 # replicate 11 2,
      replicate 176 2 @ 0x47 # replicate 187 3] True new_parser [] =
   Some ([True, True, True], new_parser\<lparr>count := 2\<rparr>,
     [pkt (0x47 # replicate 187 1), pkt (0x47 # replicate 187 3)])"
  using short_chunks_lose_packet [of "0x47 # replicate 187 1" "0x47 # replicate 187 2"
      "0x47 # replicate 187 3" 100 12 onPacket_collect True "[]"]
  by (simp add: is_ts_def feed_collect del: parse_chunks.simps feed.simps)

section \<open>Arbitrary bytes\<close>

interpretation base_client: packet_client onPacket_default "\<lambda>_. True"
  by unfold_locales (simp add: onPacket_default_def)

interpretation collect_client: packet_client onPacket_collect "list_all ok_packet"
  by unfold_locales (simp add: onPacket_collect_def)

lemma fill_buffer_short:
  "length buf + m < 188 \<Longrightarrow> length s = k + m \<Longrightarrow> k + m < 2 ^ 32 \<Longrightarrow> fill_buffer s (word_of_nat k) buf = None"
proof (induction m arbitrary: k buf)
  case 0
  then show ?case by (subst fill_buffer.simps) (simp add: TS_SIZE_def rd_def)
next
  case (Suc m)
  have "fill_buffer s (word_of_nat (Suc k)) (buf @ [s ! k]) = None"
    using Suc.prems by (intro Suc.IH) simp_all
  moreover have "fill_buffer s (word_of_nat k) buf = fill_buffer s (word_of_nat (Suc k)) (buf @ [s ! k])"
  proof -
    have w: "unat (word_of_nat k :: u32) = k" and k: "k < length s" "length buf < 188" using Suc.prems by simp_all
    show ?thesis using k by (subst fill_buffer.simps) (simp add: TS_SIZE_def w rd_in add.commute)
  qed
  ultimately show ?case by simp
qed

text \<open>
  A chunk that cannot complete the buffered packet is read past its end: \<open>parse\<close> fills the
  buffer up to 188 bytes without looking at \<open>len\<close>, so its result is undefined for every client, every
  packet size and either mode.
\<close>

lemma short_chunk_overread:
  assumes "0 < length (buffer p)" and "length (buffer p) + length s < 188"
  shows "parse f s len st p c = None"
proof -
  have "fill_buffer s 0 (buffer p) = None"
    using fill_buffer_short [of "buffer p" "length s" s 0] assms by simp
  then show ?thesis using assms by (simp add: parse_def TS_SIZE_def)
qed

text \<open>
  Property C2. One call of \<open>parse\<close> on arbitrary bytes, with a packet size of at least 188 and \<open>len\<close> plus one packet
  size below \<open>2 ^ 32\<close>, from a state in which a buffered partial packet starts with the sync byte. If no partial
  packet is buffered, or the chunk completes it, the call returns: the scan ends, and no read is out of the chunk or
  the buffer. Each packet that a collecting client has kept then is 188 bytes that start with the sync byte, and the
  parser is in such a state again. If the chunk is too short to complete the buffered packet, and it is all
  the memory there is, the call has no result: it reads behind the chunk.
\<close>

theorem parse_arbitrary_bytes:
  assumes "list_all ok_packet c" "parser_inv p" "unat len \<le> length s" "188 \<le> packetSize p"
    and "unat len + unat (packetSize p) < 2 ^ 32"
  shows "if buffer p = [] \<or> 188 \<le> length (buffer p) + unat len
    then \<exists>ok p' c'. parse onPacket_collect s len st p c = Some (ok, p', c') \<and> list_all ok_packet c' \<and>
      parser_inv p' \<and> packetSize p' = packetSize p
    else unat len = length s \<longrightarrow> parse onPacket_collect s len st p c = None"
proof (cases "buffer p = [] \<or> 188 \<le> length (buffer p) + unat len")
  case True
  then show ?thesis using collect_client.parse_returns [OF assms True, of st] by simp
next
  case False
  then show ?thesis using short_chunk_overread [of p s onPacket_collect len st c] by auto
qed

theorem parse_arbitrary_bytes_witness:
  "\<exists>ok p' c'. parse onPacket_collect (replicate 400 0x47) 400 True (setPacketSize new_parser 204) [] =
     Some (ok, p', c') \<and> list_all ok_packet c' \<and> parser_inv p' \<and>
     packetSize p' = packetSize (setPacketSize new_parser 204)"
  using parse_arbitrary_bytes [of "[]" "setPacketSize new_parser 204" 400 "replicate 400 0x47" True]
  by (simp add: parser_inv_def setPacketSize_def new_parser_def)

end
