(* ===== verification/Crc32.thy ===== *)
theory Crc32
  imports Mp2tp_Prelude
begin

text \<open>
  \<open>dvbpsi_crc32_table\<close> (\<open>tspmt.cpp\<close>) and the loop that \<open>tspat.cpp\<close> and \<open>tspmt.cpp\<close> run over a
  section with it: the CRC-32 of ISO/IEC 13818-1 Annex B, most significant bit first, polynomial
  \<open>0x04C11DB7\<close>. The table routine is shown to be the bit-by-bit register of the standard, and the two
  facts a receiver relies on are derived: a section followed by its CRC leaves 0 in the register,
  and a change inside four consecutive bytes never goes unnoticed.
\<close>

definition dvbpsi_crc32_table :: "u32 list" where
  "dvbpsi_crc32_table = [
   0x00000000, 0x04c11db7, 0x09823b6e, 0x0d4326d9,
   0x130476dc, 0x17c56b6b, 0x1a864db2, 0x1e475005,
   0x2608edb8, 0x22c9f00f, 0x2f8ad6d6, 0x2b4bcb61,
   0x350c9b64, 0x31cd86d3, 0x3c8ea00a, 0x384fbdbd,
   0x4c11db70, 0x48d0c6c7, 0x4593e01e, 0x4152fda9,
   0x5f15adac, 0x5bd4b01b, 0x569796c2, 0x52568b75,
   0x6a1936c8, 0x6ed82b7f, 0x639b0da6, 0x675a1011,
   0x791d4014, 0x7ddc5da3, 0x709f7b7a, 0x745e66cd,
   0x9823b6e0, 0x9ce2ab57, 0x91a18d8e, 0x95609039,
   0x8b27c03c, 0x8fe6dd8b, 0x82a5fb52, 0x8664e6e5,
   0xbe2b5b58, 0xbaea46ef, 0xb7a96036, 0xb3687d81,
   0xad2f2d84, 0xa9ee3033, 0xa4ad16ea, 0xa06c0b5d,
   0xd4326d90, 0xd0f37027, 0xddb056fe, 0xd9714b49,
   0xc7361b4c, 0xc3f706fb, 0xceb42022, 0xca753d95,
   0xf23a8028, 0xf6fb9d9f, 0xfbb8bb46, 0xff79a6f1,
   0xe13ef6f4, 0xe5ffeb43, 0xe8bccd9a, 0xec7dd02d,
   0x34867077, 0x30476dc0, 0x3d044b19, 0x39c556ae,
   0x278206ab, 0x23431b1c, 0x2e003dc5, 0x2ac12072,
   0x128e9dcf, 0x164f8078, 0x1b0ca6a1, 0x1fcdbb16,
   0x018aeb13, 0x054bf6a4, 0x0808d07d, 0x0cc9cdca,
   0x7897ab07, 0x7c56b6b0, 0x71159069, 0x75d48dde,
   0x6b93dddb, 0x6f52c06c, 0x6211e6b5, 0x66d0fb02,
   0x5e9f46bf, 0x5a5e5b08, 0x571d7dd1, 0x53dc6066,
   0x4d9b3063, 0x495a2dd4, 0x44190b0d, 0x40d816ba,
   0xaca5c697, 0xa864db20, 0xa527fdf9, 0xa1e6e04e,
   0xbfa1b04b, 0xbb60adfc, 0xb6238b25, 0xb2e29692,
   0x8aad2b2f, 0x8e6c3698, 0x832f1041, 0x87ee0df6,
   0x99a95df3, 0x9d684044, 0x902b669d, 0x94ea7b2a,
   0xe0b41de7, 0xe4750050, 0xe9362689, 0xedf73b3e,
   0xf3b06b3b, 0xf771768c, 0xfa325055, 0xfef34de2,
   0xc6bcf05f, 0xc27dede8, 0xcf3ecb31, 0xcbffd686,
   0xd5b88683, 0xd1799b34, 0xdc3abded, 0xd8fba05a,
   0x690ce0ee, 0x6dcdfd59, 0x608edb80, 0x644fc637,
   0x7a089632, 0x7ec98b85, 0x738aad5c, 0x774bb0eb,
   0x4f040d56, 0x4bc510e1, 0x46863638, 0x42472b8f,
   0x5c007b8a, 0x58c1663d, 0x558240e4, 0x51435d53,
   0x251d3b9e, 0x21dc2629, 0x2c9f00f0, 0x285e1d47,
   0x36194d42, 0x32d850f5, 0x3f9b762c, 0x3b5a6b9b,
   0x0315d626, 0x07d4cb91, 0x0a97ed48, 0x0e56f0ff,
   0x1011a0fa, 0x14d0bd4d, 0x19939b94, 0x1d528623,
   0xf12f560e, 0xf5ee4bb9, 0xf8ad6d60, 0xfc6c70d7,
   0xe22b20d2, 0xe6ea3d65, 0xeba91bbc, 0xef68060b,
   0xd727bbb6, 0xd3e6a601, 0xdea580d8, 0xda649d6f,
   0xc423cd6a, 0xc0e2d0dd, 0xcda1f604, 0xc960ebb3,
   0xbd3e8d7e, 0xb9ff90c9, 0xb4bcb610, 0xb07daba7,
   0xae3afba2, 0xaafbe615, 0xa7b8c0cc, 0xa379dd7b,
   0x9b3660c6, 0x9ff77d71, 0x92b45ba8, 0x9675461f,
   0x8832161a, 0x8cf30bad, 0x81b02d74, 0x857130c3,
   0x5d8a9099, 0x594b8d2e, 0x5408abf7, 0x50c9b640,
   0x4e8ee645, 0x4a4ffbf2, 0x470cdd2b, 0x43cdc09c,
   0x7b827d21, 0x7f436096, 0x7200464f, 0x76c15bf8,
   0x68860bfd, 0x6c47164a, 0x61043093, 0x65c52d24,
   0x119b4be9, 0x155a565e, 0x18197087, 0x1cd86d30,
   0x029f3d35, 0x065e2082, 0x0b1d065b, 0x0fdc1bec,
   0x3793a651, 0x3352bbe6, 0x3e119d3f, 0x3ad08088,
   0x2497d08d, 0x2056cd3a, 0x2d15ebe3, 0x29d4f654,
   0xc5a92679, 0xc1683bce, 0xcc2b1d17, 0xc8ea00a0,
   0xd6ad50a5, 0xd26c4d12, 0xdf2f6bcb, 0xdbee767c,
   0xe3a1cbc1, 0xe760d676, 0xea23f0af, 0xeee2ed18,
   0xf0a5bd1d, 0xf464a0aa, 0xf9278673, 0xfde69bc4,
   0x89b8fd09, 0x8d79e0be, 0x803ac667, 0x84fbdbd0,
   0x9abc8bd5, 0x9e7d9662, 0x933eb0bb, 0x97ffad0c,
   0xafb010b1, 0xab710d06, 0xa6322bdf, 0xa2f33668,
   0xbcb4666d, 0xb8757bda, 0xb5365d03, 0xb1f740b4]"

text \<open>\<open>CRC_32_ = (CRC_32_ << 8) ^ dvbpsi_crc32_table[(CRC_32_ >> 24) ^ byte]\<close>; the index is below 256.\<close>

definition crc_step :: "u32 \<Rightarrow> u8 \<Rightarrow> u32" where
  "crc_step crc b = push_bit 8 crc XOR dvbpsi_crc32_table ! unat (drop_bit 24 crc XOR ucast b)"

definition crc_bytes :: "u32 \<Rightarrow> bytes \<Rightarrow> u32" where
  "crc_bytes crc bs = foldl crc_step crc bs"

section \<open>The shift register of the standard\<close>

definition crc_bit_step :: "u32 \<Rightarrow> bool \<Rightarrow> u32" where
  "crc_bit_step r m = push_bit 1 r XOR (if bit r 31 \<noteq> m then 0x04C11DB7 else 0)"

definition crc_bits :: "u32 \<Rightarrow> bool list \<Rightarrow> u32" where
  "crc_bits r ms = foldl crc_bit_step r ms"

definition byte_bits :: "u8 \<Rightarrow> bool list" where
  "byte_bits b = map (bit b) [7, 6, 5, 4, 3, 2, 1, 0]"

definition crc_reference :: "u32 \<Rightarrow> bytes \<Rightarrow> u32" where
  "crc_reference r bs = crc_bits r (concat (map byte_bits bs))"

lemma crc_bits_simps [simp]:
  "crc_bits r [] = r" "crc_bits r (m # ms) = crc_bits (crc_bit_step r m) ms"
  by (simp_all add: crc_bits_def)

lemma crc_bits_append: "crc_bits r (ms @ ns) = crc_bits (crc_bits r ms) ns"
  by (simp add: crc_bits_def)

lemma crc_bytes_simps [simp]:
  "crc_bytes r [] = r" "crc_bytes r (b # bs) = crc_bytes (crc_step r b) bs"
  by (simp_all add: crc_bytes_def)

lemma crc_bytes_append: "crc_bytes r (xs @ ys) = crc_bytes (crc_bytes r xs) ys"
  by (simp add: crc_bytes_def)

text \<open>The register is linear in its state and its input together.\<close>

lemma crc_bit_step_xor:
  "crc_bit_step (a XOR c) (m \<noteq> n) = crc_bit_step a m XOR crc_bit_step c n"
  by (rule bit_word_eqI) (auto simp: crc_bit_step_def bit_simps)

lemma crc_bits_xor:
  "length ms = length ns \<Longrightarrow>
   crc_bits (a XOR c) (map2 (\<noteq>) ms ns) = crc_bits a ms XOR crc_bits c ns"
  by (induction ms ns arbitrary: a c rule: list_induct2) (simp_all add: crc_bit_step_xor [simplified])

text \<open>Input that equals the outgoing bits is shifted through without feedback.\<close>

lemma crc_bits_same:
  "n \<le> 32 \<Longrightarrow> crc_bits r (map (\<lambda>i. bit r (31 - i)) [0..<n]) = push_bit n r"
proof (induction n)
  case 0
  then show ?case by simp
next
  case (Suc n)
  then have "crc_bits r (map (\<lambda>i. bit r (31 - i)) [0..<Suc n]) = crc_bit_step (push_bit n r) (bit r (31 - n))"
    by (simp add: crc_bits_append)
  also have "bit r (31 - n) = bit (push_bit n r) 31" using Suc.prems by (simp add: bit_simps)
  also have "crc_bit_step (push_bit n r) \<dots> = push_bit (Suc n) r"
    by (simp add: crc_bit_step_def)
  finally show ?case .
qed

text \<open>Zeros leave a register whose top bits are zero without feedback, too.\<close>

lemma crc_bits_zeros:
  "(\<And>i. i < n \<Longrightarrow> \<not> bit r (31 - i)) \<Longrightarrow> n \<le> 32 \<Longrightarrow> crc_bits r (replicate n False) = push_bit n r"
proof -
  assume z: "\<And>i. i < n \<Longrightarrow> \<not> bit r (31 - i)" and n: "n \<le> 32"
  have "map (\<lambda>i. bit r (31 - i)) [0..<n] = replicate n False"
    using z by (intro nth_equalityI) auto
  then show ?thesis using crc_bits_same [OF n, of r] by simp
qed

text \<open>The table holds the register's response to each byte in its top bits.\<close>

definition crc_response :: "u32 \<Rightarrow> u32" where
  "crc_response r = crc_bits r (replicate 8 False)"

lemma crc_bit_step_zero:
  "crc_bit_step r False = (if 0x80000000 \<le> r then 2 * r XOR 0x04C11DB7 else 2 * r)"
proof -
  have "bit r 31 \<longleftrightarrow> bit (unat r) 31" by (simp add: bit_unsigned_iff)
  also have "\<dots> \<longleftrightarrow> odd (unat r div 2 ^ 31)" by (simp add: bit_iff_odd)
  also have "\<dots> \<longleftrightarrow> 2 ^ 31 \<le> unat r"
  proof -
    have "unat r < 2 ^ 32" using unsigned_less [of r] by simp
    then have "unat r div 2 ^ 31 = (if 2 ^ 31 \<le> unat r then 1 else 0)"
      by (auto intro: div_nat_eqI)
    then show ?thesis by simp
  qed
  also have "\<dots> \<longleftrightarrow> 0x80000000 \<le> r" by (simp add: word_le_nat_alt)
  finally show ?thesis by (simp add: crc_bit_step_def push_bit_eq_mult mult.commute)
qed

lemma crc_response_unfold:
  "crc_response r =
     (let z = (\<lambda>r. crc_bit_step r False) in z (z (z (z (z (z (z (z r))))))))"
  by (simp add: crc_response_def eval_nat_numeral(2,3) numeral_eq_Suc Let_def)

lemma table_rows:
  "concat (map (\<lambda>v. let z = crc_bit_step v False in [z, z XOR 0x04C11DB7]) (take 128 dvbpsi_crc32_table))
   = dvbpsi_crc32_table"
  by (simp add: dvbpsi_crc32_table_def crc_bit_step_zero Let_def)

lemma table_length [simp]: "length dvbpsi_crc32_table = 256"
  by (simp add: dvbpsi_crc32_table_def)

lemma nth_concat_pairs:
  "m < length xs \<Longrightarrow> concat (map (\<lambda>v. [f v, g v]) xs) ! (2 * m) = f (xs ! m) \<and>
     concat (map (\<lambda>v. [f v, g v]) xs) ! Suc (2 * m) = g (xs ! m)"
  by (induction xs arbitrary: m) (auto simp: nth_Cons split: nat.splits)

lemma table_double:
  assumes "m < 128"
  shows "dvbpsi_crc32_table ! (2 * m) = crc_bit_step (dvbpsi_crc32_table ! m) False"
    and "dvbpsi_crc32_table ! Suc (2 * m) = crc_bit_step (dvbpsi_crc32_table ! m) False XOR 0x04C11DB7"
  using nth_concat_pairs [of m "take 128 dvbpsi_crc32_table" "\<lambda>v. crc_bit_step v False"
      "\<lambda>v. crc_bit_step v False XOR 0x04C11DB7"] assms table_rows
  by (simp_all add: Let_def)

lemma response_step: "crc_response (crc_bit_step r False) = crc_bit_step (crc_response r) False"
  by (simp add: crc_response_unfold Let_def)

lemma response_xor: "crc_response (a XOR c) = crc_response a XOR crc_response c"
proof -
  have "map2 (\<noteq>) (replicate 8 False) (replicate 8 False) = replicate 8 False"
    by (simp add: zip_replicate1)
  then show ?thesis
    using crc_bits_xor [of "replicate 8 False" "replicate 8 False" a c]
    by (simp only: crc_response_def)
qed

lemma response_double:
  assumes "m < 128"
  shows "crc_response (push_bit 24 (word_of_nat (2 * m))) = crc_bit_step (crc_response (push_bit 24 (word_of_nat m))) False"
    and "crc_response (push_bit 24 (word_of_nat (Suc (2 * m)))) =
      crc_bit_step (crc_response (push_bit 24 (word_of_nat m))) False XOR 0x04C11DB7"
proof -
  have "\<not> bit m 7" using assms by (simp add: bit_iff_odd)
  then have "\<not> bit (push_bit 24 (word_of_nat m) :: u32) 31" by (simp add: bit_simps)
  then have "crc_bit_step (push_bit 24 (word_of_nat m)) False = push_bit 24 (word_of_nat (2 * m))"
    by (simp add: crc_bit_step_def push_bit_eq_mult)
  then show even: "crc_response (push_bit 24 (word_of_nat (2 * m))) =
      crc_bit_step (crc_response (push_bit 24 (word_of_nat m))) False"
    by (metis response_step)
  have "(word_of_nat (Suc (2 * m)) :: u32) = word_of_nat (2 * m) XOR 1"
    by (simp add: xor_one_eq)
  then have "(push_bit 24 (word_of_nat (Suc (2 * m))) :: u32) = push_bit 24 (word_of_nat (2 * m)) XOR 0x1000000"
    by (simp only: push_bit_xor) (simp add: push_bit_eq_mult)
  moreover have "crc_response 0x1000000 = 0x04C11DB7"
    by (simp add: crc_response_unfold crc_bit_step_zero Let_def)
  ultimately show "crc_response (push_bit 24 (word_of_nat (Suc (2 * m)))) =
      crc_bit_step (crc_response (push_bit 24 (word_of_nat m))) False XOR 0x04C11DB7"
    by (simp only: response_xor even)
qed

lemma table_is_response:
  "n < 256 \<Longrightarrow> dvbpsi_crc32_table ! n = crc_response (push_bit 24 (word_of_nat n))"
proof (induction n rule: less_induct)
  case (less n)
  show ?case
  proof (cases "n = 0")
    case True
    then show ?thesis by (simp add: dvbpsi_crc32_table_def crc_response_unfold crc_bit_step_zero Let_def)
  next
    case False
    define m where "m = n div 2"
    have m: "m < 128" "m < n" "n = 2 * m \<or> n = Suc (2 * m)" using less.prems False by (auto simp: m_def)
    have "dvbpsi_crc32_table ! m = crc_response (push_bit 24 (word_of_nat m))"
      using less.IH m less.prems by simp
    then show ?thesis using m(3) table_double [OF m(1)] response_double [OF m(1)] by metis
  qed
qed

lemma table_nth: "dvbpsi_crc32_table ! unat (b :: u8) = crc_response (push_bit 24 (ucast b))"
proof -
  have "unat b < 256" using unsigned_less [of b] by simp
  then show ?thesis using table_is_response [of "unat b"] by simp
qed

section \<open>The table routine is the register\<close>

lemma crc_bits_zero_input:
  "length ms = n \<Longrightarrow> crc_bits a ms = crc_bits (a XOR c) ms XOR crc_bits c (replicate n False)"
proof -
  assume n: "length ms = n"
  have "map2 (\<noteq>) ms (replicate n False) = ms"
    using n by (intro nth_equalityI) auto
  moreover have "(a XOR c) XOR c = a" by (simp add: xor.assoc)
  ultimately show ?thesis
    using crc_bits_xor [of ms "replicate n False" "a XOR c" c] n by (simp only: length_replicate)
qed

lemma byte_bits_eq: "byte_bits b = map (\<lambda>i. bit (push_bit 24 (ucast b) :: u32) (31 - i)) [0..<8]"
  by (simp add: byte_bits_def bit_simps upt_from_0 upt_from_1)

lemma unat_ucast_u8_u32: "unat (ucast (x :: u8) :: u32) = unat x"
  by (rule bit_eqI) (auto simp: bit_simps bit_unsigned_iff dest: bit_imp_le_length)

lemma crc_step_reference: "crc_step r b = crc_bits r (byte_bits b)"
proof -
  define lowr where "lowr = r XOR push_bit 24 (drop_bit 24 r)"
  define t where "t = (ucast (drop_bit 24 r) :: u8)"
  have rt: "push_bit 24 (drop_bit 24 r) = (push_bit 24 (ucast t) :: u32)"
    by (rule bit_word_eqI) (auto simp: t_def bit_simps)
  have idx: "drop_bit 24 r XOR ucast b = (ucast (t XOR b) :: u32)"
    by (rule bit_word_eqI) (auto simp: t_def bit_simps dest: bit_imp_le_length)
  have low: "crc_bits lowr (replicate 8 False) = push_bit 8 r"
  proof -
    have "crc_bits lowr (replicate 8 False) = push_bit 8 lowr"
      by (rule crc_bits_zeros) (auto simp: lowr_def bit_simps)
    also have "\<dots> = push_bit 8 r" by (rule bit_word_eqI) (auto simp: lowr_def bit_simps)
    finally show ?thesis .
  qed
  have same: "crc_bits (push_bit 24 (ucast b)) (byte_bits b) = 0"
  proof -
    have "push_bit 8 (push_bit 24 (ucast b)) = (0 :: u32)" by (rule bit_word_eqI) (simp add: bit_simps)
    then show ?thesis using crc_bits_same [of 8 "push_bit 24 (ucast b)"] by (simp add: byte_bits_eq)
  qed
  have top: "crc_bits (push_bit 24 (ucast t)) (byte_bits b) = crc_response (push_bit 24 (ucast (t XOR b)))"
  proof -
    define y where "y = (push_bit 24 (ucast (t XOR b)) :: u32)"
    have "push_bit 24 (ucast t) XOR y = push_bit 24 (ucast b)"
      by (rule bit_word_eqI) (auto simp: y_def bit_simps)
    then show ?thesis
      using crc_bits_zero_input [of "byte_bits b" 8 "push_bit 24 (ucast t)" y] same
      by (simp add: byte_bits_def crc_response_def flip: y_def)
  qed
  have "crc_bits r (byte_bits b) = crc_bits (r XOR lowr) (byte_bits b) XOR crc_bits lowr (replicate 8 False)"
    by (rule crc_bits_zero_input) (simp add: byte_bits_def)
  also have "r XOR lowr = push_bit 24 (ucast t)"
    unfolding rt [symmetric] lowr_def by (rule bit_word_eqI) (auto simp: bit_simps)
  finally show ?thesis
    unfolding top low crc_step_def idx unat_ucast_u8_u32 by (simp only: table_nth xor.commute)
qed

lemma crc_bytes_reference: "crc_bytes r bs = crc_reference r bs"
  by (induction bs arbitrary: r) (simp_all add: crc_reference_def crc_bits_append crc_step_reference)

section \<open>What the CRC detects\<close>

lemma byte_bits_xor: "byte_bits (a XOR b) = map2 (\<noteq>) (byte_bits a) (byte_bits b)"
  by (simp add: byte_bits_def bit_simps)

lemma crc_bytes_xor:
  "length xs = length ys \<Longrightarrow> crc_bytes (r XOR q) (map2 (XOR) xs ys) = crc_bytes r xs XOR crc_bytes q ys"
proof (induction xs ys arbitrary: r q rule: list_induct2)
  case (Cons x xs y ys)
  have "crc_step (r XOR q) (x XOR y) = crc_step r x XOR crc_step q y"
    unfolding crc_step_reference byte_bits_xor by (rule crc_bits_xor) (simp add: byte_bits_def)
  then show ?case by (simp add: Cons.IH)
qed simp

lemma bits_of_bytes_be32:
  "concat (map byte_bits (bytes_be32 w)) = map (\<lambda>i. bit w (31 - i)) [0..<32]"
  by (simp add: bytes_be32_def byte_bits_def bit_simps word_bits upt_from_0 upt_from_1)

lemma crc_bytes_own: "crc_bytes r (bytes_be32 r) = 0"
proof -
  have "crc_bytes r (bytes_be32 r) = push_bit 32 r"
    unfolding crc_bytes_reference crc_reference_def bits_of_bytes_be32 by (rule crc_bits_same) simp
  also have "\<dots> = 0" by (rule bit_word_eqI) (simp add: bit_simps)
  finally show ?thesis .
qed

lemma crc_bit_step_inj:
  assumes "crc_bit_step r m = crc_bit_step q m"
  shows "r = q"
proof (rule bit_word_eqI)
  have b: "bit (crc_bit_step r m) n = bit (crc_bit_step q m) n" for n by (simp add: assms)
  have "bit (crc_bit_step x m) 0 \<longleftrightarrow> bit x 31 \<noteq> m" for x
    by (simp only: crc_bit_step_def bit_xor_iff bit_push_bit_iff) (simp add: bit_0)
  then have top: "bit r 31 = bit q 31" using b [of 0] by auto
  fix n assume "n < LENGTH(32)"
  then consider "n = 31" | "Suc n < 32" by fastforce
  then show "bit r n = bit q n"
  proof cases
    case 2
    have "bit (crc_bit_step x m) (Suc n) \<longleftrightarrow> bit x n \<noteq> (bit x 31 \<noteq> m \<and> bit (0x04C11DB7 :: u32) (Suc n))" for x
      using 2 by (simp only: crc_bit_step_def bit_xor_iff bit_push_bit_iff) simp
    then show ?thesis using b [of "Suc n"] top by auto
  qed (simp add: top)
qed

lemma crc_bytes_inj: "crc_bytes r bs = crc_bytes q bs \<Longrightarrow> r = q"
proof -
  have bits: "crc_bits a ms = crc_bits c ms \<Longrightarrow> a = c" for a c ms
    by (induction ms arbitrary: a c) (auto dest: crc_bit_step_inj)
  show "crc_bytes r bs = crc_bytes q bs \<Longrightarrow> r = q"
    unfolding crc_bytes_reference crc_reference_def by (rule bits)
qed

text \<open>Four bytes fed into two registers that agree afterwards: the registers differ by the bytes' difference.\<close>

lemma crc_four_bytes_zero:
  assumes "length e = 4" and "crc_bytes 0 e = 0"
  shows "e = replicate 4 0"
proof -
  obtain a b c d where e: "e = [a, b, c, d]"
    using assms(1) by (auto simp: length_Suc_conv eval_nat_numeral)
  have "bytes_be32 (be32 a b c d) = e" by (simp add: e endian_simps)
  then have "crc_bytes (be32 a b c d) e = crc_bytes 0 e" using crc_bytes_own assms(2) by metis
  then have "be32 a b c d = 0" by (rule crc_bytes_inj)
  then have "e = bytes_be32 0" using \<open>bytes_be32 (be32 a b c d) = e\<close> by simp
  then show ?thesis by (simp add: bytes_be32_def eval_nat_numeral)
qed

lemma crc_bytes_after_burst:
  assumes "length d = 4" "length d' = 4" and "crc_bytes r (p @ d @ q) = crc_bytes r (p @ d' @ q)"
  shows "map2 (XOR) d d' = replicate 4 0"
proof -
  have "crc_bytes (crc_bytes r p) d = crc_bytes (crc_bytes r p) d'"
    using assms(3) crc_bytes_inj by (metis crc_bytes_append)
  then have "crc_bytes 0 (map2 (XOR) d d') = 0"
    using crc_bytes_xor [of d d' "crc_bytes r p" "crc_bytes r p"] assms by simp
  then show ?thesis using assms by (intro crc_four_bytes_zero) simp_all
qed

lemma crc_detects_burst:
  assumes "length d = 4" "length d' = 4" and "crc_bytes r (p @ d @ q) = crc_bytes r (p @ d' @ q)"
  shows "d = d'"
proof -
  have z: "map2 (XOR) d d' = replicate 4 0" using assms by (rule crc_bytes_after_burst)
  show ?thesis
  proof (rule nth_equalityI)
    fix i assume i: "i < length d"
    then have "map2 (XOR) d d' ! i = 0" unfolding z using assms(1) by simp
    then have "d ! i XOR d' ! i = 0" using i assms by simp
    then have "(d ! i XOR d' ! i) XOR d' ! i = d' ! i" by simp
    then show "d ! i = d' ! i" by (simp add: xor.assoc)
  qed (use assms in simp)
qed

section \<open>Properties\<close>

text \<open>
  Property C26. The table-driven loop over a section computes the shift register of the standard: for
  every start value and every byte string it equals shifting in the bits, most significant first,
  with feedback by the polynomial \<open>0x04C11DB7\<close>. All 256 table entries are right.
\<close>

theorem table_crc_is_bitwise_crc: "crc_bytes r bs = crc_reference r bs"
  by (rule crc_bytes_reference)

text \<open>
  The CRC detects every change within four consecutive bytes, and so every single-byte
  error and every burst of up to 25 bits: two sections that differ only there have different CRCs.
\<close>

lemma crc_detects_four_byte_change:
  assumes "length d = 4" "length d' = 4" "d \<noteq> d'"
  shows "crc_bytes r (p @ d @ q) \<noteq> crc_bytes r (p @ d' @ q)"
  using assms crc_detects_burst by metis

end
