(* ===== verification/Crc_Section.thy ===== *)
theory Crc_Section
  imports Crc32
begin

text \<open>
  What the tables share: a section on the wire is a pointer field, the body and the CRC of the body.
  A table promises that after recomputing its CRC its wire form has that shape; what a receiver can
  rely on follows for every such table.
\<close>

text \<open>The receiver's test of a section with its pointer field in front.\<close>

definition valid_section :: "bytes \<Rightarrow> bool" where
  "valid_section raw \<longleftrightarrow> crc_bytes 0xFFFFFFFF (drop 1 raw) = 0"

locale crc_section =
  fixes wire :: "'s \<Rightarrow> bytes option"
    and refresh :: "'s \<Rightarrow> 's option"
  assumes refresh_wire:
    "refresh s = Some s' \<Longrightarrow> \<exists>h body. wire s' = Some (h # body @ bytes_be32 (crc_bytes 0xFFFFFFFF body))"
begin

lemma refresh_valid: "refresh s = Some s' \<Longrightarrow> \<exists>raw. wire s' = Some raw \<and> valid_section raw"
  using refresh_wire [of s s'] by (auto simp: valid_section_def crc_bytes_append crc_bytes_own)

lemma refresh_detects:
  assumes "refresh s = Some s'" and "wire s' = Some (p @ d @ q)" and "p \<noteq> []"
    and "length d = 4" "length d' = 4" "d \<noteq> d'"
  shows "\<not> valid_section (p @ d' @ q)"
proof
  assume "valid_section (p @ d' @ q)"
  moreover have "valid_section (p @ d @ q)" using refresh_valid [OF assms(1)] assms(2) by auto
  moreover obtain h t where "p = h # t" using assms(3) by (cases p) auto
  ultimately have "crc_bytes 0xFFFFFFFF (t @ d @ q) = crc_bytes 0xFFFFFFFF (t @ d' @ q)"
    by (simp add: valid_section_def)
  then show False using crc_detects_burst [OF assms(4,5)] assms(6) by blast
qed

end

end
