(* ===== verification/Ordered_Map.thy ===== *)
theory Ordered_Map
  imports Mp2tp_Prelude
begin

text \<open>
  \<open>std::map<uint16_t, T>\<close>, which the tables keep their entries in: a list of pairs in ascending order
  of the keys, the order its iterators go in. \<open>insert\<close> never overwrites: it leaves an entry that is
  there, and its second result says whether it inserted.

  The interface \<open>ordered_map\<close> states what the tables rely on. What a client can conclude from it, for
  a sequence of insertions, is proved once from the interface.
\<close>

fun map_insert :: "'k::linorder \<Rightarrow> 'v \<Rightarrow> ('k \<times> 'v) list \<Rightarrow> ('k \<times> 'v) list \<times> bool" where
  "map_insert k v [] = ([(k, v)], True)"
| "map_insert k v ((k', v') # m) =
     (if k < k' then ((k, v) # (k', v') # m, True)
      else if k = k' then ((k', v') # m, False)
      else (let (m', ok) = map_insert k v m in ((k', v') # m', ok)))"

definition map_find :: "('k \<times> 'v) list \<Rightarrow> 'k \<Rightarrow> 'v option" where
  "map_find m k = map_of m k"

definition map_sorted :: "('k::linorder \<times> 'v) list \<Rightarrow> bool" where
  "map_sorted m \<longleftrightarrow> sorted_wrt (<) (map fst m)"

lemma sorted_entries_unique:
  fixes a b :: "('k::linorder \<times> 'v) list"
  assumes "sorted_wrt (<) (map fst a)" "sorted_wrt (<) (map fst b)" and "map_of a = map_of b"
  shows "a = b"
proof -
  have d: "distinct (map fst a)" "sorted (map fst a)" "distinct (map fst b)" "sorted (map fst b)"
    using assms(1,2) by (simp_all add: strict_sorted_iff)
  have eq: "set a = set b"
  proof -
    have "(k, v) \<in> set a \<longleftrightarrow> (k, v) \<in> set b" for k v
      using map_of_eq_Some_iff [OF d(1), of k v] map_of_eq_Some_iff [OF d(3), of k v] assms(3) by simp
    then show ?thesis by auto
  qed
  show ?thesis
    using d eq eq_key_imp_eq_value [OF d(1)]
    by (intro map_sorted_distinct_set_unique [where f = fst]) (auto simp: inj_on_def)
qed

locale ordered_map =
  fixes ins :: "'k::linorder \<Rightarrow> 'v \<Rightarrow> 'm \<Rightarrow> 'm" and look :: "'m \<Rightarrow> 'k \<Rightarrow> 'v option"
    and entries :: "'m \<Rightarrow> ('k \<times> 'v) list" and nil :: 'm and inv :: "'m \<Rightarrow> bool"
  assumes inv_nil: "inv nil" and inv_ins: "inv m \<Longrightarrow> inv (ins k v m)"
    and look_nil: "look nil k = None"
    and look_ins: "inv m \<Longrightarrow>
      look (ins k v m) k' = (if k' = k \<and> look m k = None then Some v else look m k')"
    and entries_sorted: "inv m \<Longrightarrow> sorted_wrt (<) (map fst (entries m))"
    and map_of_entries: "inv m \<Longrightarrow> map_of (entries m) = look m"
begin

definition ins_all :: "('k \<times> 'v) list \<Rightarrow> 'm \<Rightarrow> 'm" where
  "ins_all kvs m = fold (\<lambda>(k, v). ins k v) kvs m"

lemma inv_ins_all: "inv m \<Longrightarrow> inv (ins_all kvs m)"
  unfolding ins_all_def by (induction kvs arbitrary: m) (auto intro: inv_ins)

text \<open>What was there stays; of several entries with the same key the first one wins.\<close>

lemma look_ins_all:
  "inv m \<Longrightarrow> look (ins_all kvs m) k = (case look m k of Some v \<Rightarrow> Some v | None \<Rightarrow> map_of kvs k)"
  unfolding ins_all_def
proof (induction kvs arbitrary: m)
  case (Cons kv kvs)
  then show ?case by (cases kv) (auto simp: inv_ins look_ins split: option.splits)
qed (simp split: option.splits)

text \<open>Inserting sorted entries into the empty map gives a map with exactly these entries.\<close>

lemma entries_ins_all:
  assumes "sorted_wrt (<) (map fst kvs)"
  shows "entries (ins_all kvs nil) = kvs"
proof -
  have "map_of (entries (ins_all kvs nil)) = map_of kvs"
    using look_ins_all [OF inv_nil, of kvs] map_of_entries [OF inv_ins_all [OF inv_nil], of kvs]
    by (simp add: look_nil fun_eq_iff)
  moreover have "sorted_wrt (<) (map fst (entries (ins_all kvs nil)))"
    by (intro entries_sorted inv_ins_all inv_nil)
  ultimately show ?thesis using assms by (intro sorted_entries_unique)
qed

end

section \<open>The interface holds of the sorted list\<close>

lemma map_insert_keys: "fst ` set (fst (map_insert k v m)) = insert k (fst ` set m)"
  by (induction k v m rule: map_insert.induct) (auto simp: split_beta Let_def)

lemma map_insert_sorted: "map_sorted m \<Longrightarrow> map_sorted (fst (map_insert k v m))"
proof (induction k v m rule: map_insert.induct)
  case (2 k v k' v' m)
  have "\<forall>x \<in> set m. k' < fst x" using 2(2) by (simp add: map_sorted_def)
  then have "\<forall>x \<in> fst ` set (fst (map_insert k v m)). k' < x" if "k' < k"
    using that unfolding map_insert_keys by auto
  moreover have "map_sorted (fst (map_insert k v m))" if "k' < k"
    using that 2 by (auto simp: map_sorted_def)
  ultimately show ?case using 2(2) by (force simp: map_sorted_def split_beta Let_def)
qed (simp add: map_sorted_def)

lemma map_sorted_Cons_None: "map_sorted ((k', v') # m) \<Longrightarrow> k < k' \<Longrightarrow> map_of m k = None"
  by (auto simp: map_sorted_def map_of_eq_None_iff dest: bspec)

lemma map_insert_new: "map_sorted m \<Longrightarrow> snd (map_insert k v m) \<longleftrightarrow> map_of m k = None"
proof (induction k v m rule: map_insert.induct)
  case (2 k v k' v' m)
  then show ?case using map_sorted_Cons_None [OF 2(2), of k]
    by (auto simp: split_beta Let_def map_sorted_def)
qed simp

lemma map_insert_old: "map_sorted m \<Longrightarrow> map_of m k \<noteq> None \<Longrightarrow> fst (map_insert k v m) = m"
proof (induction k v m rule: map_insert.induct)
  case (2 k v k' v' m)
  then show ?case using map_sorted_Cons_None [OF 2(2), of k]
    by (auto simp: split_beta Let_def map_sorted_def)
qed simp

lemma map_insert_look:
  "map_sorted m \<Longrightarrow>
   map_of (fst (map_insert k v m)) k' = (if k' = k \<and> map_of m k = None then Some v else map_of m k')"
proof (induction k v m rule: map_insert.induct)
  case (2 k v x v' m)
  then show ?case using map_sorted_Cons_None [OF 2(2), of k]
    by (auto simp: split_beta Let_def map_sorted_def)
qed simp

interpretation std_map: ordered_map "\<lambda>k v m. fst (map_insert k v m)" map_find "\<lambda>m. m" "[]" map_sorted
  by unfold_locales
     (auto simp: map_insert_sorted map_find_def map_insert_look fun_eq_iff, simp_all add: map_sorted_def)

end
