(* ===== verification/Program_Association.thy ===== *)
theory Program_Association
  imports Crc_Section Ordered_Map
begin

text \<open>
  \<open>lcss::ProgramAssociationTable\<close> (\<open>tspat.cpp\<close>): the section that maps the PID of each program map
  table to its program number. \<open>pid_to_program_\<close> is a sorted list (\<open>std::map\<close>), the bit fields have
  their width, and an offset into the section is a natural number: it is at most 255 + 4103, so
  that the code's \<open>uint32_t\<close> does not wrap.
\<close>

record pat =
  pat_pointer_field :: u8
  pat_table_id :: u8
  pat_section_length :: u16
  pat_transport_stream_id :: u16
  pat_reserved :: "2 word"
  pat_version_number :: "5 word"
  pat_current_next :: "1 word"
  pat_section_number :: u8
  pat_last_section_number :: u8
  pat_CRC_32 :: u32
  pid_to_program :: "(u16 \<times> u16) list"

definition new_pat :: pat where
  "new_pat = \<lparr>pat_pointer_field = 0, pat_table_id = 0, pat_section_length = 13,
     pat_transport_stream_id = 1, pat_reserved = 3, pat_version_number = 0, pat_current_next = 0,
     pat_section_number = 0, pat_last_section_number = 0, pat_CRC_32 = 0, pid_to_program = []\<rparr>"

text \<open>The copy constructor of \<open>Impl\<close>: the entries are inserted into an empty map.\<close>

definition pat_copy :: "pat \<Rightarrow> pat" where
  "pat_copy other = \<lparr>pat_pointer_field = pat_pointer_field other, pat_table_id = pat_table_id other,
     pat_section_length = pat_section_length other,
     pat_transport_stream_id = pat_transport_stream_id other, pat_reserved = 3,
     pat_version_number = pat_version_number other, pat_current_next = pat_current_next other,
     pat_section_number = pat_section_number other,
     pat_last_section_number = pat_last_section_number other, pat_CRC_32 = pat_CRC_32 other,
     pid_to_program = fold (\<lambda>(k, v) m. fst (map_insert k v m)) (pid_to_program other) []\<rparr>"

definition pat_size :: "pat \<Rightarrow> nat" where
  "pat_size p = length (pid_to_program p)"

definition pat_find :: "pat \<Rightarrow> u16 \<Rightarrow> u16 option" where
  "pat_find p pid = map_find (pid_to_program p) pid"

definition pat_current_next_indicator :: "pat \<Rightarrow> bool" where
  "pat_current_next_indicator p \<longleftrightarrow> pat_current_next p \<noteq> 0"

section \<open>Parsing\<close>

text \<open>\<open>while (cur < last)\<close>: program number, then PID; an entry whose PID is known is not inserted.\<close>

function pat_parse_entries ::
  "bytes \<Rightarrow> nat \<Rightarrow> nat \<Rightarrow> (u16 \<times> u16) list \<Rightarrow> (nat \<times> (u16 \<times> u16) list) option" where
  "pat_parse_entries table cur stop m =
     (if cur < stop then do {
        program \<leftarrow> rd16 table cur;
        pid \<leftarrow> rd16 table (cur + 2);
        let program = ntohs program;
        let pid = ntohs pid AND 0x1FFF;
        pat_parse_entries table (cur + 4) stop
          (if map_find m pid = None then fst (map_insert pid program m) else m)
      } else Some (cur, m))"
  by pat_completeness auto
termination
  by (relation "measure (\<lambda>(table, cur, stop, m). stop - cur)") auto

declare pat_parse_entries.simps [simp del]

definition pat_parse :: "bytes \<Rightarrow> pat \<Rightarrow> pat option" where
  "pat_parse table p = do {
     pointer \<leftarrow> rd table 0;
     let offset = (if pointer = 0 then 1 else unat pointer);
     id \<leftarrow> rd table offset;
     sl \<leftarrow> rd16 table (offset + 1);
     let sl = ntohs sl AND 0x0FFF;
     tsid \<leftarrow> rd16 table (offset + 3);
     b \<leftarrow> rd table (offset + 5);
     sn \<leftarrow> rd table (offset + 6);
     lsn \<leftarrow> rd table (offset + 7);
     let cur = offset + 8;
     (cur, m) \<leftarrow> pat_parse_entries table cur (cur + unat sl - 9) (pid_to_program p);
     crc \<leftarrow> rd32 table cur;
     Some (p\<lparr>pat_pointer_field := pointer, pat_table_id := id, pat_section_length := sl,
       pat_transport_stream_id := ntohs tsid, pat_version_number := ucast (b AND 0x3E),
       pat_current_next := ucast (b AND 0x01), pat_section_number := sn,
       pat_last_section_number := lsn, pat_CRC_32 := ntohl crc, pid_to_program := m\<rparr>) }"

section \<open>Serialising, and adding a program\<close>

definition pat_entry_bytes :: "u16 \<times> u16 \<Rightarrow> bytes" where
  "pat_entry_bytes e = (case e of (pid, program) \<Rightarrow>
     (let buf = bytes16 program; buf2 = bytes16 pid in
      [buf ! 1, buf ! 0, buf2 ! 1 OR 0xE0, buf2 ! 0]))"

definition pat_serialize :: "pat \<Rightarrow> bytes" where
  "pat_serialize p =
     (let sz = (word_of_nat (pat_size p) :: u16);
          section_len = 9 + sz * 4;
          buf = bytes16 (htons section_len);
          ts = bytes16 (pat_transport_stream_id p)
      in [pat_pointer_field p, pat_table_id p, buf ! 0 OR 0xB0, buf ! 1, ts ! 1, ts ! 0, 0xC1,
          pat_section_number p, pat_last_section_number p]
         @ concat (map pat_entry_bytes (pid_to_program p)) @ bytes_be32 (pat_CRC_32 p))"

text \<open>\<open>calcCRC\<close>: the bytes from index 1 to \<open>size() - 4\<close> of the serialised table.\<close>

definition pat_calcCRC :: "pat \<Rightarrow> pat" where
  "pat_calcCRC p =
     (let raw = pat_serialize p
      in p\<lparr>pat_CRC_32 := crc_bytes 0xFFFFFFFF (take (length raw - 4 - 1) (drop 1 raw))\<rparr>)"

text \<open>The result says whether the returned iterator is the new entry or \<open>end()\<close>.\<close>

definition addProgram :: "pat \<Rightarrow> u16 \<Rightarrow> u16 \<Rightarrow> pat \<times> bool" where
  "addProgram p program pid =
     (let (m, inserted) = map_insert pid program (pid_to_program p);
          p' = p\<lparr>pid_to_program := m\<rparr>
      in if inserted then (pat_calcCRC p', True) else (p', False))"

definition wf_pat :: "pat \<Rightarrow> bool" where
  "wf_pat p \<longleftrightarrow> map_sorted (pid_to_program p)"

lemma pat_copy_eq: "wf_pat p \<Longrightarrow> pat_copy p = p\<lparr>pat_reserved := 3\<rparr>"
  using std_map.entries_ins_all [of "pid_to_program p"]
  by (simp add: pat_copy_def wf_pat_def map_sorted_def std_map.ins_all_def)

section \<open>The wire form\<close>

lemma pat_entry_bytes_eq: "pat_entry_bytes (pid, program) = [hi8 program, lo8 program, hi8 pid OR 0xE0, lo8 pid]"
  by (simp add: pat_entry_bytes_def bytes16_def)

lemma length_pat_entry_bytes [simp]: "length (pat_entry_bytes e) = 4"
  by (cases e) (simp add: pat_entry_bytes_eq)

lemma length_pat_entries [simp]: "length (concat (map pat_entry_bytes es)) = 4 * length es"
  by (induction es) auto

lemma pid_of_entry: "pid < 0x2000 \<Longrightarrow> be16 (hi8 pid OR 0xE0) (lo8 pid) AND 0x1FFF = pid"
proof -
  have "be16 (hi8 pid OR 0xE0) (lo8 pid) AND 0x1FFF = pid AND 0x1FFF"
    by (rule bit_word_eqI) (auto simp: be16_def hi8_def lo8_def bit_simps word_bits)
  then show "pid < 0x2000 \<Longrightarrow> ?thesis" by (simp add: pid_mask_eq)
qed

lemma insert_if_absent:
  "map_sorted m \<Longrightarrow> (if map_find m k = None then fst (map_insert k v m) else m) = fst (map_insert k v m)"
  by (simp add: map_find_def map_insert_old)

lemma pat_parse_entries_eq:
  "table = pre @ concat (map pat_entry_bytes es) @ post \<Longrightarrow> list_all (\<lambda>(pid, _). pid < 0x2000) es \<Longrightarrow>
   map_sorted m \<Longrightarrow>
   pat_parse_entries table (length pre) (length pre + 4 * length es) m =
     Some (length pre + 4 * length es, std_map.ins_all es m)"
proof (induction es arbitrary: pre m)
  case Nil
  then show ?case by (subst pat_parse_entries.simps) (simp add: std_map.ins_all_def)
next
  case (Cons e es)
  obtain pid program where e: "e = (pid, program)" by (cases e)
  have pid: "pid < 0x2000" using Cons.prems(2) e by simp
  define rest where "rest = concat (map pat_entry_bytes es) @ post"
  have table: "table = pre @ [hi8 program, lo8 program, hi8 pid OR 0xE0, lo8 pid] @ rest"
    using Cons.prems(1) by (simp add: e pat_entry_bytes_eq rest_def)
  have program: "rd16 table (length pre) = Some (le16 (hi8 program) (lo8 program))"
    and pid_read: "rd16 table (length pre + 2) = Some (le16 (hi8 pid OR 0xE0) (lo8 pid))"
    by (simp_all add: table rd16_def rd_append)
  have "pat_parse_entries table (length pre) (length pre + 4 * length (e # es)) m =
      pat_parse_entries table (length pre + 4) (length pre + 4 * length (e # es)) (fst (map_insert pid program m))"
    using program pid_read Cons.prems(3)
    by (subst pat_parse_entries.simps)
       (simp add: Let_def endian_simps pid_of_entry [OF pid] insert_if_absent)
  also have "\<dots> = Some (length pre + 4 * length (e # es), std_map.ins_all es (fst (map_insert pid program m)))"
    using Cons.IH [of "pre @ pat_entry_bytes e" "fst (map_insert pid program m)"] Cons.prems
    by (simp add: e map_insert_sorted add.assoc)
  finally show ?case by (simp add: std_map.ins_all_def e)
qed

text \<open>The parser reads the whole section, as far as its length field tells, and nothing behind it.\<close>

lemma pat_parse_entries_end:
  "pat_parse_entries table cur stop m = Some (cur', m') \<Longrightarrow> cur' = cur + 4 * ((stop - cur + 3) div 4)"
proof (induction table cur stop m rule: pat_parse_entries.induct)
  case (1 table cur stop m)
  show ?case
  proof (cases "cur < stop")
    case True
    then have "stop - cur + 3 = stop - (cur + 4) + 3 + 4 \<or> stop - cur \<le> 4" by auto
    then have count: "(stop - cur + 3) div 4 = Suc ((stop - (cur + 4) + 3) div 4)" using True by auto
    from 1(2) True obtain program pid where
      rest: "pat_parse_entries table (cur + 4) stop (if map_find m (ntohs pid AND 8191) = None
         then fst (map_insert (ntohs pid AND 8191) (ntohs program) m) else m) = Some (cur', m')"
      and r: "rd16 table cur = Some program" "rd16 table (cur + 2) = Some pid"
      by (subst (asm) pat_parse_entries.simps) (auto simp: Let_def split: bind_splits)
    then show ?thesis unfolding count using 1(1) [OF True r refl refl rest] by simp
  qed (use 1(2) in \<open>simp add: pat_parse_entries.simps [of table cur stop m]\<close>)
qed

lemma pat_parse_entries_defined:
  "cur < stop \<Longrightarrow> pat_parse_entries table cur stop m \<noteq> None \<longleftrightarrow>
     cur + 4 * ((stop - cur + 3) div 4) \<le> length table"
proof (induction table cur stop m rule: pat_parse_entries.induct)
  case (1 table cur stop m)
  have step: "stop - cur + 3 = stop - (cur + 4) + 3 + 4 \<or> stop - cur \<le> 4" using 1(2) by auto
  then have count: "(stop - cur + 3) div 4 = Suc ((stop - (cur + 4) + 3) div 4)" using 1(2) by auto
  show ?case
  proof (cases "cur + 4 \<le> length table")
    case True
    then obtain program pid where r: "rd16 table cur = Some program" "rd16 table (cur + 2) = Some pid"
      using rd16_defined [of table cur] rd16_defined [of table "cur + 2"] by auto
    have "pat_parse_entries table cur stop m = pat_parse_entries table (cur + 4) stop
        (if map_find m (ntohs pid AND 8191) = None
         then fst (map_insert (ntohs pid AND 8191) (ntohs program) m) else m)"
      using r 1(2) by (subst pat_parse_entries.simps) (simp add: Let_def)
    moreover have "pat_parse_entries table (cur + 4) stop m' = Some (cur + 4, m')" if "\<not> cur + 4 < stop" for m'
      using that by (subst pat_parse_entries.simps) simp
    ultimately show ?thesis
      unfolding count using 1(1) [OF 1(2) r refl refl] True by (cases "cur + 4 < stop") auto
  next
    case False
    then have "rd16 table cur = None \<or> rd16 table (cur + 2) = None"
      using rd16_defined [of table cur] rd16_defined [of table "cur + 2"] by auto
    then have "pat_parse_entries table cur stop m = None"
      using 1(2) by (subst pat_parse_entries.simps) (auto split: bind_splits)
    then show ?thesis unfolding count using False by simp
  qed
qed

section \<open>Serialised sections\<close>

lemma pat_serialize_eq:
  "pat_serialize p =
     (let len = 9 + 4 * word_of_nat (pat_size p) :: u16 in
      [pat_pointer_field p, pat_table_id p, hi8 len OR 0xB0, lo8 len,
       hi8 (pat_transport_stream_id p), lo8 (pat_transport_stream_id p), 0xC1,
       pat_section_number p, pat_last_section_number p]
      @ concat (map pat_entry_bytes (pid_to_program p)) @ bytes_be32 (pat_CRC_32 p))"
  by (simp add: pat_serialize_def endian_simps Let_def mult.commute) (simp add: bytes16_def)

interpretation pat_crc: crc_section "\<lambda>p. Some (pat_serialize p)" "\<lambda>p. Some (pat_calcCRC p)"
proof
  fix p q assume q: "Some (pat_calcCRC p) = Some q"
  obtain body where raw: "pat_serialize (p\<lparr>pat_CRC_32 := c\<rparr>) = pat_pointer_field p # body @ bytes_be32 c" for c
    by (simp add: pat_serialize_eq pat_size_def Let_def)
  have "pat_serialize p = pat_pointer_field p # body @ bytes_be32 (pat_CRC_32 p)"
    using raw [of "pat_CRC_32 p"] by simp
  then have "q = p\<lparr>pat_CRC_32 := crc_bytes 0xFFFFFFFF body\<rparr>"
    using q by (simp add: pat_calcCRC_def)
  then show "\<exists>h body. Some (pat_serialize q) = Some (h # body @ bytes_be32 (crc_bytes 0xFFFFFFFF body))"
    by (simp add: raw)
qed

lemma pat_calcCRC_residue: "crc_bytes 0xFFFFFFFF (drop 1 (pat_serialize (pat_calcCRC p))) = 0"
  using pat_crc.refresh_valid [of p] by (simp add: valid_section_def)

lemma section_length_field:
  assumes "len \<le> 0xFFF"
  shows "be16 (hi8 len OR 0xB0) (lo8 len) AND 0xFFF = len"
proof -
  have "be16 (hi8 len OR 0xB0) (lo8 len) AND 0xFFF = len AND mask 12"
    by (rule bit_word_eqI) (auto simp: be16_def hi8_def lo8_def bit_simps word_bits mask_eq_exp_minus_1)
  also have "\<dots> = len" using assms by (intro less_mask_eq) (simp add: word_le_nat_alt word_less_nat_alt)
  finally show ?thesis .
qed

lemma pat_find_insert:
  "wf_pat p \<Longrightarrow> map_insert pid program (pid_to_program p) = (m, ok) \<Longrightarrow>
   ok = (pat_find p pid = None) \<and> map_sorted m \<and>
   (\<forall>k. map_find m k = (if k = pid \<and> ok then Some program else pat_find p k)) \<and> (\<not> ok \<longrightarrow> m = pid_to_program p)"
  using map_insert_new [of "pid_to_program p" pid program] map_insert_sorted [of "pid_to_program p" pid program]
    map_insert_look [of "pid_to_program p" pid program] map_insert_old [of "pid_to_program p" pid program]
  by (auto simp: wf_pat_def pat_find_def map_find_def)

lemma pat_parse_serialize:
  assumes "wf_pat p" and "pat_pointer_field p = 0" and "length (pid_to_program p) \<le> 1021"
    and "list_all (\<lambda>(pid, _). pid < 0x2000) (pid_to_program p)"
  shows "pat_parse (pat_serialize p @ rest) new_pat =
    Some (p\<lparr>pat_section_length := word_of_nat (9 + 4 * length (pid_to_program p)), pat_reserved := 3,
            pat_version_number := 0, pat_current_next := 1\<rparr>)"
proof -
  define es where "es = pid_to_program p"
  define len where "len = (9 + 4 * word_of_nat (length es) :: u16)"
  have n: "length es \<le> 1021" using assms(3) by (simp add: es_def)
  have len: "len = word_of_nat (9 + 4 * length es)" "len \<le> 0xFFF" "unat len = 9 + 4 * length es"
    using n by (simp_all add: len_def word_le_nat_alt unat_word_ariths)
  define pre where "pre = [0, pat_table_id p, hi8 len OR 0xB0, lo8 len, hi8 (pat_transport_stream_id p),
      lo8 (pat_transport_stream_id p), 0xC1, pat_section_number p, pat_last_section_number p]"
  define crc where "crc = bytes_be32 (pat_CRC_32 p) @ rest"
  have raw: "pat_serialize p @ rest = pre @ concat (map pat_entry_bytes es) @ crc"
    by (simp add: pat_serialize_eq pre_def crc_def Let_def len_def es_def pat_size_def assms(2))
  have entries: "pat_parse_entries (pre @ concat (map pat_entry_bytes es) @ crc) 9 (9 + 4 * length es) []
      = Some (9 + 4 * length es, es)"
  proof -
    have l: "length pre = 9" by (simp add: pre_def)
    show ?thesis
      using pat_parse_entries_eq [OF refl, of es "[]" pre crc] assms(1,4)
        std_map.entries_ins_all [of es] unfolding l
      by (simp add: es_def wf_pat_def map_sorted_def)
  qed
  have "rd32 ((pre @ concat (map pat_entry_bytes es)) @ bytes_be32 (pat_CRC_32 p) @ rest) (9 + 4 * length es)
      = Some (ntohl (pat_CRC_32 p))"
    by (rule rd32_bytes_be32) (simp add: pre_def)
  then have crc_read: "rd32 (pre @ concat (map pat_entry_bytes es) @ crc) (9 + 4 * length es)
      = Some (ntohl (pat_CRC_32 p))"
    by (simp add: crc_def)
  show ?thesis
    unfolding raw pat_parse_def
    using entries crc_read len section_length_field [OF len(2)]
    by (simp add: pre_def rd16_def endian_simps new_pat_def) (simp add: es_def assms(2))
qed

lemma pat_parse_defined:
  assumes "offset = (if table ! 0 = 0 then 1 else unat (table ! 0))" and "offset + 8 \<le> length table"
    and "sl = unat (be16 (table ! (offset + 1)) (table ! (offset + 2)) AND 0xFFF)"
  shows "(\<exists>q. pat_parse table p = Some q) \<longleftrightarrow>
    offset + 8 + 4 * ((sl - 9 + 3) div 4) + 4 \<le> length table"
proof -
  define cur where "cur = offset + 8"
  have sub: "cur + sl - 9 - cur = sl - 9" and cur: "9 \<le> cur" using assms(1)
    by (auto simp: cur_def simp flip: unat_gt_0)
  have rds: "rd table 0 = Some (table ! 0)" "rd16 table (offset + 1) = Some (le16 (table ! (offset + 1)) (table ! (offset + 2)))"
    using assms(2) by (auto simp: rd_def rd16_def)
  have some: "\<exists>a. rd table (offset + k) = Some a" if "k < 8" for k
    using that assms(2) by (auto simp: rd_def)
  obtain tsid where tsid: "rd16 table (offset + 3) = Some tsid"
    using rd16_defined [of table "offset + 3"] assms(2) by auto
  obtain id b sn lsn where "rd table offset = Some id" "rd table (offset + 5) = Some b"
      "rd table (offset + 6) = Some sn" "rd table (offset + 7) = Some lsn"
    using some [of 0] some [of 5] some [of 6] some [of 7] by auto
  note rds = rds tsid this
  define entries where "entries = pat_parse_entries table cur (cur + sl - 9) (pid_to_program p)"
  have parse: "(\<exists>q. pat_parse table p = Some q) \<longleftrightarrow> (\<exists>c m crc. entries = Some (c, m) \<and> rd32 table c = Some crc)"
    using rds by (auto simp: pat_parse_def Let_def assms(1,3) endian_simps entries_def cur_def
      split: bind_splits)
  have "(\<exists>crc. rd32 table c = Some crc) \<longleftrightarrow> c + 4 \<le> length table" for c
    using rd32_defined [of table c] by auto
  then have crc: "(\<exists>q. pat_parse table p = Some q) \<longleftrightarrow> (\<exists>c m. entries = Some (c, m) \<and> c + 4 \<le> length table)"
    unfolding parse by blast
  show ?thesis
  proof (cases "9 < sl")
    case True
    then have lt: "cur < cur + sl - 9" by linarith
    have "c = cur + 4 * ((sl - 9 + 3) div 4)" if "entries = Some (c, m)" for c m
      using pat_parse_entries_end [OF that [unfolded entries_def]] unfolding sub .
    moreover have "entries \<noteq> None \<longleftrightarrow> cur + 4 * ((sl - 9 + 3) div 4) \<le> length table"
      using pat_parse_entries_defined [OF lt] unfolding entries_def sub .
    ultimately show ?thesis unfolding crc cur_def [symmetric] by fastforce
  next
    case False
    then have "\<not> cur < cur + sl - 9" by linarith
    then have "entries = Some (cur, pid_to_program p)"
      unfolding entries_def by (subst pat_parse_entries.simps) (rule if_not_P)
    then show ?thesis using False unfolding crc by (simp add: cur_def)
  qed
qed

section \<open>Properties\<close>

text \<open>
  Property C24. \<open>addProgram\<close> adds an entry exactly when the PID has none yet: no entry is lost or
  overwritten, the map stays sorted, and the table that \<open>serialize\<close> then writes carries a correct
  CRC, so the bytes after the pointer field bring a receiver's register to 0. For a known PID nothing
  changes and the result is \<open>end()\<close>.
\<close>

theorem addProgram_correct:
  assumes "wf_pat p" and "addProgram p program pid = (q, ok)"
  shows "wf_pat q \<and> (ok \<longleftrightarrow> pat_find p pid = None) \<and>
    (\<forall>k. pat_find q k = (if k = pid \<and> ok then Some program else pat_find p k)) \<and>
    (if ok then crc_bytes 0xFFFFFFFF (drop 1 (pat_serialize q)) = 0 else q = p)"
proof -
  obtain m ins where m: "map_insert pid program (pid_to_program p) = (m, ins)" by fastforce
  note facts = pat_find_insert [OF assms(1) m]
  have q: "q = (if ins then pat_calcCRC (p\<lparr>pid_to_program := m\<rparr>) else p\<lparr>pid_to_program := m\<rparr>)" "ok = ins"
    using assms(2) m by (auto simp: addProgram_def Let_def split: if_splits)
  show ?thesis
    using facts q assms(1) pat_calcCRC_residue [of "p\<lparr>pid_to_program := m\<rparr>"]
    by (auto simp: wf_pat_def pat_find_def pat_calcCRC_def Let_def)
qed

theorem addProgram_correct_witness:
  "pat_find (fst (addProgram new_pat 1 0x100)) 0x100 = Some 1 \<and> snd (addProgram new_pat 1 0x100) \<and>
   crc_bytes 0xFFFFFFFF (drop 1 (pat_serialize (fst (addProgram new_pat 1 0x100)))) = 0"
proof -
  have start: "wf_pat new_pat" "pat_find new_pat 0x100 = None"
    by (simp_all add: wf_pat_def map_sorted_def new_pat_def pat_find_def map_find_def)
  show ?thesis
    using addProgram_correct [OF start(1) surjective_pairing [of "addProgram new_pat 1 0x100"]]
    by (auto simp: start(2))
qed

text \<open>
  Property C23. Round trip: what \<open>serialize\<close> writes, with any bytes behind it, \<open>parse\<close> reads back into a
  fresh table with the same programs, CRC and header fields. The version is 0 and
  \<open>current_next_indicator\<close> is set whatever the table said, because \<open>serialize\<close> writes a constant
  there.
\<close>

theorem pat_roundtrip:
  assumes "wf_pat p" and "pat_pointer_field p = 0" and "length (pid_to_program p) \<le> 1021"
    and "list_all (\<lambda>(pid, _). pid < 0x2000) (pid_to_program p)"
  shows "pat_parse (pat_serialize p @ rest) new_pat =
    Some (p\<lparr>pat_section_length := word_of_nat (9 + 4 * length (pid_to_program p)), pat_reserved := 3,
            pat_version_number := 0, pat_current_next := 1\<rparr>)"
  using assms by (rule pat_parse_serialize)

theorem pat_roundtrip_witness:
  "pat_parse (pat_serialize (new_pat\<lparr>pid_to_program := [(0x20, 1), (0x100, 7)]\<rparr>) @ [0xFF]) new_pat =
   Some (new_pat\<lparr>pid_to_program := [(0x20, 1), (0x100, 7)], pat_section_length := 17,
     pat_version_number := 0, pat_current_next := 1\<rparr>)"
  by (subst pat_roundtrip) (simp_all add: wf_pat_def map_sorted_def new_pat_def)

text \<open>
  \<open>parse\<close> takes the section length on trust: it has a defined result exactly when the
  bytes contain as many whole entries as the length field announces and the CRC behind them. Lengths
  below 9 are read as an empty table.
\<close>

lemma pat_parse_defined_iff:
  assumes "offset = (if table ! 0 = 0 then 1 else unat (table ! 0))" and "offset + 8 \<le> length table"
    and "sl = unat (be16 (table ! (offset + 1)) (table ! (offset + 2)) AND 0xFFF)"
  shows "(\<exists>q. pat_parse table p = Some q) \<longleftrightarrow>
    offset + 8 + 4 * ((sl - 9 + 3) div 4) + 4 \<le> length table"
  using assms by (rule pat_parse_defined)

text \<open>
  Two fields are not the ones of ISO/IEC 13818-1. For a pointer field \<open>k > 0\<close> the section is
  read from byte \<open>k\<close>, the last of the \<open>k\<close> filler bytes, instead of byte \<open>k + 1\<close>. The version number is
  taken without shifting out \<open>current_next_indicator\<close> and cut to five bits: \<open>version_number()\<close> is twice
  the version's low four bits.
\<close>

lemma pat_parse_version_and_pointer:
  assumes "pat_parse table p = Some q" and "offset = (if table ! 0 = 0 then 1 else unat (table ! 0))"
    and "v = unat (table ! (offset + 5)) div 2 mod 32"
  shows "pat_table_id q = table ! offset \<and> pat_pointer_field q = table ! 0 \<and>
    unat (pat_version_number q) = 2 * (v mod 16)"
proof -
  have version: "unat (ucast (b AND 0x3E) :: 5 word) = 2 * (unat b div 2 mod 32 mod 16)" for b :: u8
  proof -
    have "unat (ucast (b AND 0x3E) :: 5 word) = push_bit k (take_bit 4 (take_bit 5 (drop_bit 1 (unat b))))"
      if "k = 1" for k
    proof (rule bit_eqI)
      fix n
      have "bit (unat (ucast (b AND 0x3E) :: 5 word)) n \<longleftrightarrow> 1 \<le> n \<and> n < 5 \<and> bit b n"
        by (auto simp: bit_simps word_bits bit_unsigned_iff)
      then show "bit (unat (ucast (b AND 0x3E) :: 5 word)) n =
          bit (push_bit k (take_bit 4 (take_bit 5 (drop_bit 1 (unat b))))) n"
        by (simp only: bit_push_bit_iff bit_take_bit_iff bit_drop_bit_eq that) (auto simp: bit_unsigned_iff)
    qed
    from this [OF refl] show ?thesis by (simp add: push_bit_eq_mult take_bit_eq_mod drop_bit_eq_div)
  qed
  obtain b where b: "rd table (offset + 5) = Some b" "pat_version_number q = ucast (b AND 0x3E)"
      "rd table offset = Some (pat_table_id q)" "rd table 0 = Some (pat_pointer_field q)"
    using assms(1,2) by (auto simp: pat_parse_def Let_def rd_def split: bind_splits if_splits)
  then show ?thesis using version [of b] assms(3) by (simp add: rd_Some_iff)
qed

text \<open>
  Parsing a new version into the same table only adds programs: every entry that was there
  keeps its program number, whatever the new section says about its PID.
\<close>

lemma pat_reparse_keeps_entries:
  assumes "wf_pat p" and "pat_parse table p = Some q" and "pat_find p pid = Some program"
  shows "wf_pat q \<and> pat_find q pid = Some program"
proof -
  have "map_sorted m \<Longrightarrow> pat_parse_entries table cur stop m = Some (c, m') \<Longrightarrow>
      map_sorted m' \<and> (\<forall>v. map_find m pid = Some v \<longrightarrow> map_find m' pid = Some v)" for cur stop m c m'
  proof (induction table cur stop m rule: pat_parse_entries.induct)
    case (1 table cur stop m)
    show ?case
    proof (cases "cur < stop")
      case True
      obtain prog k where rest: "pat_parse_entries table (cur + 4) stop
          (if map_find m (ntohs k AND 8191) = None then fst (map_insert (ntohs k AND 8191) (ntohs prog) m) else m)
          = Some (c, m')"
        and r: "rd16 table cur = Some prog" "rd16 table (cur + 2) = Some k"
        using 1(3) True by (subst (asm) pat_parse_entries.simps) (auto simp: Let_def split: bind_splits)
      show ?thesis
        using 1(1) [OF True r refl refl _ rest] 1(2) unfolding insert_if_absent [OF 1(2)]
        by (auto simp: map_insert_sorted map_find_def map_insert_look split: if_splits)
    qed (use 1 in \<open>simp add: pat_parse_entries.simps [of table cur stop m]\<close>)
  qed
  then show ?thesis using assms
    by (auto simp: pat_parse_def Let_def wf_pat_def pat_find_def split: bind_splits)
qed

end
