(* ===== verification/Psi_Descriptors.thy ===== *)
theory Psi_Descriptors
  imports Mp2tp_Prelude
begin

text \<open>
  \<open>lcss::Descriptor\<close> and \<open>lcss::ProgramElement\<close> (\<open>tspmt.cpp\<close>), which the program map table and the
  network information table share, with the loops that read descriptors from a section and the ones
  that write them back.
\<close>

lemma unat_ucast_u8_u16: "unat (ucast (x :: u8) :: u16) = unat x"
  by (rule bit_eqI) (auto simp: bit_simps bit_unsigned_iff dest: bit_imp_le_length)

section \<open>Descriptor\<close>

record descriptor =
  dtag :: u8
  dvalue :: bytes

definition new_descriptor :: "u8 \<Rightarrow> descriptor" where
  "new_descriptor tag = \<lparr>dtag = tag, dvalue = []\<rparr>"

definition setValue :: "bytes \<Rightarrow> u16 \<Rightarrow> descriptor \<Rightarrow> descriptor option" where
  "setValue newval len d = do { v \<leftarrow> rd_n newval 0 (unat len); Some (d\<lparr>dvalue := v\<rparr>) }"

definition descriptor_length :: "descriptor \<Rightarrow> u8" where
  "descriptor_length d = word_of_nat (length (dvalue d))"

text \<open>\<open>value\<close> copies the whole value to the caller's array.\<close>

definition descriptor_value :: "descriptor \<Rightarrow> bytes \<Rightarrow> bytes option" where
  "descriptor_value d out =
     (if length (dvalue d) \<le> length out then Some (dvalue d @ drop (length (dvalue d)) out) else None)"

text \<open>The predicate \<open>eqDescriptor\<close> under \<open>find_if\<close>.\<close>

fun has_tag :: "u8 \<Rightarrow> descriptor list \<Rightarrow> bool" where
  "has_tag t [] = False"
| "has_tag t (d # ds) = (dtag d = t \<or> has_tag t ds)"

text \<open>The size of the array the serialisers copy a value into, as the GNU C library defines it.\<close>

definition BUFSIZ :: nat where
  "BUFSIZ = 8192"

definition descriptor_bytes :: "descriptor \<Rightarrow> bytes option" where
  "descriptor_bytes d = do {
     val \<leftarrow> descriptor_value d (replicate BUFSIZ 0);
     Some (dtag d # descriptor_length d # take (unat (descriptor_length d)) val) }"

fun descriptors_bytes :: "descriptor list \<Rightarrow> bytes option" where
  "descriptors_bytes [] = Some []"
| "descriptors_bytes (d # ds) = do {
     bs \<leftarrow> descriptor_bytes d; rest \<leftarrow> descriptors_bytes ds; Some (bs @ rest) }"

text \<open>The same loop with one array for all descriptors, which keeps what the last one left in it.\<close>

fun write_infos :: "bytes \<Rightarrow> descriptor list \<Rightarrow> bytes option" where
  "write_infos val [] = Some []"
| "write_infos val (d # ds) = do {
     val \<leftarrow> descriptor_value d val;
     rest \<leftarrow> write_infos val ds;
     Some (dtag d # descriptor_length d # take (unat (descriptor_length d)) val @ rest) }"

text \<open>Tag, length and value at an offset, the step all loops over descriptors share.\<close>

definition read_descriptor :: "bytes \<Rightarrow> nat \<Rightarrow> (descriptor \<times> nat) option" where
  "read_descriptor buf cur = do {
     t \<leftarrow> rd buf cur;
     l \<leftarrow> rd buf (cur + 1);
     if l > 0 then do {
       d \<leftarrow> setValue (drop (cur + 2) buf) (ucast l) (new_descriptor t);
       Some (d, cur + 2 + unat l)
     } else Some (new_descriptor t, cur + 2) }"

lemma read_descriptor_advances: "read_descriptor buf cur = Some (d, cur') \<Longrightarrow> cur + 2 \<le> cur' \<and> cur' \<le> cur + 257"
proof -
  assume r: "read_descriptor buf cur = Some (d, cur')"
  then have "cur' = cur + 2 + unat (0 :: u8) \<or> (\<exists>l :: u8. cur' = cur + 2 + unat l)"
    by (auto simp: read_descriptor_def split: bind_splits if_splits)
  then obtain l where "cur' = cur + 2 + unat (l :: u8)" by blast
  then show ?thesis using unsigned_less [of l, where 'a = nat] by simp
qed

text \<open>
  The loop over the program descriptors of a section and over the network descriptors: a second
  descriptor with the tag of an earlier one is dropped.
\<close>

function read_distinct :: "bytes \<Rightarrow> nat \<Rightarrow> nat \<Rightarrow> descriptor list \<Rightarrow> (nat \<times> descriptor list) option" where
  "read_distinct buf cur stop ds =
     (if cur < stop then do {
        (d, cur') \<leftarrow> read_descriptor buf cur;
        read_distinct buf cur' stop (if has_tag (dtag d) ds then ds else ds @ [d])
      } else Some (cur, ds))"
  by pat_completeness auto
termination
  by (relation "measure (\<lambda>(buf, cur, stop, ds). stop - cur)") (auto dest: read_descriptor_advances)

declare read_distinct.simps [simp del]

section \<open>ProgramElement\<close>

record program_element =
  stream_type :: u8
  elementary_PID :: u16
  descriptors :: "descriptor list"

definition new_program_element :: "u8 \<Rightarrow> u16 \<Rightarrow> program_element" where
  "new_program_element type pid = \<lparr>stream_type = type, elementary_PID = pid, descriptors = []\<rparr>"

definition addDescriptor :: "descriptor \<Rightarrow> program_element \<Rightarrow> program_element" where
  "addDescriptor d pe =
     (if has_tag (dtag d) (descriptors pe) then pe else pe\<lparr>descriptors := descriptors pe @ [d]\<rparr>)"

definition ES_info_length :: "program_element \<Rightarrow> u16" where
  "ES_info_length pe = foldl (\<lambda>len d. len + 2 + ucast (descriptor_length d)) 0 (descriptors pe)"

definition raw_ES_info_length :: "program_element \<Rightarrow> u16" where
  "raw_ES_info_length pe = ES_info_length pe OR 0xF000"

text \<open>The loop \<open>while (i < len)\<close> over the descriptors of an element; \<open>i\<close> moves with \<open>cur\<close>.\<close>

function read_es_descriptors ::
  "bytes \<Rightarrow> nat \<Rightarrow> nat \<Rightarrow> nat \<Rightarrow> program_element \<Rightarrow> (nat \<times> program_element) option" where
  "read_es_descriptors buf cur i len pe =
     (if i < len then do {
        (d, cur') \<leftarrow> read_descriptor buf cur;
        read_es_descriptors buf cur' (i + (cur' - cur)) len (addDescriptor d pe)
      } else Some (cur, pe))"
  by pat_completeness auto
termination
  by (relation "measure (\<lambda>(buf, cur, i, len, pe). len - i)") (auto dest: read_descriptor_advances)

declare read_es_descriptors.simps [simp del]


section \<open>Wire form\<close>

definition wf_descriptor :: "descriptor \<Rightarrow> bool" where
  "wf_descriptor d \<longleftrightarrow> length (dvalue d) < 256"

fun distinct_tags :: "descriptor list \<Rightarrow> bool" where
  "distinct_tags [] = True"
| "distinct_tags (d # ds) = (\<not> has_tag (dtag d) ds \<and> distinct_tags ds)"

definition dbytes :: "descriptor list \<Rightarrow> bytes" where
  "dbytes ds = concat (map (\<lambda>d. dtag d # word_of_nat (length (dvalue d)) # dvalue d) ds)"

definition add_distinct :: "descriptor list \<Rightarrow> descriptor \<Rightarrow> descriptor list" where
  "add_distinct ds d = (if has_tag (dtag d) ds then ds else ds @ [d])"

lemma dbytes_simps [simp]:
  "dbytes [] = []"
  "dbytes (d # ds) = dtag d # word_of_nat (length (dvalue d)) # dvalue d @ dbytes ds"
  by (simp_all add: dbytes_def)

lemma dbytes_append [simp]: "dbytes (ds @ es) = dbytes ds @ dbytes es"
  by (simp add: dbytes_def)

lemma has_tag_iff: "has_tag t ds \<longleftrightarrow> t \<in> dtag ` set ds"
  by (induction ds) auto

lemma distinct_tags_iff: "distinct_tags ds \<longleftrightarrow> distinct (map dtag ds)"
  by (induction ds) (auto simp: has_tag_iff)

lemma addDescriptor_eq: "addDescriptor d pe = pe\<lparr>descriptors := add_distinct (descriptors pe) d\<rparr>"
  by (simp add: addDescriptor_def add_distinct_def)

lemma add_distinct_tags: "distinct_tags ds \<Longrightarrow> distinct_tags (add_distinct ds d)"
  by (auto simp: add_distinct_def distinct_tags_iff has_tag_iff)

lemma foldl_add_distinct_tags: "distinct_tags ds \<Longrightarrow> distinct_tags (foldl add_distinct ds es)"
  by (induction es arbitrary: ds) (auto simp: add_distinct_tags)

lemma foldl_add_distinct_new:
  "distinct_tags (ds @ es) \<Longrightarrow> foldl add_distinct ds es = ds @ es"
proof (induction es arbitrary: ds)
  case (Cons e es)
  then have "add_distinct ds e = ds @ [e]" by (auto simp: add_distinct_def distinct_tags_iff has_tag_iff)
  then show ?case using Cons by simp
qed simp

text \<open>What the array held before is never written out.\<close>

lemma write_infos_eq: "length val = BUFSIZ \<Longrightarrow> write_infos val ds = descriptors_bytes ds"
proof (induction ds arbitrary: val)
  case (Cons d ds)
  have "unat (descriptor_length d) \<le> length (dvalue d)"
    by (simp add: descriptor_length_def unat_of_nat)
  then show ?case using Cons.IH [of "dvalue d @ drop (length (dvalue d)) val"] Cons.prems
    by (cases "length (dvalue d) \<le> BUFSIZ")
       (simp_all add: descriptor_bytes_def descriptor_value_def Option.bind_assoc)
qed simp

text \<open>What is left of a list whose later duplicates are dropped.\<close>

definition dedup :: "descriptor list \<Rightarrow> descriptor list" where
  "dedup ds = foldl add_distinct [] ds"

lemma foldl_add_distinct_all:
  "list_all P acc \<Longrightarrow> list_all P ds \<Longrightarrow> list_all P (foldl add_distinct acc ds)"
  by (induction ds arbitrary: acc) (auto simp: add_distinct_def)

lemma foldl_add_distinct_length:
  "length (dbytes (foldl add_distinct acc ds)) \<le> length (dbytes acc) + length (dbytes ds)"
proof (induction ds arbitrary: acc)
  case (Cons d ds)
  have "length (dbytes (add_distinct acc d)) \<le> length (dbytes acc) + length (dbytes [d])"
    by (simp add: add_distinct_def)
  then show ?case using Cons [of "add_distinct acc d"] by simp
qed simp

lemma foldl_add_distinct_drops:
  "\<not> distinct_tags (acc @ ds) \<Longrightarrow> distinct_tags acc \<Longrightarrow>
   length (dbytes (foldl add_distinct acc ds)) < length (dbytes acc) + length (dbytes ds)"
proof (induction ds arbitrary: acc)
  case (Cons d ds)
  show ?case
  proof (cases "has_tag (dtag d) acc")
    case True
    then have "add_distinct acc d = acc" by (simp add: add_distinct_def)
    then show ?thesis using foldl_add_distinct_length [of acc ds] by simp
  next
    case False
    then have "add_distinct acc d = acc @ [d]" by (simp add: add_distinct_def)
    then show ?thesis using Cons.IH [of "acc @ [d]"] Cons.prems add_distinct_tags [of acc d] by simp
  qed
qed simp

lemma foldl_add_distinct_Cons: "acc \<noteq> [] \<Longrightarrow> foldl add_distinct acc ds \<noteq> []"
  by (induction ds arbitrary: acc) (auto simp: add_distinct_def)

lemma dedup_all: "list_all P ds \<Longrightarrow> list_all P (dedup ds)"
  by (simp add: dedup_def foldl_add_distinct_all)

lemma dedup_length: "length (dbytes (dedup ds)) \<le> length (dbytes ds)"
  using foldl_add_distinct_length [of "[]" ds] by (simp add: dedup_def)

lemma dedup_drops: "\<not> distinct_tags ds \<Longrightarrow> length (dbytes (dedup ds)) < length (dbytes ds)"
  using foldl_add_distinct_drops [of "[]" ds] by (simp add: dedup_def)

lemma dedup_tags: "distinct_tags (dedup ds)"
  by (simp add: dedup_def foldl_add_distinct_tags)

lemma dedup_distinct: "distinct_tags ds \<Longrightarrow> dedup ds = ds"
  using foldl_add_distinct_new [of "[]" ds] by (simp add: dedup_def)

lemma dedup_empty [simp]: "dedup ds = [] \<longleftrightarrow> ds = []"
  by (cases ds) (simp_all add: dedup_def add_distinct_def foldl_add_distinct_Cons)

lemma descriptor_length_unat: "wf_descriptor d \<Longrightarrow> unat (descriptor_length d) = length (dvalue d)"
  by (simp add: wf_descriptor_def descriptor_length_def)

lemma descriptors_bytes_wf: "list_all wf_descriptor ds \<Longrightarrow> descriptors_bytes ds = Some (dbytes ds)"
proof (induction ds)
  case (Cons d ds)
  have "descriptor_bytes d = Some (dbytes [d])"
    using Cons.prems descriptor_length_unat [of d]
    by (simp add: descriptor_bytes_def descriptor_value_def BUFSIZ_def wf_descriptor_def)
       (simp add: descriptor_length_def)
  then show ?case using Cons by simp
qed simp

lemma read_descriptor_wf:
  assumes "wf_descriptor d"
  shows "read_descriptor (pre @ dbytes [d] @ post) (length pre) =
    Some (d, length pre + length (dbytes [d]))"
proof -
  have n: "unat (word_of_nat (length (dvalue d)) :: u8) = length (dvalue d)"
    using descriptor_length_unat [OF assms] by (simp add: descriptor_length_def)
  have l: "(word_of_nat (length (dvalue d)) > (0 :: u8)) = (dvalue d \<noteq> [])"
    unfolding word_less_nat_alt n by simp
  have m: "unat (ucast (word_of_nat (length (dvalue d)) :: u8) :: u16) = length (dvalue d)"
    using n by (simp add: unat_ucast_u8_u16)
  show ?thesis
    using l n m by (cases "dvalue d = []")
      (simp_all add: read_descriptor_def rd_append setValue_def new_descriptor_def rd_n_def)
qed


lemma read_distinct_wf:
  "list_all wf_descriptor ds \<Longrightarrow>
   read_distinct (pre @ dbytes ds @ post) (length pre) (length pre + length (dbytes ds)) acc =
     Some (length pre + length (dbytes ds), foldl add_distinct acc ds)"
proof (induction ds arbitrary: pre acc)
  case Nil
  then show ?case by (subst read_distinct.simps) simp
next
  case (Cons d ds)
  have r: "read_descriptor (pre @ dbytes (d # ds) @ post) (length pre) = Some (d, length pre + length (dbytes [d]))"
    using read_descriptor_wf [of d pre "dbytes ds @ post"] Cons.prems by simp
  show ?case
    using r Cons.IH [of "pre @ dbytes [d]" "add_distinct acc d"] Cons.prems
    by (subst read_distinct.simps) (simp add: add_distinct_def [symmetric] add.assoc)
qed

lemma read_es_descriptors_wf:
  "list_all wf_descriptor ds \<Longrightarrow>
   read_es_descriptors (pre @ dbytes ds @ post) (length pre) i (i + length (dbytes ds)) pe =
     Some (length pre + length (dbytes ds), pe\<lparr>descriptors := foldl add_distinct (descriptors pe) ds\<rparr>)"
proof (induction ds arbitrary: pre i pe)
  case Nil
  then show ?case by (subst read_es_descriptors.simps) simp
next
  case (Cons d ds)
  have r: "read_descriptor (pre @ dbytes (d # ds) @ post) (length pre) = Some (d, length pre + length (dbytes [d]))"
    using read_descriptor_wf [of d pre "dbytes ds @ post"] Cons.prems by simp
  have "read_es_descriptors (pre @ dbytes (d # ds) @ post) (length pre) i (i + length (dbytes (d # ds))) pe =
    read_es_descriptors ((pre @ dbytes [d]) @ dbytes ds @ post) (length (pre @ dbytes [d]))
      (i + length (dbytes [d])) (i + length (dbytes [d]) + length (dbytes ds)) (addDescriptor d pe)"
    using r by (subst read_es_descriptors.simps) (simp add: add.assoc)
  then show ?case
    unfolding Cons.IH [of "pre @ dbytes [d]", OF list.pred_inject(2) [THEN iffD1, OF Cons.prems, THEN conjunct2]]
    by (simp add: addDescriptor_eq)
qed

text \<open>The length in \<open>uint16_t\<close> is the length of the descriptors as long as it fits.\<close>

lemma ES_info_length_eq:
  "list_all wf_descriptor (descriptors pe) \<Longrightarrow> ES_info_length pe = word_of_nat (length (dbytes (descriptors pe)))"
proof -
  have "list_all wf_descriptor ds \<Longrightarrow>
      foldl (\<lambda>len d. len + 2 + ucast (descriptor_length d)) (word_of_nat n :: u16) ds =
      word_of_nat (n + length (dbytes ds))" for ds n
  proof (induction ds arbitrary: n)
    case (Cons d ds)
    have "ucast (descriptor_length d) = (word_of_nat (length (dvalue d)) :: u16)"
      using descriptor_length_unat [of d] Cons.prems
      by (intro unsigned_word_eqI [where 'a = nat]) (simp add: unat_ucast_u8_u16 wf_descriptor_def)
    then show ?case using Cons.IH [of "n + 2 + length (dvalue d)"] Cons.prems by (simp add: add_ac)
  qed simp
  from this [of "descriptors pe" 0] show "list_all wf_descriptor (descriptors pe) \<Longrightarrow> ?thesis"
    by (simp add: ES_info_length_def)
qed

text \<open>Whatever the bytes, the loops keep the tags distinct and only use what they have read.\<close>

lemma read_distinct_tags:
  "read_distinct buf cur stop ds = Some (cur', ds') \<Longrightarrow> distinct_tags ds \<Longrightarrow> distinct_tags ds'"
proof (induction buf cur stop ds rule: read_distinct.induct)
  case (1 buf cur stop ds)
  show ?case
  proof (cases "cur < stop")
    case True
    obtain d c where r: "read_descriptor buf cur = Some (d, c)"
        "read_distinct buf c stop (add_distinct ds d) = Some (cur', ds')"
      using 1(2) True by (subst (asm) read_distinct.simps) (auto simp: add_distinct_def split: bind_splits)
    then show ?thesis using 1(1) [OF True r(1) refl] 1(3) add_distinct_tags [of ds d]
      by (simp add: add_distinct_def split: if_splits)
  qed (use 1 in \<open>simp add: read_distinct.simps [of buf cur stop ds]\<close>)
qed

lemma read_es_descriptors_tags:
  "read_es_descriptors buf cur i len pe = Some (cur', pe') \<Longrightarrow> distinct_tags (descriptors pe) \<Longrightarrow>
   distinct_tags (descriptors pe') \<and> cur \<le> cur' \<and>
   len \<le> i + (cur' - cur) \<and> stream_type pe' = stream_type pe \<and> elementary_PID pe' = elementary_PID pe"
proof (induction buf cur i len pe rule: read_es_descriptors.induct)
  case (1 buf cur i len pe)
  show ?case
  proof (cases "i < len")
    case True
    obtain d c where r: "read_descriptor buf cur = Some (d, c)"
        "read_es_descriptors buf c (i + (c - cur)) len (addDescriptor d pe) = Some (cur', pe')"
      using 1(2) True by (subst (asm) read_es_descriptors.simps) (auto split: bind_splits)
    have "cur + 2 \<le> c" using read_descriptor_advances [OF r(1)] by simp
    moreover have "distinct_tags (descriptors pe') \<and> c \<le> cur' \<and> len \<le> i + (c - cur) + (cur' - c) \<and>
        stream_type pe' = stream_type pe \<and> elementary_PID pe' = elementary_PID pe"
      using 1(1) [OF True r(1) refl r(2)] 1(3) add_distinct_tags [of "descriptors pe" d]
      by (auto simp: addDescriptor_eq split: if_splits)
    ultimately show ?thesis using True by auto
  qed (use 1 in \<open>simp add: read_es_descriptors.simps [of buf cur i len pe]\<close>)
qed

section \<open>Length fields\<close>

lemma bit_length_marks [word_bits]:
  fixes n :: nat
  shows "bit (45056 :: int) n \<longleftrightarrow> n = 12 \<or> n = 13 \<or> n = 15"
    "bit (61440 :: int) n \<longleftrightarrow> 12 \<le> n \<and> n < 16"
proof -
  have m: "(45056 :: int) = push_bit 8 176" "(61440 :: int) = push_bit 12 (mask 4)"
    by (simp_all add: push_bit_eq_mult mask_eq_exp_minus_1)
  show "bit (45056 :: int) n \<longleftrightarrow> n = 12 \<or> n = 13 \<or> n = 15"
    "bit (61440 :: int) n \<longleftrightarrow> 12 \<le> n \<and> n < 16"
    unfolding m bit_push_bit_iff bit_mask_iff possible_bit_int by (auto simp: word_bits)
qed

lemma len_mask_eq: "(w :: u16) < 0x400 \<Longrightarrow> w AND 0x3FF = w"
  using less_mask_eq [of w 10] by (simp add: mask_eq_exp_minus_1)

lemma len_high_bits: "(w :: u16) < 0x400 \<Longrightarrow> 10 \<le> n \<Longrightarrow> \<not> bit w n"
  by (subst len_mask_eq [symmetric]) (simp_all add: bit_simps word_bits)

lemma length_fields:
  fixes len :: u16
  assumes "len < 0x400"
  shows "be16 (hi8 len OR 0xB0) (lo8 len) AND 0x3FF = len"
    and "be16 (hi8 len OR 0xF0) (lo8 len) AND 0x3FF = len"
    and "be16 (hi8 len OR 0xF0) (lo8 len) AND 0xFFF = len"
    and "(hi8 len OR 0xF0) AND 0xF3 = hi8 len OR 0xF0"
proof -
  have "be16 (hi8 len OR 0xB0) (lo8 len) AND 0x3FF = len AND 0x3FF"
    "be16 (hi8 len OR 0xF0) (lo8 len) AND 0x3FF = len AND 0x3FF"
    "be16 (hi8 len OR 0xF0) (lo8 len) AND 0xFFF = len AND 0xFFF"
    by (rule bit_word_eqI; auto simp: be16_def hi8_def lo8_def bit_simps word_bits)+
  moreover have "len AND 0xFFF = len"
    using assms less_mask_eq [of len 12] by (simp add: mask_eq_exp_minus_1 word_less_nat_alt)
  ultimately show "be16 (hi8 len OR 0xB0) (lo8 len) AND 0x3FF = len"
      "be16 (hi8 len OR 0xF0) (lo8 len) AND 0x3FF = len" "be16 (hi8 len OR 0xF0) (lo8 len) AND 0xFFF = len"
    using len_mask_eq [OF assms] by simp_all
  have "\<not> bit len (8 + n)" if "\<not> n < 2" for n
    using len_high_bits [OF assms, of "8 + n"] that by simp
  then show "(hi8 len OR 0xF0) AND 0xF3 = hi8 len OR 0xF0"
    by (intro bit_word_eqI) (auto simp: hi8_def bit_simps word_bits)
qed

lemma marked_lengths:
  "hi8 (len OR 0xB000) = hi8 len OR 0xB0" "lo8 (len OR 0xB000) = lo8 len"
  "hi8 (len OR 0xF000) = hi8 len OR 0xF0" "lo8 (len OR 0xF000) = lo8 len"
  by (rule bit_word_eqI; auto simp: hi8_def lo8_def bit_simps word_bits)+

end
