(* ===== verification/Program_Map.thy ===== *)
theory Program_Map
  imports Crc_Section Psi_Descriptors
begin

text \<open>
  \<open>lcss::ProgramMapTable\<close> (\<open>tspmt.cpp\<close>).  The object keeps the bytes it was given (\<open>pmt_buffer\<close>), the
  fixed part of the section after parsing (\<open>pmt_hdr\<close>, the vector \<open>_pmt\<close>), the program descriptors, the
  program elements and the CRC.  Offsets are natural numbers: they stay below 255 + 1023 + 1023 + 512,
  so that the \<open>uint16_t\<close> of the code does not wrap.
\<close>

record pmt =
  pmt_hdr :: bytes
  pmt_buffer :: bytes
  pmt_CRC_32 :: u32
  program_info :: "descriptor list"
  program_elmts :: "program_element list"

definition new_pmt :: pmt where
  "new_pmt = \<lparr>pmt_hdr = [], pmt_buffer = [], pmt_CRC_32 = 0, program_info = [], program_elmts = []\<rparr>"

definition default_seq :: bytes where
  "default_seq = [0x00, 0x02, 0xB0, 0x0D, 0x00, 0x01, 0xC1, 0x00, 0x00, 0xE1, 0x00, 0xF0, 0x00,
     0x00, 0x00, 0x00, 0x00]"

text \<open>The copy constructor of \<open>Impl\<close>, which is also what \<open>operator=\<close> uses.\<close>

definition pmt_copy :: "pmt \<Rightarrow> pmt" where
  "pmt_copy other = new_pmt\<lparr>pmt_hdr := pmt_hdr other, pmt_buffer := pmt_buffer other,
     program_info := program_info other, program_elmts := program_elmts other\<rparr>"

definition pmt_add :: "bytes \<Rightarrow> int \<Rightarrow> pmt \<Rightarrow> pmt option" where
  "pmt_add buffer len s =
     (if len < 0 then None
      else do { bs \<leftarrow> rd_n buffer 0 (nat len); Some (s\<lparr>pmt_buffer := pmt_buffer s @ bs\<rparr>) })"

definition pmt_of :: "bytes \<Rightarrow> int \<Rightarrow> pmt option" where
  "pmt_of buffer len = pmt_add buffer len new_pmt"

section \<open>Fields of the fixed part\<close>

text \<open>\<open>cur = _pmt[0] == 0 ? 0 : _pmt[0]; cur += k\<close>, then one byte or two.\<close>

definition hdr8 :: "bytes \<Rightarrow> nat \<Rightarrow> u8 option" where
  "hdr8 h k = do { p \<leftarrow> rd h 0; rd h ((if p = 0 then 0 else unat p) + k) }"

definition hdr16 :: "bytes \<Rightarrow> nat \<Rightarrow> u16 option" where
  "hdr16 h k = do { p \<leftarrow> rd h 0; v \<leftarrow> rd16 h ((if p = 0 then 0 else unat p) + k); Some (ntohs v) }"

definition pmt_pointer_field :: "pmt \<Rightarrow> u8 option" where
  "pmt_pointer_field s = rd (pmt_hdr s) 0"

definition pmt_table_id :: "pmt \<Rightarrow> u8 option" where
  "pmt_table_id s = do {
     p \<leftarrow> rd (pmt_hdr s) 0;
     let cur = (if p = 0 then 1 else unat p);
     if cur > length (pmt_hdr s) - 1 then Some 0xFF else rd (pmt_hdr s) cur }"

definition section_syntax_indicator :: "pmt \<Rightarrow> bool option" where
  "section_syntax_indicator s = do { b \<leftarrow> hdr8 (pmt_hdr s) 2; Some (b AND 0x80 = 0x80) }"

definition pmt_section_length :: "pmt \<Rightarrow> u16 option" where
  "pmt_section_length s =
     (if pmt_buffer s = [] then Some 0
      else do {
        let src = (if pmt_hdr s = [] then pmt_buffer s else pmt_hdr s);
        p \<leftarrow> rd src 0;
        let cur = (if p = 0 then 0 else unat p) + 2;
        if cur > length (pmt_buffer s) \<or> cur + 1 > length (pmt_buffer s) then Some 0
        else do { v \<leftarrow> rd16 src cur; Some (ntohs v AND 0x03FF) }
      })"

definition program_number :: "pmt \<Rightarrow> u16 option" where
  "program_number s = hdr16 (pmt_hdr s) 4"

definition pmt_version_number :: "pmt \<Rightarrow> u8 option" where
  "pmt_version_number s = do { b \<leftarrow> hdr8 (pmt_hdr s) 6; Some (drop_bit 1 (b AND 0x3E)) }"

definition pmt_current_next_indicator :: "pmt \<Rightarrow> bool option" where
  "pmt_current_next_indicator s = do { b \<leftarrow> hdr8 (pmt_hdr s) 6; Some (b AND 0x01 = 0x01) }"

definition pmt_section_number :: "pmt \<Rightarrow> u8 option" where
  "pmt_section_number s = hdr8 (pmt_hdr s) 7"

definition pmt_last_section_number :: "pmt \<Rightarrow> u8 option" where
  "pmt_last_section_number s = hdr8 (pmt_hdr s) 8"

definition PCR_PID :: "pmt \<Rightarrow> u16 option" where
  "PCR_PID s = do { v \<leftarrow> hdr16 (pmt_hdr s) 9; Some (v AND 0x1FFF) }"

definition hasPCR :: "pmt \<Rightarrow> u16 \<Rightarrow> bool option" where
  "hasPCR s pid = do { pcr \<leftarrow> PCR_PID s; Some (pid = pcr) }"

definition programInfoLength :: "pmt \<Rightarrow> u16 option" where
  "programInfoLength s = do { v \<leftarrow> hdr16 (pmt_hdr s) 11; Some (v AND 0x0FFF) }"

section \<open>Serialising and the CRC\<close>

definition element_bytes :: "program_element \<Rightarrow> bytes option" where
  "element_bytes pe = do {
     let pidv = bytes16 (htons (elementary_PID pe));
     let lenv = bytes16 (htons (raw_ES_info_length pe));
     ds \<leftarrow> (if ES_info_length pe > 0 then descriptors_bytes (descriptors pe) else Some []);
     Some ([stream_type pe, pidv ! 0 OR 0xE0, pidv ! 1, lenv ! 0, lenv ! 1] @ ds) }"

fun elements_bytes :: "program_element list \<Rightarrow> bytes option" where
  "elements_bytes [] = Some []"
| "elements_bytes (pe # pes) = do {
     bs \<leftarrow> element_bytes pe; rest \<leftarrow> elements_bytes pes; Some (bs @ rest) }"

definition pmt_serialize :: "pmt \<Rightarrow> bytes option" where
  "pmt_serialize s = do {
     pil \<leftarrow> programInfoLength s;
     infos \<leftarrow> (if pil > 0 then write_infos (replicate BUFSIZ 0) (program_info s) else Some []);
     elms \<leftarrow> elements_bytes (program_elmts s);
     Some (pmt_hdr s @ infos @ elms @ bytes_be32 (pmt_CRC_32 s)) }"

text \<open>The public \<open>serialize\<close>: the array for the program descriptors is not initialised.\<close>

definition pmt_serialize_out :: "bytes \<Rightarrow> pmt \<Rightarrow> bytes option" where
  "pmt_serialize_out val s = do {
     pil \<leftarrow> programInfoLength s;
     infos \<leftarrow> (if pil > 0 then write_infos val (program_info s) else Some []);
     elms \<leftarrow> elements_bytes (program_elmts s);
     Some (pmt_hdr s @ infos @ elms @ bytes_be32 (pmt_CRC_32 s)) }"

lemma pmt_serialize_eq:
  "pmt_serialize s = do {
     pil \<leftarrow> programInfoLength s;
     infos \<leftarrow> (if pil > 0 then descriptors_bytes (program_info s) else Some []);
     elms \<leftarrow> elements_bytes (program_elmts s);
     Some (pmt_hdr s @ infos @ elms @ bytes_be32 (pmt_CRC_32 s)) }"
  by (simp add: pmt_serialize_def write_infos_eq cong: if_cong)

definition pmt_calcCRC :: "pmt \<Rightarrow> pmt option" where
  "pmt_calcCRC s = do {
     raw \<leftarrow> pmt_serialize s;
     Some (s\<lparr>pmt_CRC_32 := crc_bytes 0xFFFFFFFF (take (length raw - 4 - 1) (drop 1 raw))\<rparr>) }"

definition set_section_length :: "u16 \<Rightarrow> pmt \<Rightarrow> pmt option" where
  "set_section_length len s = do {
     let chLen = bytes16 (htons len);
     p \<leftarrow> rd (pmt_hdr s) 0;
     let cur = (if p = 0 then 0 else unat p) + 2;
     if cur + 1 < length (pmt_hdr s)
     then Some (s\<lparr>pmt_hdr := (pmt_hdr s)[cur := chLen ! 0, cur + 1 := chLen ! 1]\<rparr>) else None }"

definition calcLen :: "pmt \<Rightarrow> pmt option" where
  "calcLen s = do {
     let len = foldl (\<lambda>len pe. len + 5 + ES_info_length pe) 13 (program_elmts s);
     pil \<leftarrow> programInfoLength s;
     set_section_length ((len + pil) OR 0xB000) s }"

definition addProgramElement :: "program_element \<Rightarrow> pmt \<Rightarrow> pmt option" where
  "addProgramElement pe s = do {
     s \<leftarrow> calcLen (s\<lparr>program_elmts := program_elmts s @ [pe]\<rparr>);
     pmt_calcCRC s }"

text \<open>The first element with the stream type and the PID is erased.\<close>

fun erase_element :: "program_element \<Rightarrow> program_element list \<Rightarrow> program_element list" where
  "erase_element pe [] = []"
| "erase_element pe (e # es) =
     (if stream_type pe = stream_type e \<and> elementary_PID pe = elementary_PID e then es
      else e # erase_element pe es)"

definition removeProgramElement :: "program_element \<Rightarrow> pmt \<Rightarrow> pmt option" where
  "removeProgramElement pe s = do {
     s \<leftarrow> calcLen (s\<lparr>program_elmts := erase_element pe (program_elmts s)\<rparr>);
     pmt_calcCRC s }"

section \<open>Parsing\<close>

definition canParse :: "pmt \<Rightarrow> bool option" where
  "canParse s = do {
     len \<leftarrow> pmt_section_length s;
     Some (if len = 0 then False
           else if len < 184 then True
           else (word_of_nat (length (pmt_buffer s)) - 4 :: u64) \<ge> ucast len) }"

text \<open>The loop over the program elements up to the CRC.\<close>

definition read_element :: "bytes \<Rightarrow> nat \<Rightarrow> (program_element \<times> nat) option" where
  "read_element buf cur = do {
     stype \<leftarrow> rd buf cur;
     v \<leftarrow> rd16 buf (cur + 1);
     let elem_pid = ntohs v AND 0x1FFF;
     v \<leftarrow> rd16 buf (cur + 3);
     let len = ntohs v AND 0x03FF;
     (cur', pe) \<leftarrow> read_es_descriptors buf (cur + 5) 0 (unat len) (new_program_element stype elem_pid);
     Some (pe, cur') }"

lemma read_element_advances: "read_element buf cur = Some (pe, cur') \<Longrightarrow> cur + 5 \<le> cur'"
  by (auto simp: read_element_def Let_def new_program_element_def dest: read_es_descriptors_tags
      split: bind_splits)

function read_elements ::
  "bytes \<Rightarrow> nat \<Rightarrow> nat \<Rightarrow> program_element list \<Rightarrow> (nat \<times> program_element list) option" where
  "read_elements buf cur crcPos pes =
     (if cur < crcPos then do {
        (pe, cur') \<leftarrow> read_element buf cur;
        read_elements buf cur' crcPos (pes @ [pe])
      } else Some (cur, pes))"
  by pat_completeness auto
termination
  by (relation "measure (\<lambda>(buf, cur, crcPos, pes). crcPos - cur)") (auto dest: read_element_advances)

declare read_elements.simps [simp del]

definition pmt_parse :: "pmt \<Rightarrow> (pmt \<times> bool) option" where
  "pmt_parse s = do {
     ok \<leftarrow> canParse s;
     if \<not> ok then Some (s, False) else do {
       let buf = pmt_buffer s;
       b0 \<leftarrow> rd buf 0;
       let h = pmt_hdr s @ [b0];
       let offset = (if h ! 0 = 0 then 1 else unat (h ! 0));
       stuffing \<leftarrow> rd_n buf 1 (unat (h ! 0) - 1);
       let h = h @ stuffing;
       id \<leftarrow> rd buf offset;
       if id \<noteq> 2 then Some (s\<lparr>pmt_hdr := h\<rparr>, False) else do {
         let cur = offset + 1;
         v \<leftarrow> rd16 buf cur;
         let section_length = ntohs v AND 0x03FF;
         sl \<leftarrow> rd_n buf cur 2;
         let cur = cur + 2;
         let crcPos = cur + unat section_length - 4;
         crc \<leftarrow> rd32 buf crcPos;
         fields \<leftarrow> rd_n buf cur 7;
         let cur = cur + 7;
         v \<leftarrow> rd16 buf cur;
         let program_info_length = ntohs v AND 0x03FF;
         b \<leftarrow> rd buf cur;
         b2 \<leftarrow> rd buf (cur + 1);
         let h = h @ [id] @ sl @ fields @ [(b OR 0xF0) AND 0xF3, b2];
         let cur = cur + 2;
         (cur, infos) \<leftarrow> read_distinct buf cur (unat program_info_length + cur) (program_info s);
         (cur, elms) \<leftarrow> read_elements buf cur crcPos (program_elmts s);
         s \<leftarrow> pmt_calcCRC (s\<lparr>pmt_hdr := h, pmt_CRC_32 := ntohl crc, program_info := infos, program_elmts := elms\<rparr>);
         Some (s, True)
       }
     } }"


section \<open>Wire form of the elements\<close>

definition fits_element :: "program_element \<Rightarrow> bool" where
  "fits_element pe \<longleftrightarrow> elementary_PID pe < 0x2000 \<and> list_all wf_descriptor (descriptors pe) \<and>
     length (dbytes (descriptors pe)) < 1024"

definition wf_element :: "program_element \<Rightarrow> bool" where
  "wf_element pe \<longleftrightarrow> fits_element pe \<and> distinct_tags (descriptors pe)"

definition dedup_element :: "program_element \<Rightarrow> program_element" where
  "dedup_element pe = pe\<lparr>descriptors := dedup (descriptors pe)\<rparr>"

lemma dedup_element_simps [simp]:
  "descriptors (dedup_element pe) = dedup (descriptors pe)"
  "stream_type (dedup_element pe) = stream_type pe"
  "elementary_PID (dedup_element pe) = elementary_PID pe"
  by (simp_all add: dedup_element_def)

lemma dedup_element_fits: "fits_element pe \<Longrightarrow> wf_element (dedup_element pe)"
  using dedup_length [of "descriptors pe"]
  by (auto simp: fits_element_def wf_element_def dedup_element_def dedup_all dedup_tags intro: le_less_trans)

lemma dedup_element_wf: "wf_element pe \<Longrightarrow> dedup_element pe = pe"
  by (simp add: dedup_element_def wf_element_def dedup_distinct)

definition ebytes :: "program_element list \<Rightarrow> bytes" where
  "ebytes pes = concat (map (\<lambda>pe. let len = word_of_nat (length (dbytes (descriptors pe))) :: u16 in
     [stream_type pe, hi8 (elementary_PID pe) OR 0xE0, lo8 (elementary_PID pe), hi8 len OR 0xF0, lo8 len]
     @ dbytes (descriptors pe)) pes)"

lemma ebytes_Nil [simp]: "ebytes [] = []"
  by (simp add: ebytes_def)

lemma ebytes_append [simp]: "ebytes (pes @ qes) = ebytes pes @ ebytes qes"
  by (simp add: ebytes_def)

lemma ebytes_Cons: "ebytes (pe # pes) = ebytes [pe] @ ebytes pes"
  by (simp add: ebytes_def)

lemma length_ebytes_one: "length (ebytes [pe]) = 5 + length (dbytes (descriptors pe))"
  by (simp add: ebytes_def Let_def)

lemma dbytes_empty: "dbytes ds = [] \<longleftrightarrow> ds = []"
  by (cases ds) simp_all

lemma element_bytes_fits:
  assumes "fits_element pe"
  shows "element_bytes pe = Some (ebytes [pe])"
proof -
  let ?ds = "descriptors pe"
  have es: "ES_info_length pe = word_of_nat (length (dbytes ?ds))" and n: "length (dbytes ?ds) < 1024"
    and ds: "descriptors_bytes ?ds = Some (dbytes ?ds)"
    using assms ES_info_length_eq [of pe] descriptors_bytes_wf [of ?ds] by (simp_all add: fits_element_def)
  have "ES_info_length pe > 0 \<longleftrightarrow> dbytes ?ds \<noteq> []"
    unfolding es word_less_nat_alt using n by simp
  then have "(if ES_info_length pe > 0 then descriptors_bytes ?ds else Some []) = Some (dbytes ?ds)"
    using ds by simp
  then show ?thesis
    by (simp add: element_bytes_def Let_def endian_simps ebytes_def raw_ES_info_length_def es marked_lengths)
qed

lemma elements_bytes_fits: "list_all fits_element pes \<Longrightarrow> elements_bytes pes = Some (ebytes pes)"
proof (induction pes)
  case (Cons pe pes)
  then show ?case using element_bytes_fits [of pe] ebytes_Cons [of pe pes] by simp
qed simp

lemma pid_of_marked: "pid < 0x2000 \<Longrightarrow> be16 (hi8 pid OR 0xE0) (lo8 pid) AND 0x1FFF = pid"
proof -
  have "be16 (hi8 pid OR 0xE0) (lo8 pid) AND 0x1FFF = pid AND 0x1FFF"
    by (rule bit_word_eqI) (auto simp: be16_def hi8_def lo8_def bit_simps word_bits)
  then show "pid < 0x2000 \<Longrightarrow> ?thesis" by (simp add: pid_mask_eq)
qed

lemma read_element_fits:
  assumes "fits_element pe"
  shows "read_element (pre @ ebytes [pe] @ post) (length pre) = Some (dedup_element pe, length pre + length (ebytes [pe]))"
proof -
  let ?ds = "descriptors pe" and ?len = "word_of_nat (length (dbytes (descriptors pe))) :: u16"
  define h where "h = [stream_type pe, hi8 (elementary_PID pe) OR 0xE0, lo8 (elementary_PID pe),
      hi8 ?len OR 0xF0, lo8 ?len]"
  have wf: "elementary_PID pe < 0x2000" "list_all wf_descriptor ?ds"
      "length (dbytes ?ds) < 1024"
    using assms by (simp_all add: fits_element_def)
  have len: "unat ?len = length (dbytes ?ds)" "?len < 0x400"
    using wf(3) by (simp_all add: word_less_nat_alt)
  have "read_es_descriptors ((pre @ h) @ dbytes ?ds @ post) (length (pre @ h)) 0 (0 + length (dbytes ?ds))
      (new_program_element (stream_type pe) (elementary_PID pe)) =
      Some (length (pre @ h) + length (dbytes ?ds), dedup_element pe)"
    unfolding read_es_descriptors_wf [OF wf(2)]
    by (simp add: new_program_element_def dedup_element_def dedup_def)
  moreover have "length (pre @ h) = length pre + 5" by (simp add: h_def)
  ultimately have es: "read_es_descriptors (pre @ h @ dbytes ?ds @ post) (length pre + 5) 0 (length (dbytes ?ds))
      (new_program_element (stream_type pe) (elementary_PID pe)) =
      Some (length pre + 5 + length (dbytes ?ds), dedup_element pe)"
    by (simp only: append_assoc add_0)
  have rds: "rd (pre @ h @ dbytes ?ds @ post) (length pre) = Some (stream_type pe)"
    "rd16 (pre @ h @ dbytes ?ds @ post) (length pre + 1) = Some (le16 (hi8 (elementary_PID pe) OR 0xE0) (lo8 (elementary_PID pe)))"
    "rd16 (pre @ h @ dbytes ?ds @ post) (length pre + 3) = Some (le16 (hi8 ?len OR 0xF0) (lo8 ?len))"
    by (simp_all add: h_def rd16_def rd_append)
  have raw: "pre @ ebytes [pe] @ post = pre @ h @ dbytes ?ds @ post" by (simp add: ebytes_def h_def Let_def)
  show ?thesis
    unfolding raw read_element_def length_ebytes_one
    using rds es by (simp add: endian_simps pid_of_marked [OF wf(1)] length_fields [OF len(2)] len(1))
qed

lemma read_elements_fits:
  "list_all fits_element pes \<Longrightarrow>
   read_elements (pre @ ebytes pes @ post) (length pre) (length pre + length (ebytes pes)) acc =
     Some (length pre + length (ebytes pes), acc @ map dedup_element pes)"
proof (induction pes arbitrary: pre acc)
  case Nil
  then show ?case by (subst read_elements.simps) simp
next
  case (Cons pe pes)
  have r: "read_element (pre @ ebytes (pe # pes) @ post) (length pre) = Some (dedup_element pe, length pre + length (ebytes [pe]))"
    using read_element_fits [of pe pre "ebytes pes @ post"] Cons.prems by (simp add: ebytes_Cons [of pe pes])
  have "length (ebytes (pe # pes)) > 0" by (simp add: ebytes_Cons [of pe pes] length_ebytes_one)
  then show ?case
    using r Cons.IH [of "pre @ ebytes [pe]" "acc @ [dedup_element pe]"] Cons.prems
    by (subst read_elements.simps) (simp add: ebytes_Cons [of pe pes] add.assoc)
qed


lemma dedup_elements_length: "length (ebytes (map dedup_element pes)) \<le> length (ebytes pes)"
proof (induction pes)
  case (Cons pe pes)
  then show ?case using dedup_length [of "descriptors pe"]
    by (simp add: ebytes_Cons [of pe pes] ebytes_Cons [of "dedup_element pe" "map dedup_element pes"] length_ebytes_one)
qed simp

lemma dedup_elements_drops:
  "pe \<in> set pes \<Longrightarrow> \<not> distinct_tags (descriptors pe) \<Longrightarrow>
   length (ebytes (map dedup_element pes)) < length (ebytes pes)"
proof (induction pes)
  case (Cons e pes)
  have le: "length (ebytes (map dedup_element pes)) \<le> length (ebytes pes)"
      "length (dbytes (dedup (descriptors e))) \<le> length (dbytes (descriptors e))"
    by (rule dedup_elements_length dedup_length)+
  moreover have "length (ebytes (map dedup_element pes)) < length (ebytes pes) \<or>
      length (dbytes (dedup (descriptors e))) < length (dbytes (descriptors e))"
    using Cons dedup_drops by auto
  ultimately show ?case
    by (auto simp: ebytes_Cons [of e pes] ebytes_Cons [of "dedup_element e" "map dedup_element pes"] length_ebytes_one)
qed simp

section \<open>Well-formed tables\<close>

text \<open>
  The fixed part of a table without pointer field: table id 2, section length, the seven bytes from the
  program number to the PCR PID, and the program info length.
\<close>

definition pmt_fixed :: "nat \<Rightarrow> bytes \<Rightarrow> nat \<Rightarrow> bytes" where
  "pmt_fixed len mid pil =
     [0, 2, hi8 (word_of_nat len) OR 0xB0, lo8 (word_of_nat len)] @ mid @
     [hi8 (word_of_nat pil) OR 0xF0, lo8 (word_of_nat pil)]"

definition pmt_mid :: "pmt \<Rightarrow> bytes" where
  "pmt_mid s = take 7 (drop 4 (pmt_hdr s))"

definition pmt_len :: "pmt \<Rightarrow> nat" where
  "pmt_len s = 13 + length (dbytes (program_info s)) + length (ebytes (program_elmts s))"

definition pmt_body :: "pmt \<Rightarrow> bytes" where
  "pmt_body s = dbytes (program_info s) @ ebytes (program_elmts s)"

definition fits_pmt :: "pmt \<Rightarrow> bool" where
  "fits_pmt s \<longleftrightarrow> list_all wf_descriptor (program_info s) \<and> list_all fits_element (program_elmts s) \<and>
     pmt_len s < 1024"

definition wf_parts :: "pmt \<Rightarrow> bool" where
  "wf_parts s \<longleftrightarrow> fits_pmt s \<and> distinct_tags (program_info s) \<and> list_all wf_element (program_elmts s)"

definition wf_pmt :: "pmt \<Rightarrow> bool" where
  "wf_pmt s \<longleftrightarrow> wf_parts s \<and> length (pmt_hdr s) = 13 \<and>
     pmt_hdr s = pmt_fixed (pmt_len s) (pmt_mid s) (length (dbytes (program_info s))) \<and>
     pmt_CRC_32 s = crc_bytes 0xFFFFFFFF (drop 1 (pmt_hdr s) @ pmt_body s)"

definition pmt_raw :: "pmt \<Rightarrow> bytes" where
  "pmt_raw s = pmt_hdr s @ pmt_body s @ bytes_be32 (pmt_CRC_32 s)"

lemma length_pmt_fixed [simp]: "length (pmt_fixed len mid pil) = 6 + length mid"
  by (simp add: pmt_fixed_def)

lemma programInfoLength_fixed:
  assumes "pmt_hdr s = pmt_fixed len mid pil" and "length mid = 7" and "pil < 1024"
  shows "programInfoLength s = Some (word_of_nat pil)"
proof -
  have "(word_of_nat pil :: u16) < 0x400" using assms(3) by (simp add: word_less_nat_alt)
  note len = length_fields(3) [OF this]
  show ?thesis using assms(2)
    by (simp add: programInfoLength_def hdr16_def assms(1) pmt_fixed_def rd16_def rd_append endian_simps len)
qed

lemma pmt_serialize_fixed:
  assumes "pmt_hdr s = pmt_fixed len mid pil" and "length mid = 7" and "pil < 1024"
    and "pil = 0 \<longleftrightarrow> program_info s = []" and "fits_pmt s"
  shows "pmt_serialize s = Some (pmt_raw s)"
proof -
  have wf: "list_all wf_descriptor (program_info s)" "list_all fits_element (program_elmts s)"
    using assms(5) by (auto simp: fits_pmt_def)
  have "(word_of_nat pil > (0 :: u16)) \<longleftrightarrow> program_info s \<noteq> []"
    unfolding word_less_nat_alt using assms(3,4) by auto
  then have "(if word_of_nat pil > (0 :: u16) then descriptors_bytes (program_info s) else Some []) =
      Some (dbytes (program_info s))"
    using descriptors_bytes_wf [OF wf(1)] by simp
  then show ?thesis
    using programInfoLength_fixed [OF assms(1-3)] elements_bytes_fits [OF wf(2)]
    by (simp add: pmt_serialize_eq pmt_raw_def pmt_body_def)
qed

lemma pmt_calcCRC_fixed:
  assumes "pmt_hdr s = pmt_fixed len mid pil" and "length mid = 7" and "pil < 1024"
    and "pil = 0 \<longleftrightarrow> program_info s = []" and "fits_pmt s"
  shows "pmt_calcCRC s = Some (s\<lparr>pmt_CRC_32 := crc_bytes 0xFFFFFFFF (drop 1 (pmt_hdr s) @ pmt_body s)\<rparr>)"
proof -
  obtain h where h: "pmt_hdr s = 0 # h" using assms(1) by (simp add: pmt_fixed_def)
  show ?thesis using pmt_serialize_fixed [OF assms] by (simp add: pmt_calcCRC_def pmt_raw_def h)
qed

lemma fits_pmt_info: "fits_pmt s \<Longrightarrow> length (dbytes (program_info s)) < 1024 \<and>
    (length (dbytes (program_info s)) = 0 \<longleftrightarrow> program_info s = [])"
  by (auto simp: fits_pmt_def pmt_len_def dbytes_empty)

lemma wf_pmt_mid: "wf_pmt s \<Longrightarrow> length (pmt_mid s) = 7"
proof -
  assume "wf_pmt s"
  then have "length (pmt_hdr s) = 13" unfolding wf_pmt_def by blast
  then show ?thesis unfolding pmt_mid_def by simp
qed

lemma pmt_serialize_wf: "wf_pmt s \<Longrightarrow> pmt_serialize s = Some (pmt_raw s)"
proof -
  assume wf: "wf_pmt s"
  then have "pmt_hdr s = pmt_fixed (pmt_len s) (pmt_mid s) (length (dbytes (program_info s)))" "fits_pmt s"
    unfolding wf_pmt_def wf_parts_def by blast+
  then show ?thesis using fits_pmt_info [of s] by (intro pmt_serialize_fixed [OF _ wf_pmt_mid [OF wf]]) auto
qed

lemma calcLen_fixed:
  assumes "pmt_hdr s = pmt_fixed len mid (length (dbytes (program_info s)))" and "length mid = 7"
    and "fits_pmt s"
  shows "calcLen s = Some (s\<lparr>pmt_hdr := pmt_fixed (pmt_len s) mid (length (dbytes (program_info s)))\<rparr>)"
proof -
  let ?pil = "length (dbytes (program_info s))"
  have pil: "?pil < 1024" using assms(3) by (simp add: fits_pmt_def pmt_len_def)
  have "list_all fits_element pes \<Longrightarrow>
      foldl (\<lambda>len pe. len + 5 + ES_info_length pe) (word_of_nat n) pes =
      (word_of_nat (n + length (ebytes pes)) :: u16)" for pes n
  proof (induction pes arbitrary: n)
    case (Cons pe pes)
    have "ES_info_length pe = word_of_nat (length (dbytes (descriptors pe)))"
      using Cons.prems ES_info_length_eq [of pe] by (simp add: fits_element_def)
    then show ?case
      using Cons.IH [of "n + 5 + length (dbytes (descriptors pe))"] Cons.prems
      by (simp add: ebytes_Cons [of pe pes] length_ebytes_one add_ac)
  qed simp
  from this [of "program_elmts s" 13] have "foldl (\<lambda>len pe. len + 5 + ES_info_length pe) 13 (program_elmts s)
      + word_of_nat ?pil = (word_of_nat (pmt_len s) :: u16)"
    using assms(3) by (simp add: fits_pmt_def pmt_len_def)
  moreover have "(pmt_hdr s)[2 := hi8 (word_of_nat (pmt_len s)) OR 0xB0, 2 + 1 := lo8 (word_of_nat (pmt_len s))] =
      pmt_fixed (pmt_len s) mid ?pil"
    by (simp add: assms(1) pmt_fixed_def numeral_2_eq_2 numeral_3_eq_3)
  moreover have "rd (pmt_hdr s) 0 = Some 0" "2 + 1 < length (pmt_hdr s)"
    by (simp_all add: assms(1)) (simp add: pmt_fixed_def)
  ultimately show ?thesis
    using programInfoLength_fixed [OF assms(1,2) pil]
    by (simp add: calcLen_def set_section_length_def endian_simps marked_lengths numeral_2_eq_2 numeral_3_eq_3)
qed

text \<open>Recomputing the length and the CRC makes a table well formed.\<close>

lemma refresh_wf:
  assumes "pmt_hdr s = pmt_fixed len mid (length (dbytes (program_info s)))" and "length mid = 7"
    and "wf_parts s"
  shows "\<exists>h c. do { s \<leftarrow> calcLen s; pmt_calcCRC s } = Some (s\<lparr>pmt_hdr := h, pmt_CRC_32 := c\<rparr>) \<and>
    wf_pmt (s\<lparr>pmt_hdr := h, pmt_CRC_32 := c\<rparr>) \<and> take 7 (drop 4 h) = mid"
proof -
  define h where "h = pmt_fixed (pmt_len s) mid (length (dbytes (program_info s)))"
  define c where "c = crc_bytes 0xFFFFFFFF (drop 1 h @ pmt_body s)"
  have fits: "fits_pmt s" using assms(3) by (simp add: wf_parts_def)
  have parts: "fits_pmt (s\<lparr>pmt_hdr := h\<rparr>)" "pmt_body (s\<lparr>pmt_hdr := h\<rparr>) = pmt_body s"
    using fits by (simp_all add: fits_pmt_def pmt_len_def pmt_body_def)
  have calc: "do { s \<leftarrow> calcLen s; pmt_calcCRC s } = Some (s\<lparr>pmt_hdr := h, pmt_CRC_32 := c\<rparr>)"
    using calcLen_fixed [OF assms(1,2) fits] fits_pmt_info [OF fits]
      pmt_calcCRC_fixed [OF _ assms(2) _ _ parts(1), of "pmt_len s" "length (dbytes (program_info s))"] parts(2)
    by (simp add: h_def c_def)
  have mid: "take 7 (drop 4 h) = mid" using assms(2) by (simp add: h_def pmt_fixed_def)
  have "wf_pmt (s\<lparr>pmt_hdr := h, pmt_CRC_32 := c\<rparr>)"
    using assms(3) mid assms(2)
    by (simp add: wf_pmt_def wf_parts_def fits_pmt_def pmt_len_def pmt_body_def pmt_mid_def c_def)
       (simp add: h_def pmt_len_def)
  with calc mid show ?thesis by blast
qed

lemma erase_element_set: "set (erase_element pe es) \<subseteq> set es"
  by (induction es) auto

lemma list_all_erase: "list_all P es \<Longrightarrow> list_all P (erase_element pe es)"
  using erase_element_set [of pe es] by (auto simp: list_all_iff)

lemma length_ebytes_erase: "length (ebytes (erase_element pe es)) \<le> length (ebytes es)"
proof (induction es)
  case (Cons e es)
  then show ?case by (simp add: ebytes_Cons [of e es] ebytes_Cons [of e "erase_element pe es"])
qed simp


section \<open>Parsing a well-formed section\<close>

lemma canParse_head:
  assumes "pmt_hdr s = [] \<or> take 4 (pmt_hdr s) = take 4 (pmt_buffer s)"
    and "pmt_buffer s = 0 # 2 # (hi8 (word_of_nat len) OR 0xB0) # lo8 (word_of_nat len) # tail"
    and "0 < len" and "len < 1024" and "length (pmt_buffer s) < 2 ^ 63"
  shows "canParse s = Some (len < 184 \<or> len + 4 \<le> length (pmt_buffer s))"
proof -
  have len: "unat (word_of_nat len :: u16) = len" "(word_of_nat len :: u16) < 0x400"
    using assms(4) by (simp_all add: word_less_nat_alt)
  have sl: "pmt_section_length s = Some (word_of_nat len)"
  proof (cases "pmt_hdr s = []")
    case True
    then show ?thesis using assms(2) length_fields(1) [OF len(2)]
      by (simp add: pmt_section_length_def rd16_def endian_simps)
  next
    case False
    then have "take 4 (pmt_hdr s) = [0, 2, hi8 (word_of_nat len) OR 0xB0, lo8 (word_of_nat len)]"
      using assms(1,2) by simp
    moreover have "pmt_hdr s = take 4 (pmt_hdr s) @ drop 4 (pmt_hdr s)" by simp
    ultimately have "pmt_hdr s = 0 # 2 # (hi8 (word_of_nat len) OR 0xB0) # lo8 (word_of_nat len) # drop 4 (pmt_hdr s)"
      by (metis append_Cons append_Nil)
    then obtain x where "pmt_hdr s = 0 # 2 # (hi8 (word_of_nat len) OR 0xB0) # lo8 (word_of_nat len) # x" by blast
    then show ?thesis using assms(2) length_fields(1) [OF len(2)]
      by (simp add: pmt_section_length_def rd16_def endian_simps)
  qed
  have "4 \<le> length (pmt_buffer s)" using assms(2) by simp
  then have "unat (word_of_nat (length (pmt_buffer s)) - 4 :: u64) = length (pmt_buffer s) - 4"
    using assms(5) by (subst unat_sub) (simp_all add: word_le_nat_alt)
  moreover have "unat (ucast (word_of_nat len :: u16) :: u64) = len"
    using len(1) assms(4) by (subst unsigned_ucast_eq) (simp add: take_bit_nat_eq_self)
  ultimately have "(ucast (word_of_nat len :: u16) \<le> (word_of_nat (length (pmt_buffer s)) - 4 :: u64))
      \<longleftrightarrow> len + 4 \<le> length (pmt_buffer s)"
    using \<open>4 \<le> length (pmt_buffer s)\<close> unfolding word_le_nat_alt by linarith
  moreover have "(word_of_nat len :: u16) \<noteq> 0" "(word_of_nat len :: u16) < 184 \<longleftrightarrow> len < 184"
    using len(1) assms(3) by (auto simp: word_less_nat_alt)
  ultimately show ?thesis by (simp add: canParse_def sl)
qed

lemma canParse_fixed:
  assumes "pmt_hdr s = []" and "pmt_buffer s = pmt_fixed len mid pil @ tail"
    and "0 < len" and "len < 1024" and "length (pmt_buffer s) < 2 ^ 63"
  shows "canParse s = Some (len < 184 \<or> len + 4 \<le> length (pmt_buffer s))"
  using assms(2) by (intro canParse_head [OF disjI1 [OF assms(1)] _ assms(3-5)]) (simp add: pmt_fixed_def)

text \<open>The reads that \<open>parse\<close> makes of a section whose lengths fit, with the lists that it adds to.\<close>

lemma section_reads:
  assumes fits: "fits_pmt s" and hdr: "pmt_hdr s = pmt_fixed len mid pil"
    and len: "len = pmt_len s" and pil: "pil = length (dbytes (program_info s))"
    and mid: "length mid = 7" and buf: "buf = pmt_hdr s @ pmt_body s @ bytes_be32 c @ rest"
  shows "length buf = len + 4 + length rest" "13 \<le> len" "len < 1024" "pil < 1024"
    "rd buf 0 = Some 0" "rd buf 1 = Some 2" "rd_n buf 1 0 = Some []"
    "rd16 buf 2 = Some (le16 (hi8 (word_of_nat len) OR 0xB0) (lo8 (word_of_nat len)))"
    "rd_n buf 2 2 = Some [hi8 (word_of_nat len) OR 0xB0, lo8 (word_of_nat len)]"
    "rd_n buf 4 7 = Some mid"
    "rd16 buf 11 = Some (le16 (hi8 (word_of_nat pil) OR 0xF0) (lo8 (word_of_nat pil)))"
    "rd buf 11 = Some (hi8 (word_of_nat pil) OR 0xF0)" "rd buf 12 = Some (lo8 (word_of_nat pil))"
    "rd32 buf len = Some (ntohl c)"
    "read_distinct buf 13 (pil + 13) infos = Some (13 + pil, foldl add_distinct infos (program_info s))"
    "read_elements buf (13 + pil) len elms = Some (len, elms @ map dedup_element (program_elmts s))"
proof -
  have parts: "list_all wf_descriptor (program_info s)" "list_all fits_element (program_elmts s)"
    using fits unfolding fits_pmt_def by auto
  show small: "len < 1024" "pil < 1024" "13 \<le> len"
    using fits unfolding fits_pmt_def len pil by (auto simp: pmt_len_def)
  have body: "length (pmt_body s) = len - 13" by (simp add: pmt_body_def len pmt_len_def)
  have hl: "length (pmt_hdr s) = 13" using mid by (simp add: hdr)
  define tail where "tail = pmt_body s @ bytes_be32 c @ rest"
  have b: "buf = pmt_fixed len mid pil @ tail" by (simp add: buf hdr tail_def)
  show bl: "length buf = len + 4 + length rest" using body hl small(3) by (simp add: buf)
  show "rd buf 0 = Some 0" "rd buf 1 = Some 2"
    "rd16 buf 2 = Some (le16 (hi8 (word_of_nat len) OR 0xB0) (lo8 (word_of_nat len)))"
    "rd_n buf 2 2 = Some [hi8 (word_of_nat len) OR 0xB0, lo8 (word_of_nat len)]"
    by (simp_all add: b pmt_fixed_def rd16_def rd_n_def numeral_2_eq_2)
  show "rd_n buf 1 0 = Some []" using bl by simp
  show "rd_n buf 4 7 = Some mid"
    using rd_n_at [of 4 "take 4 (pmt_fixed len mid pil)" 7 mid "drop 11 (pmt_fixed len mid pil) @ tail"] mid
    by (simp add: b pmt_fixed_def)
  show "rd16 buf 11 = Some (le16 (hi8 (word_of_nat pil) OR 0xF0) (lo8 (word_of_nat pil)))"
    "rd buf 11 = Some (hi8 (word_of_nat pil) OR 0xF0)" "rd buf 12 = Some (lo8 (word_of_nat pil))"
    using mid by (simp_all add: b pmt_fixed_def rd16_def rd_append)
  show "rd32 buf len = Some (ntohl c)"
    using rd32_bytes_be32 [of len "pmt_hdr s @ pmt_body s" c rest] hl body small(3)
    by (simp add: buf)
  show "read_distinct buf 13 (pil + 13) infos = Some (13 + pil, foldl add_distinct infos (program_info s))"
    using read_distinct_wf [OF parts(1), of "pmt_hdr s" "ebytes (program_elmts s) @ bytes_be32 c @ rest" infos]
    by (simp add: hl buf pmt_body_def pil add.commute)
  show "read_elements buf (13 + pil) len elms = Some (len, elms @ map dedup_element (program_elmts s))"
    using read_elements_fits [OF parts(2), of "pmt_hdr s @ dbytes (program_info s)" "bytes_be32 c @ rest" elms]
    by (simp add: hl buf pmt_body_def pil len pmt_len_def)
qed

text \<open>
  What \<open>parse\<close> makes of any section whose lengths fit, also one with repeated tags: those are dropped
  from the lists, while the two length fields of the fixed part stay.
\<close>

lemma pmt_parse_section:
  assumes fits: "fits_pmt s" and hdr: "pmt_hdr s = pmt_fixed (pmt_len s) mid (length (dbytes (program_info s)))"
    and mid: "length mid = 7" and buf: "buf = pmt_hdr s @ pmt_body s @ bytes_be32 c @ rest"
    and size: "length buf < 2 ^ 63"
    and s': "s' = s\<lparr>pmt_buffer := buf, program_info := dedup (program_info s),
      program_elmts := map dedup_element (program_elmts s)\<rparr>"
  shows "pmt_parse (new_pmt\<lparr>pmt_buffer := buf\<rparr>) =
    Some (s'\<lparr>pmt_CRC_32 := crc_bytes 0xFFFFFFFF (drop 1 (pmt_hdr s) @ pmt_body s')\<rparr>, True)"
proof -
  define len where "len = pmt_len s"
  define pil where "pil = length (dbytes (program_info s))"
  have parts: "list_all wf_descriptor (program_info s)" "list_all fits_element (program_elmts s)"
    using fits unfolding fits_pmt_def by auto
  have hdr: "pmt_hdr s = pmt_fixed len mid pil" using hdr by (simp add: len_def pil_def)
  note reads = section_reads [OF fits hdr len_def pil_def mid buf]
  have len: "unat (word_of_nat len :: u16) = len" "(word_of_nat len :: u16) < 0x400"
    and pil: "unat (word_of_nat pil :: u16) = pil" "(word_of_nat pil :: u16) < 0x400"
    using reads(3,4) by (simp_all add: word_less_nat_alt)
  have can: "canParse (new_pmt\<lparr>pmt_buffer := buf\<rparr>) = Some True"
    using canParse_fixed [of "new_pmt\<lparr>pmt_buffer := buf\<rparr>" len mid pil "pmt_body s @ bytes_be32 c @ rest"]
      reads(1-3) size by (simp add: new_pmt_def buf hdr)
  have "list_all fits_element (map dedup_element (program_elmts s))"
    using parts(2) dedup_element_fits by (auto simp: list_all_iff wf_element_def)
  moreover have "pmt_len (s'\<lparr>pmt_CRC_32 := c\<rparr>) \<le> pmt_len s" for c
    using dedup_length [of "program_info s"] dedup_elements_length by (simp add: pmt_len_def s' add_mono)
  moreover have "pmt_len (s'\<lparr>pmt_CRC_32 := c\<rparr>) < 1024" for c
    using reads(3) calculation(2) unfolding len_def by (rule le_less_trans [rotated])
  ultimately have fits': "fits_pmt (s'\<lparr>pmt_CRC_32 := c\<rparr>)" for c
    using parts(1) unfolding fits_pmt_def by (simp add: s' dedup_all)
  have calc: "pmt_calcCRC (s'\<lparr>pmt_CRC_32 := c\<rparr>) =
      Some (s'\<lparr>pmt_CRC_32 := crc_bytes 0xFFFFFFFF (drop 1 (pmt_hdr s) @ pmt_body s')\<rparr>)"
    using pmt_calcCRC_fixed [OF _ mid reads(4) _ fits'] hdr
    by (simp add: s' pil_def dbytes_empty pmt_body_def)
  have st: "\<lparr>pmt_hdr = [0, 2, hi8 (word_of_nat len) OR 0xB0, lo8 (word_of_nat len)] @ mid @
      [hi8 (word_of_nat pil) OR 0xF0, lo8 (word_of_nat pil)], pmt_buffer = buf, pmt_CRC_32 = c,
      program_info = dedup (program_info s), program_elmts = map dedup_element (program_elmts s)\<rparr>
      = s'\<lparr>pmt_CRC_32 := c\<rparr>"
    by (simp add: hdr pmt_fixed_def s')
  have nums: "(2 :: nat) = Suc (Suc 0)" "(4 :: nat) = Suc (Suc (Suc (Suc 0)))" by simp_all
  show ?thesis
    using can reads(5-14) reads(15,16) [of "[]"] calc st
    by (simp add: pmt_parse_def Let_def new_pmt_def dedup_def [symmetric] endian_simps length_fields [OF len(2)] len(1)
        length_fields [OF pil(2)] pil(1) nums add.commute)
qed


text \<open>The section of ISO/IEC 13818-1, Table 2-33, behind a zero pointer field.\<close>

definition pmt_section :: "bytes \<Rightarrow> descriptor list \<Rightarrow> program_element list \<Rightarrow> u32 \<Rightarrow> bytes" where
  "pmt_section mid infos elms c =
     pmt_fixed (13 + length (dbytes infos) + length (ebytes elms)) mid (length (dbytes infos))
     @ dbytes infos @ ebytes elms @ bytes_be32 c"

lemma wf_pmt_parts:
  assumes "wf_pmt s"
  shows "fits_pmt s" "wf_parts s" "length (pmt_mid s) = 7"
    "pmt_hdr s = pmt_fixed (pmt_len s) (pmt_mid s) (length (dbytes (program_info s)))"
    "distinct_tags (program_info s)" "list_all wf_element (program_elmts s)"
    "pmt_CRC_32 s = crc_bytes 0xFFFFFFFF (drop 1 (pmt_hdr s) @ pmt_body s)"
  using assms wf_pmt_mid [OF assms] unfolding wf_pmt_def wf_parts_def by blast+

lemma wf_pmt_section:
  assumes "wf_pmt s"
  shows "pmt_raw s = pmt_section (pmt_mid s) (program_info s) (program_elmts s) (pmt_CRC_32 s)"
  unfolding pmt_raw_def wf_pmt_parts(4) [OF assms] by (simp add: pmt_section_def pmt_body_def pmt_len_def)

text \<open>A well-formed table is determined by its descriptors, its elements and seven bytes.\<close>

lemma wf_pmt_unique:
  assumes "wf_pmt s" "wf_pmt t" "pmt_mid s = pmt_mid t" "program_info s = program_info t"
    "program_elmts s = program_elmts t" "pmt_buffer s = pmt_buffer t"
  shows "s = t"
proof -
  have h: "pmt_hdr s = pmt_hdr t"
    unfolding wf_pmt_parts(4) [OF assms(1)] wf_pmt_parts(4) [OF assms(2)] using assms by (simp add: pmt_len_def)
  moreover have "pmt_CRC_32 s = pmt_CRC_32 t"
    unfolding wf_pmt_parts(7) [OF assms(1)] wf_pmt_parts(7) [OF assms(2)]
    using assms h by (simp add: pmt_body_def)
  ultimately show ?thesis using assms by simp
qed

interpretation pmt_crc: crc_section pmt_serialize pmt_calcCRC
proof
  fix s s' assume "pmt_calcCRC s = Some s'"
  then obtain raw where raw: "pmt_serialize s = Some raw"
      and s': "s' = s\<lparr>pmt_CRC_32 := crc_bytes 0xFFFFFFFF (take (length raw - 4 - 1) (drop 1 raw))\<rparr>"
    by (auto simp: pmt_calcCRC_def split: bind_splits)
  obtain pil infos elms where parts: "programInfoLength s = Some pil"
      "(if pil > 0 then descriptors_bytes (program_info s) else Some []) = Some infos"
      "elements_bytes (program_elmts s) = Some elms"
      "raw = pmt_hdr s @ infos @ elms @ bytes_be32 (pmt_CRC_32 s)"
    using raw by (auto simp: pmt_serialize_eq split: bind_splits)
  obtain h t where h: "pmt_hdr s = h # t"
    using parts(1) by (cases "pmt_hdr s") (auto simp: programInfoLength_def hdr16_def)
  have body: "take (length raw - 4 - 1) (drop 1 raw) = t @ infos @ elms"
    by (simp add: parts(4) h)
  note s' = s' [unfolded body]
  have "programInfoLength s' = Some pil" using parts(1) by (simp add: s' programInfoLength_def)
  then have "pmt_serialize s' = Some (h # (t @ infos @ elms) @ bytes_be32 (crc_bytes 0xFFFFFFFF (t @ infos @ elms)))"
    using parts(2,3) by (auto simp: pmt_serialize_eq s' h split: if_splits)
  then show "\<exists>h body. pmt_serialize s' = Some (h # body @ bytes_be32 (crc_bytes 0xFFFFFFFF body))" by blast
qed

lemma pmt_refreshed:
  assumes "addProgramElement pe s = Some s' \<or> removeProgramElement pe s = Some s' \<or> pmt_parse s = Some (s', True)"
  shows "\<exists>t. pmt_calcCRC t = Some s'"
  using assms by (auto simp: addProgramElement_def removeProgramElement_def pmt_parse_def Let_def
      split: bind_splits if_splits prod.splits)

lemma add_element_wf:
  assumes wf: "wf_pmt s" and pe: "wf_element pe" and "pmt_len s + 5 + length (dbytes (descriptors pe)) < 1024"
  shows "\<exists>s'. addProgramElement pe s = Some s' \<and> wf_pmt s' \<and> pmt_mid s' = pmt_mid s \<and>
    program_info s' = program_info s \<and> program_elmts s' = program_elmts s @ [pe] \<and> pmt_buffer s' = pmt_buffer s"
proof -
  let ?t = "s\<lparr>program_elmts := program_elmts s @ [pe]\<rparr>"
  have "wf_parts ?t"
    using wf_pmt_parts(2) [OF wf] pe assms(3)
    by (simp add: wf_parts_def fits_pmt_def pmt_len_def length_ebytes_one wf_element_def)
  moreover have "pmt_hdr ?t = pmt_fixed (pmt_len s) (pmt_mid s) (length (dbytes (program_info ?t)))"
    using wf_pmt_parts(4) [OF wf] by simp
  ultimately obtain h c where r: "do { s \<leftarrow> calcLen ?t; pmt_calcCRC s } = Some (?t\<lparr>pmt_hdr := h, pmt_CRC_32 := c\<rparr>)"
      "wf_pmt (?t\<lparr>pmt_hdr := h, pmt_CRC_32 := c\<rparr>)" "take 7 (drop 4 h) = pmt_mid s"
    using refresh_wf [of ?t "pmt_len s" "pmt_mid s"] wf_pmt_mid [OF wf] by auto
  then show ?thesis
    by (intro exI [of _ "?t\<lparr>pmt_hdr := h, pmt_CRC_32 := c\<rparr>"]) (simp add: addProgramElement_def pmt_mid_def)
qed

lemma remove_element_wf:
  assumes wf: "wf_pmt s"
  shows "\<exists>s'. removeProgramElement pe s = Some s' \<and> wf_pmt s' \<and> pmt_mid s' = pmt_mid s \<and>
    program_info s' = program_info s \<and> program_elmts s' = erase_element pe (program_elmts s) \<and>
    pmt_buffer s' = pmt_buffer s"
proof -
  let ?t = "s\<lparr>program_elmts := erase_element pe (program_elmts s)\<rparr>"
  have "pmt_len ?t \<le> pmt_len s" by (simp add: pmt_len_def length_ebytes_erase)
  then have "wf_parts ?t"
    using wf_pmt_parts(2) [OF wf] by (simp add: wf_parts_def fits_pmt_def list_all_erase)
  moreover have "pmt_hdr ?t = pmt_fixed (pmt_len s) (pmt_mid s) (length (dbytes (program_info ?t)))"
    using wf_pmt_parts(4) [OF wf] by simp
  ultimately obtain h c where r: "do { s \<leftarrow> calcLen ?t; pmt_calcCRC s } = Some (?t\<lparr>pmt_hdr := h, pmt_CRC_32 := c\<rparr>)"
      "wf_pmt (?t\<lparr>pmt_hdr := h, pmt_CRC_32 := c\<rparr>)" "take 7 (drop 4 h) = pmt_mid s"
    using refresh_wf [of ?t "pmt_len s" "pmt_mid s"] wf_pmt_mid [OF wf] by auto
  then show ?thesis
    by (intro exI [of _ "?t\<lparr>pmt_hdr := h, pmt_CRC_32 := c\<rparr>"]) (simp add: removeProgramElement_def pmt_mid_def)
qed


lemma erase_element_split:
  "\<forall>x \<in> set xs. stream_type x \<noteq> stream_type pe \<or> elementary_PID x \<noteq> elementary_PID pe \<Longrightarrow>
   stream_type e = stream_type pe \<Longrightarrow> elementary_PID e = elementary_PID pe \<Longrightarrow>
   erase_element pe (xs @ e # ys) = xs @ ys"
  by (induction xs) auto

lemma erase_element_remove1:
  "erase_element pe es = (case find (\<lambda>x. stream_type x = stream_type pe \<and> elementary_PID x = elementary_PID pe) es of
     None \<Rightarrow> es | Some x \<Rightarrow> remove1 x es)"
proof (induction es)
  case (Cons e es)
  let ?same = "\<lambda>x. stream_type x = stream_type pe \<and> elementary_PID x = elementary_PID pe"
  show ?case
  proof (cases "?same e")
    case False
    have "x \<noteq> e" if "find ?same es = Some x" for x using that False by (auto simp: find_Some_iff)
    then show ?thesis using Cons False by (cases "find ?same es") auto
  qed simp
qed simp

lemma list_all_dedup_id: "list_all wf_element pes \<Longrightarrow> map dedup_element pes = pes"
  by (induction pes) (simp_all add: dedup_element_wf)

lemma pmt_parse_wf:
  assumes wf: "wf_pmt s" and buf: "buf = pmt_raw s @ rest" and "length buf < 2 ^ 63"
  shows "pmt_parse (new_pmt\<lparr>pmt_buffer := buf\<rparr>) = Some (s\<lparr>pmt_buffer := buf\<rparr>, True)"
proof -
  note w = wf_pmt_parts [OF wf]
  define s' where "s' = s\<lparr>pmt_buffer := buf\<rparr>"
  have "pmt_parse (new_pmt\<lparr>pmt_buffer := buf\<rparr>) =
      Some (s'\<lparr>pmt_CRC_32 := crc_bytes 0xFFFFFFFF (drop 1 (pmt_hdr s) @ pmt_body s')\<rparr>, True)"
  proof (rule pmt_parse_section [OF w(1,4,3) _ assms(3)])
    show "buf = pmt_hdr s @ pmt_body s @ bytes_be32 (pmt_CRC_32 s) @ rest" by (simp add: buf pmt_raw_def)
    show "s' = s\<lparr>pmt_buffer := buf, program_info := dedup (program_info s),
        program_elmts := map dedup_element (program_elmts s)\<rparr>"
      using w by (simp add: s'_def dedup_distinct list_all_dedup_id)
  qed
  moreover have "s'\<lparr>pmt_CRC_32 := crc_bytes 0xFFFFFFFF (drop 1 (pmt_hdr s) @ pmt_body s')\<rparr> = s'"
    using w(7) by (simp add: s'_def pmt_body_def)
  ultimately show ?thesis by (simp add: s'_def)
qed

lemma length_pmt_raw: "wf_pmt s \<Longrightarrow> length (pmt_raw s) = pmt_len s + 4"
  using wf_pmt_parts(3,4) [of s] by (simp add: pmt_raw_def pmt_body_def pmt_len_def)

lemma pmt_of_all: "pmt_of buf (int (length buf)) = Some (new_pmt\<lparr>pmt_buffer := buf\<rparr>)"
  by (simp add: pmt_of_def pmt_add_def rd_n_def new_pmt_def)

text \<open>The table with given contents, for concrete instances.\<close>

definition pmt_table :: "bytes \<Rightarrow> descriptor list \<Rightarrow> program_element list \<Rightarrow> pmt" where
  "pmt_table mid infos elms =
     (let h = pmt_fixed (13 + length (dbytes infos) + length (ebytes elms)) mid (length (dbytes infos))
      in new_pmt\<lparr>pmt_hdr := h, program_info := infos, program_elmts := elms,
           pmt_CRC_32 := crc_bytes 0xFFFFFFFF (drop 1 h @ dbytes infos @ ebytes elms)\<rparr>)"

lemma wf_pmt_table:
  assumes "length mid = 7" and "list_all wf_descriptor infos" "distinct_tags infos" "list_all wf_element elms"
    and "13 + length (dbytes infos) + length (ebytes elms) < 1024"
  shows "wf_pmt (pmt_table mid infos elms)"
proof -
  have "list_all fits_element elms" using assms(4) by (auto simp: list_all_iff wf_element_def)
  moreover have "pmt_mid (pmt_table mid infos elms) = mid"
    using assms(1) by (simp add: pmt_mid_def pmt_table_def pmt_fixed_def)
  ultimately show ?thesis
    using assms by (simp add: wf_pmt_def wf_parts_def fits_pmt_def pmt_len_def pmt_body_def)
      (simp add: pmt_table_def new_pmt_def pmt_body_def pmt_len_def Let_def)
qed

section \<open>Properties\<close>

text \<open>
  Property C4. Round trip: what \<open>serialize\<close> writes for a well-formed table, followed by any bytes, the
  constructor and \<open>parse\<close> read back as the same table: fixed part, program descriptors, elements with
  their descriptors, and the CRC, which \<open>parse\<close> computes again.
\<close>

theorem pmt_roundtrip:
  assumes "wf_pmt s" and "length rest < 2 ^ 62"
  shows "\<exists>raw. pmt_serialize s = Some raw \<and> length raw = pmt_len s + 4 \<and>
    do { t \<leftarrow> pmt_of (raw @ rest) (int (length (raw @ rest))); pmt_parse t } =
      Some (s\<lparr>pmt_buffer := raw @ rest\<rparr>, True)"
proof (intro exI conjI)
  show "pmt_serialize s = Some (pmt_raw s)" using assms(1) by (rule pmt_serialize_wf)
  show len: "length (pmt_raw s) = pmt_len s + 4" using assms(1) by (rule length_pmt_raw)
  have "pmt_len s < 1024" using wf_pmt_parts(1) [OF assms(1)] by (simp add: fits_pmt_def)
  then have "length (pmt_raw s @ rest) < 2 ^ 63" using assms(2) len by simp
  then show "do { t \<leftarrow> pmt_of (pmt_raw s @ rest) (int (length (pmt_raw s @ rest))); pmt_parse t } =
      Some (s\<lparr>pmt_buffer := pmt_raw s @ rest\<rparr>, True)"
    unfolding pmt_of_all using pmt_parse_wf [OF assms(1) refl] by simp
qed

definition sample_pmt :: pmt where
  "sample_pmt = pmt_table [0, 1, 0xC1, 0, 0, 0xE1, 0] [\<lparr>dtag = 5, dvalue = [72, 68, 77, 86]\<rparr>]
     [\<lparr>stream_type = 0x1B, elementary_PID = 0x100, descriptors = []\<rparr>,
      \<lparr>stream_type = 0x0F, elementary_PID = 0x101, descriptors = [\<lparr>dtag = 10, dvalue = [101, 110, 103, 0]\<rparr>]\<rparr>]"

lemma sample_pmt_wf: "wf_pmt sample_pmt"
  unfolding sample_pmt_def
  by (rule wf_pmt_table) (simp_all add: wf_descriptor_def wf_element_def fits_element_def ebytes_def)

theorem pmt_roundtrip_witness:
  "\<exists>raw. pmt_serialize sample_pmt = Some raw \<and> length raw = pmt_len sample_pmt + 4 \<and>
     do { t \<leftarrow> pmt_of (raw @ [0xFF]) (int (length (raw @ [0xFF]))); pmt_parse t } =
       Some (sample_pmt\<lparr>pmt_buffer := raw @ [0xFF]\<rparr>, True)"
  using pmt_roundtrip [OF sample_pmt_wf, of "[0xFF]"] by auto

text \<open>
  Property C5. Both edits keep a table well formed: section length, program info length and CRC are those of
  the new contents, and nothing but the elements changes. \<open>addProgramElement\<close> appends a well-formed element, as long
  as the section stays below 1024 bytes. \<open>removeProgramElement\<close>, with any element, takes out the first one
  with the same stream type and PID, if there is one. A removal that follows the addition of the same element gives
  back the table of before, if no earlier element has the same stream type and PID.
\<close>

theorem pmt_add_remove:
  assumes "wf_pmt s" and "wf_element pe" and "pmt_len s + 5 + length (dbytes (descriptors pe)) < 1024"
  shows "\<exists>s'. addProgramElement pe s = Some s' \<and> wf_pmt s' \<and> program_info s' = program_info s \<and>
    program_elmts s' = program_elmts s @ [pe] \<and> pmt_mid s' = pmt_mid s \<and>
    ((\<forall>x \<in> set (program_elmts s). stream_type x \<noteq> stream_type pe \<or> elementary_PID x \<noteq> elementary_PID pe) \<longrightarrow>
       removeProgramElement pe s' = Some s) \<and>
    (\<exists>t. removeProgramElement any s = Some t \<and> wf_pmt t \<and> program_info t = program_info s \<and> pmt_mid t = pmt_mid s \<and>
       program_elmts t = (case find (\<lambda>x. stream_type x = stream_type any \<and> elementary_PID x = elementary_PID any) (program_elmts s) of
           None \<Rightarrow> program_elmts s | Some x \<Rightarrow> remove1 x (program_elmts s)))"
proof -
  obtain s' where s': "addProgramElement pe s = Some s'" "wf_pmt s'" "pmt_mid s' = pmt_mid s"
      "program_info s' = program_info s" "program_elmts s' = program_elmts s @ [pe]" "pmt_buffer s' = pmt_buffer s"
    using add_element_wf [OF assms] by blast
  obtain t where t: "removeProgramElement pe s' = Some t" "wf_pmt t" "pmt_mid t = pmt_mid s'"
      "program_info t = program_info s'" "program_elmts t = erase_element pe (program_elmts s')"
      "pmt_buffer t = pmt_buffer s'"
    using remove_element_wf [OF s'(2)] by blast
  have "t = s" if "\<forall>x \<in> set (program_elmts s). stream_type x \<noteq> stream_type pe \<or> elementary_PID x \<noteq> elementary_PID pe"
    using wf_pmt_unique [OF t(2) assms(1)] t s' erase_element_split [OF that refl refl, of "[]"] by simp
  moreover obtain u where "removeProgramElement any s = Some u" "wf_pmt u" "pmt_mid u = pmt_mid s"
      "program_info u = program_info s" "program_elmts u = erase_element any (program_elmts s)"
    using remove_element_wf [OF assms(1), of any] by blast
  ultimately show ?thesis unfolding erase_element_remove1
    using s' t(1) by (intro exI [of _ s'] conjI exI [of _ u]) blast+
qed

theorem pmt_add_remove_witness:
  "\<exists>s'. addProgramElement \<lparr>stream_type = 0x06, elementary_PID = 0x102, descriptors = []\<rparr> sample_pmt = Some s' \<and>
     wf_pmt s' \<and> removeProgramElement \<lparr>stream_type = 0x06, elementary_PID = 0x102, descriptors = []\<rparr> s' = Some sample_pmt"
proof -
  have "pmt_len sample_pmt + 5 + length (dbytes []) < 1024"
    by (simp add: pmt_len_def sample_pmt_def pmt_table_def Let_def new_pmt_def ebytes_def)
  moreover have "\<forall>x \<in> set (program_elmts sample_pmt). stream_type x \<noteq> 0x06 \<or> elementary_PID x \<noteq> 0x102"
    by (simp add: sample_pmt_def pmt_table_def Let_def new_pmt_def)
  ultimately show ?thesis
    using pmt_add_remove [OF sample_pmt_wf, of "\<lparr>stream_type = 0x06, elementary_PID = 0x102, descriptors = []\<rparr>"]
    by (auto simp: wf_element_def fits_element_def)
qed


text \<open>
  Property C6. Every operation that changes a table leaves a section a receiver accepts: whatever the
  table was before, the wire form after \<open>addProgramElement\<close>, \<open>removeProgramElement\<close> and a successful
  \<open>parse\<close> brings the CRC register to 0, and any change within four consecutive bytes behind the pointer
  field makes the test fail.
\<close>

theorem pmt_edits_protected:
  assumes "addProgramElement pe s = Some s' \<or> removeProgramElement pe s = Some s' \<or> pmt_parse s = Some (s', True)"
  shows "\<exists>raw. pmt_serialize s' = Some raw \<and> valid_section raw \<and>
    (\<forall>p d d' q. raw = p @ d @ q \<and> p \<noteq> [] \<and> length d = 4 \<and> length d' = 4 \<and> d \<noteq> d' \<longrightarrow>
       \<not> valid_section (p @ d' @ q))"
proof -
  obtain t where t: "pmt_calcCRC t = Some s'" using pmt_refreshed [OF assms] by blast
  then obtain raw where "pmt_serialize s' = Some raw" "valid_section raw"
    using pmt_crc.refresh_valid by blast
  then show ?thesis using pmt_crc.refresh_detects [OF t] by auto
qed

theorem pmt_edits_protected_witness:
  "\<exists>s' raw. addProgramElement \<lparr>stream_type = 0x06, elementary_PID = 0x102, descriptors = []\<rparr> sample_pmt = Some s' \<and>
     pmt_serialize s' = Some raw \<and> valid_section raw"
proof -
  have "pmt_len sample_pmt + 5 + length (dbytes []) < 1024"
    by (simp add: pmt_len_def sample_pmt_def pmt_table_def Let_def new_pmt_def ebytes_def)
  then obtain s' where "addProgramElement \<lparr>stream_type = 0x06, elementary_PID = 0x102, descriptors = []\<rparr> sample_pmt = Some s'"
    using add_element_wf [OF sample_pmt_wf, of "\<lparr>stream_type = 0x06, elementary_PID = 0x102, descriptors = []\<rparr>"]
    by (auto simp: wf_element_def fits_element_def)
  then show ?thesis using pmt_edits_protected by blast
qed

text \<open>
  A copied table (copy constructor or assignment) has lost its CRC: unless the CRC is 0 by
  chance, what the copy serialises is refused by the receiver, although the original's is accepted.
\<close>

lemma pmt_copy_loses_crc:
  assumes "wf_pmt s" and "pmt_CRC_32 s \<noteq> 0"
  shows "\<exists>raw. pmt_serialize (pmt_copy s) = Some raw \<and> \<not> valid_section raw \<and>
    program_elmts (pmt_copy s) = program_elmts s \<and> program_info (pmt_copy s) = program_info s"
proof -
  note w = wf_pmt_parts [OF assms(1)]
  let ?c = "pmt_copy s"
  have same: "pmt_hdr ?c = pmt_hdr s" "program_info ?c = program_info s" "program_elmts ?c = program_elmts s"
      "pmt_CRC_32 ?c = 0" by (simp_all add: pmt_copy_def new_pmt_def)
  have "fits_pmt ?c" using w(1) by (simp add: fits_pmt_def same pmt_len_def)
  then have raw: "pmt_serialize ?c = Some (pmt_hdr s @ pmt_body s @ bytes_be32 0)"
    using pmt_serialize_fixed [of ?c, unfolded same, OF w(4,3)] fits_pmt_info [OF w(1)]
    by (auto simp: pmt_raw_def same pmt_body_def)
  have "pmt_calcCRC s = Some s"
    using pmt_calcCRC_fixed [OF w(4,3) _ _ w(1)] fits_pmt_info [OF w(1)] w(7) by auto
  moreover have "pmt_serialize s = Some ((pmt_hdr s @ pmt_body s) @ bytes_be32 (pmt_CRC_32 s) @ [])"
    using pmt_serialize_wf [OF assms(1)] by (simp add: pmt_raw_def)
  moreover have "pmt_hdr s @ pmt_body s \<noteq> []" unfolding w(4) by (simp add: pmt_fixed_def)
  moreover have "bytes_be32 (pmt_CRC_32 s) \<noteq> bytes_be32 0"
  proof
    assume "bytes_be32 (pmt_CRC_32 s) = bytes_be32 0"
    then have "be32 (bytes_be32 (pmt_CRC_32 s) ! 0) (bytes_be32 (pmt_CRC_32 s) ! 1)
        (bytes_be32 (pmt_CRC_32 s) ! 2) (bytes_be32 (pmt_CRC_32 s) ! 3) = be32 0 0 0 0"
      by (simp only:) (simp add: bytes_be32_def)
    then show False using assms(2) by (simp add: bytes_be32_def be32_bytes) (simp add: be32_def)
  qed
  ultimately have "\<not> valid_section ((pmt_hdr s @ pmt_body s) @ bytes_be32 0 @ [])"
    by (intro pmt_crc.refresh_detects [of s s]) simp_all
  then show ?thesis using raw same by simp
qed

text \<open>
  Property C28. A section may hold several descriptors with one tag, in the program loop or in an element.
  \<open>parse\<close> accepts it and drops all but the first of each tag, but keeps the length fields of the fixed
  part: \<open>section_length()\<close> still names the received length, and \<open>serialize\<close> then writes a section that
  is shorter than it says.
\<close>

theorem pmt_parse_drops_repeated_tags:
  assumes "length mid = 7" and "list_all wf_descriptor infos" and "list_all fits_element elms"
    and "L = 13 + length (dbytes infos) + length (ebytes elms)" "L < 1024" and "length rest < 2 ^ 62"
    and "\<not> distinct_tags infos \<or> (\<exists>pe \<in> set elms. \<not> distinct_tags (descriptors pe))"
    and "buf = pmt_section mid infos elms c @ rest"
  shows "\<exists>s' raw. do { t \<leftarrow> pmt_of buf (int (length buf)); pmt_parse t } = Some (s', True) \<and>
    program_info s' = dedup infos \<and> program_elmts s' = map dedup_element elms \<and>
    pmt_section_length s' = Some (word_of_nat L) \<and> pmt_serialize s' = Some raw \<and> length raw < L + 4"
proof -
  define s where "s = new_pmt\<lparr>pmt_hdr := pmt_fixed L mid (length (dbytes infos)), program_info := infos, program_elmts := elms\<rparr>"
  define s' where "s' = s\<lparr>pmt_buffer := buf, program_info := dedup infos, program_elmts := map dedup_element elms\<rparr>"
  define t where "t = s'\<lparr>pmt_CRC_32 := crc_bytes 0xFFFFFFFF (drop 1 (pmt_hdr s) @ pmt_body s')\<rparr>"
  have sel: "program_info s = infos" "program_elmts s = elms" "pmt_hdr s = pmt_fixed L mid (length (dbytes infos))"
      "pmt_len s = L" "pmt_body s = dbytes infos @ ebytes elms"
    using assms(4) by (simp_all add: s_def pmt_len_def pmt_body_def)
  have fits: "fits_pmt s" using assms(2,3,5) by (simp add: fits_pmt_def sel)
  have buf: "buf = pmt_hdr s @ pmt_body s @ bytes_be32 c @ rest"
    using assms(4,8) by (simp add: pmt_section_def sel)
  have "length buf < 2 ^ 63" using assms(1,4-6) by (simp add: buf sel)
  then have parse: "pmt_parse (new_pmt\<lparr>pmt_buffer := buf\<rparr>) = Some (t, True)"
    unfolding t_def using pmt_parse_section [OF fits, of mid buf c rest s'] assms(1) buf
    by (simp add: sel s'_def)
  have tsel: "program_info t = dedup infos" "program_elmts t = map dedup_element elms" "pmt_hdr t = pmt_hdr s"
      "pmt_buffer t = buf" by (simp_all add: t_def s'_def)
  have "(word_of_nat L :: u16) < 0x400" using assms(5) by (simp add: word_less_nat_alt)
  then have sl: "pmt_section_length t = Some (word_of_nat L)"
    using length_fields(1) [of "word_of_nat L"]
    by (simp add: pmt_section_length_def tsel) (simp add: buf sel pmt_fixed_def rd16_def endian_simps)
  have short: "length (dbytes (dedup infos)) + length (ebytes (map dedup_element elms)) < L - 13"
    using assms(4,7) dedup_drops [of infos] dedup_elements_drops dedup_length [of infos]
      dedup_elements_length [of elms] by fastforce
  have "list_all fits_element (map dedup_element elms)"
    using assms(3) dedup_element_fits by (auto simp: list_all_iff wf_element_def)
  then have "fits_pmt t"
    using assms(2,5) short by (simp add: fits_pmt_def tsel pmt_len_def dedup_all)
  then have "pmt_serialize t = Some (pmt_raw t)"
    using pmt_serialize_fixed [of t L mid "length (dbytes infos)"] assms(1) fits_pmt_info [OF fits]
    by (simp add: tsel sel)
  moreover have "length (pmt_raw t) < L + 4"
    using short assms(1) by (simp add: pmt_raw_def pmt_body_def tsel sel)
  ultimately show ?thesis using parse sl tsel by (auto simp: pmt_of_all)
qed

theorem pmt_parse_drops_repeated_tags_witness:
  "\<exists>s' raw. do { t \<leftarrow> pmt_of (pmt_section [0, 1, 0xC1, 0, 0, 0xE1, 0] [\<lparr>dtag = 9, dvalue = [1]\<rparr>, \<lparr>dtag = 9, dvalue = [2]\<rparr>] [] 0 @ [])
       (int (length (pmt_section [0, 1, 0xC1, 0, 0, 0xE1, 0] [\<lparr>dtag = 9, dvalue = [1]\<rparr>, \<lparr>dtag = 9, dvalue = [2]\<rparr>] [] 0 @ [])));
       pmt_parse t } = Some (s', True) \<and>
     program_info s' = dedup [\<lparr>dtag = 9, dvalue = [1]\<rparr>, \<lparr>dtag = 9, dvalue = [2]\<rparr>] \<and>
     pmt_serialize s' = Some raw \<and> length raw < 23"
  using pmt_parse_drops_repeated_tags [where mid = "[0, 1, 0xC1, 0, 0, 0xE1, 0]" and c = 0 and
      infos = "[\<lparr>dtag = 9, dvalue = [1]\<rparr>, \<lparr>dtag = 9, dvalue = [2]\<rparr>]" and elms = "[]" and L = 19 and rest = "[]",
      OF _ _ _ _ _ _ _ refl]
  by (auto simp: wf_descriptor_def)


text \<open>
  A pointer field \<open>k > 0\<close> means \<open>k\<close> filler bytes before the section. \<open>parse\<close> looks for the
  table id in the last filler byte, so a table behind a pointer field is refused unless that byte
  happens to be 2; the bytes read so far stay in the fixed part.
\<close>

lemma pmt_parse_refuses_pointer:
  assumes "buf ! 0 = k" and "k \<noteq> 0" and "unat k + 4 \<le> length buf" and "buf ! unat k \<noteq> 2"
  shows "\<exists>t s'. pmt_of buf (int (length buf)) = Some t \<and> pmt_parse t = Some (s', False) \<and>
    program_elmts s' = [] \<and> program_info s' = []"
proof -
  have k: "0 < unat k" using assms(2) by (simp add: unat_gt_0)
  have r0: "rd buf 0 = Some k" and rk: "rd buf (unat k) = Some (buf ! unat k)"
    using assms(1,3) by (auto simp: rd_def)
  have "rd_n buf 1 (unat k - 1) \<noteq> None" using assms(3) k by (simp add: rd_n_def)
  then obtain st where st: "rd_n buf 1 (unat k - 1) = Some st" by blast
  let ?t = "new_pmt\<lparr>pmt_buffer := buf\<rparr>"
  have ne: "buf \<noteq> []" using assms(3) by auto
  obtain v where "rd16 buf (unat k + 2) = Some v" using rd16_defined [of buf "unat k + 2"] assms(3) by auto
  then have "canParse ?t \<noteq> None"
    using r0 ne assms(2,3) by (simp add: canParse_def pmt_section_length_def new_pmt_def)
  then obtain ok where ok: "canParse ?t = Some ok" by blast
  have "pmt_parse ?t = Some (if ok then ?t\<lparr>pmt_hdr := k # st\<rparr> else ?t, False)"
    using ok r0 rk st assms(2,4) by (simp add: pmt_parse_def Let_def) (simp add: new_pmt_def)
  then show ?thesis by (auto simp: pmt_of_all) (simp_all add: new_pmt_def)
qed

text \<open>
  For a section length below 184 \<open>canParse\<close> answers true whatever has arrived, and
  \<open>parse\<close> then reads the CRC past the end of a shorter buffer. A table whose section length is 181 to 183 does not fit the
  184 payload bytes of its first packet, so it always does.
\<close>

lemma pmt_parse_short_buffer:
  assumes "buf ! 0 = 0" and "buf ! 1 = 2" and "4 \<le> length buf"
    and "L = unat (be16 (buf ! 2) (buf ! 3) AND 0x3FF)" and "0 < L" "L < 184"
  shows "canParse (new_pmt\<lparr>pmt_buffer := buf\<rparr>) = Some True \<and>
    (length buf < L + 4 \<longrightarrow> pmt_parse (new_pmt\<lparr>pmt_buffer := buf\<rparr>) = None)"
proof -
  have rds: "rd buf 0 = Some 0" "rd buf 1 = Some 2" "rd16 buf 2 = Some (le16 (buf ! 2) (buf ! 3))"
    using assms(1-3) by (auto simp: rd_def rd16_def)
  have ne: "buf \<noteq> []" using assms(3) by auto
  let ?l = "be16 (buf ! 2) (buf ! 3) AND 0x3FF :: u16"
  have sl: "pmt_section_length (new_pmt\<lparr>pmt_buffer := buf\<rparr>) = Some ?l"
    using rds ne assms(3) by (simp add: pmt_section_length_def new_pmt_def endian_simps numeral_2_eq_2)
  have "?l \<noteq> 0" "?l < 184" using assms(4-6) by (auto simp: word_less_nat_alt)
  then have can: "canParse (new_pmt\<lparr>pmt_buffer := buf\<rparr>) = Some True" by (simp add: canParse_def sl)
  have "rd32 buf L = None" if "length buf < L + 4"
    using that rd32_defined [of buf L] by auto
  moreover have num: "(2 :: nat) = Suc (Suc 0)" by simp
  ultimately show ?thesis
    using can rds assms(4) by (auto simp: pmt_parse_def Let_def new_pmt_def endian_simps num split: bind_splits)
qed

text \<open>
  The accessors of a well-formed table return the fields of Table 2-33.
\<close>

lemma pmt_fields:
  assumes "wf_pmt s" and "pmt_mid s = [n1, n2, v, sn, lsn, p1, p2]" and "3 \<le> length (pmt_buffer s)"
  shows "pmt_pointer_field s = Some 0 \<and> pmt_table_id s = Some 2 \<and> section_syntax_indicator s = Some True \<and>
    pmt_section_length s = Some (word_of_nat (pmt_len s)) \<and> program_number s = Some (be16 n1 n2) \<and>
    pmt_version_number s = Some (drop_bit 1 v AND 0x1F) \<and> pmt_current_next_indicator s = Some (bit v 0) \<and>
    pmt_section_number s = Some sn \<and> pmt_last_section_number s = Some lsn \<and>
    (\<forall>pid. hasPCR s pid = Some (pid = be16 p1 p2 AND 0x1FFF)) \<and>
    programInfoLength s = Some (word_of_nat (length (dbytes (program_info s))))"
proof -
  note w = wf_pmt_parts [OF assms(1)]
  have len: "(word_of_nat (pmt_len s) :: u16) < 0x400" "length (dbytes (program_info s)) < 1024"
    using w(1) fits_pmt_info [OF w(1)] by (simp_all add: fits_pmt_def word_less_nat_alt)
  have hdr: "pmt_hdr s = [0, 2, hi8 (word_of_nat (pmt_len s)) OR 0xB0, lo8 (word_of_nat (pmt_len s)), n1, n2, v, sn, lsn,
      p1, p2, hi8 (word_of_nat (length (dbytes (program_info s)))) OR 0xF0, lo8 (word_of_nat (length (dbytes (program_info s))))]"
    using w(4) assms(2) by (simp add: pmt_fixed_def)
  have "(x OR 0xB0) AND 0x80 = (0x80 :: u8)" "drop_bit 1 (v AND 0x3E) = drop_bit 1 v AND 0x1F" for x
    by (rule bit_word_eqI; auto simp: bit_simps word_bits)+
  moreover have "(v AND 1 = 1) = bit v 0" by (simp add: and_one_eq odd_iff_mod_2_eq_one bit_0)
  ultimately have bits: "(x OR 0xB0) AND 0x80 = (0x80 :: u8)" "drop_bit 1 (v AND 0x3E) = drop_bit 1 v AND 0x1F"
    "(v AND 1 = 1) = bit v 0" for x by blast+
  have "pmt_buffer s \<noteq> []" using assms(3) by auto
  then have "pmt_section_length s = Some (word_of_nat (pmt_len s))"
    using assms(3) length_fields(1) [OF len(1)]
    by (simp add: pmt_section_length_def hdr rd16_def endian_simps)
  moreover have "programInfoLength s = Some (word_of_nat (length (dbytes (program_info s))))"
    using programInfoLength_fixed [OF w(4,3) len(2)] .
  ultimately show ?thesis
    by (simp add: pmt_pointer_field_def pmt_table_id_def section_syntax_indicator_def hdr8_def hdr16_def hdr
        program_number_def pmt_version_number_def pmt_current_next_indicator_def pmt_section_number_def
        pmt_last_section_number_def hasPCR_def PCR_PID_def rd16_def endian_simps bits)
qed


text \<open>
  The public \<open>serialize\<close> copies descriptor values through an array it does not initialise; it
  writes what the private one does, whatever the array held, and has a result for the same tables.
\<close>

lemma pmt_serialize_out_eq:
  assumes "length val = BUFSIZ"
  shows "pmt_serialize_out val s = pmt_serialize s"
  using assms by (simp add: pmt_serialize_out_def pmt_serialize_eq write_infos_eq cong: if_cong)

end
