(* ===== verification/Pes_Packet.thy ===== *)
theory Pes_Packet
  imports Mp2tp_Prelude
begin

text \<open>
  \<open>lcss::PESPacket\<close> (\<open>tspes.cpp\<close>): the header of a PES packet, its parser and serialiser, and the
  two 33-bit time stamps in it.

  \<open>encodeTimestamp\<close> is written with \<open>std::bitset<64>\<close>; here a bit set is the function of its bits, updated in
  the order of the code. \<open>pts()\<close> and \<open>dts()\<close> shift in \<open>int\<close>: the model keeps 32 bits, as GCC documents for
  \<open><<\<close> on a signed operand, and extends the sign when the result is assigned to \<open>uint64_t\<close>.
  \<open>ptsInSeconds\<close> and \<open>dtsInSeconds\<close>, which divide these by 90000 in \<open>double\<close>, are in \<open>Ts_Writer\<close>.
\<close>

record pes =
  packet_start_code_prefix :: bytes
  pes_stream_id :: u8
  PES_packet_length :: u16
  pes_flags1 :: u8
  pes_flags2 :: u8
  PES_header_data_length :: u8
  pes_PTS :: bytes
  pes_DTS :: bytes

definition new_pes :: pes where
  "new_pes = \<lparr>packet_start_code_prefix = [0, 0, 0], pes_stream_id = 0, PES_packet_length = 0,
     pes_flags1 = 0, pes_flags2 = 0, PES_header_data_length = 0,
     pes_PTS = [0, 0, 0, 0, 0], pes_DTS = [0, 0, 0, 0, 0]\<rparr>"

definition wf_pes :: "pes \<Rightarrow> bool" where
  "wf_pes p \<longleftrightarrow> length (packet_start_code_prefix p) = 3 \<and> length (pes_PTS p) = 5 \<and> length (pes_DTS p) = 5"

section \<open>Encoding a time stamp\<close>

text \<open>The two loops over \<open>bsPTS3\<close> (low 16 bits) and \<open>bsPTS2\<close> (next 16 bits), one turn each.\<close>

definition ts_loop3 :: "u64 \<Rightarrow> nat \<Rightarrow> (nat \<Rightarrow> bool) \<Rightarrow> (nat \<Rightarrow> bool)" where
  "ts_loop3 ts i bs =
     (if i < 15 then bs(i + 1 := bit ts i) else bs(i + 1 := True, i + 2 := bit ts i))"

definition ts_loop2 :: "u64 \<Rightarrow> nat \<Rightarrow> (nat \<Rightarrow> bool) \<Rightarrow> (nat \<Rightarrow> bool)" where
  "ts_loop2 ts i bs =
     (if i < 15 then bs(i + 18 := bit ts (16 + i)) else bs(i + 17 := True, i + 19 := bit ts (16 + i)))"

definition ts_loop1 :: "u64 \<Rightarrow> nat \<Rightarrow> (nat \<Rightarrow> bool) \<Rightarrow> (nat \<Rightarrow> bool)" where
  "ts_loop1 ts i bs = bs(i + 35 := bit ts (32 + i))"

definition ts_bitset :: "u64 \<Rightarrow> nat \<Rightarrow> bool" where
  "ts_bitset ts =
     (fold (ts_loop1 ts) [0..<3] (fold (ts_loop2 ts) [0..<16]
       (fold (ts_loop3 ts) [0..<16] ((\<lambda>_. False)(0 := True)))))(37 := True)"

text \<open>\<open>to_ullong\<close> of the bit set.\<close>

definition to_ullong :: "(nat \<Rightarrow> bool) \<Rightarrow> u64" where
  "to_ullong bs = horner_sum of_bool 2 (map bs [0..<64])"

text \<open>\<open>memcpy\<close> of the five low bytes, then \<open>reverse\<close>.\<close>

definition encodeTimestamp :: "u64 \<Rightarrow> bytes" where
  "encodeTimestamp ts =
     (let n = to_ullong (ts_bitset ts)
      in rev (map (\<lambda>k. ucast (drop_bit (8 * k) n)) [0, 1, 2, 3, 4]))"

section \<open>Decoding a time stamp\<close>

text \<open>The body of \<open>pts()\<close> and \<open>dts()\<close>, on the five bytes of the field.\<close>

definition decodeTimestamp :: "bytes \<Rightarrow> u64" where
  "decodeTimestamp bs =
     (let PTS1 = bs ! 0 AND 0x0E;
          PTS2 = ntohs (le16 (bs ! 1) (bs ! 2));
          PTS3 = ntohs (le16 (bs ! 3) (bs ! 4));
          int32 = push_bit 29 (ucast PTS1) OR push_bit 15 (drop_bit 1 (ucast PTS2))
            OR drop_bit 1 (ucast PTS3) :: u32
      in scast int32 AND 0x1FFFFFFFF)"

definition pts :: "pes \<Rightarrow> u64" where
  "pts p = (let value = pes_flags2 p AND 0xC0 in
     if value = 0xC0 \<or> value = 0x80 then decodeTimestamp (pes_PTS p) else 0)"

definition dts :: "pes \<Rightarrow> u64" where
  "dts p = (let value = pes_flags2 p AND 0xC0 in
     if value = 0xC0 then decodeTimestamp (pes_DTS p) else 0)"

section \<open>Setters\<close>

text \<open>\<open>setPTS(uint8_t*)\<close> and \<open>setDTS(uint8_t*)\<close> copy five bytes from the pointer.\<close>

definition setPTS_bytes :: "pes \<Rightarrow> bytes \<Rightarrow> pes option" where
  "setPTS_bytes p src = do {
     bs \<leftarrow> rd_n src 0 5;
     Some (p\<lparr>PES_header_data_length := 0x05, pes_flags2 := 0x80, pes_PTS := bs\<rparr>) }"

definition setDTS_bytes :: "pes \<Rightarrow> bytes \<Rightarrow> pes option" where
  "setDTS_bytes p src = do {
     bs \<leftarrow> rd_n src 0 5;
     Some (p\<lparr>PES_header_data_length := 0x0A, pes_flags2 := 0xC0, pes_DTS := bs\<rparr>) }"

definition setPTS :: "pes \<Rightarrow> u64 \<Rightarrow> pes" where
  "setPTS p t =
     p\<lparr>PES_header_data_length := 0x05, pes_flags2 := 0x80, pes_PTS := encodeTimestamp t\<rparr>"

definition setDTS :: "pes \<Rightarrow> u64 \<Rightarrow> pes" where
  "setDTS p t =
     p\<lparr>PES_header_data_length := 0x0A, pes_flags2 := 0xC0, pes_DTS := encodeTimestamp t\<rparr>"

definition pes_reset :: "pes \<Rightarrow> pes" where
  "pes_reset p = p\<lparr>pes_stream_id := 0\<rparr>"

section \<open>Parsing and serialising the header\<close>

definition hasPacketStartCodePrefix :: "pes \<Rightarrow> bool" where
  "hasPacketStartCodePrefix p \<longleftrightarrow>
     packet_start_code_prefix p ! 0 = 0 \<and> packet_start_code_prefix p ! 1 = 0 \<and>
     packet_start_code_prefix p ! 2 = 1"

text \<open>\<open>parsePTS\<close>, on the stream at offset \<open>off\<close>.\<close>

definition parsePTS :: "pes \<Rightarrow> bytes \<Rightarrow> nat \<Rightarrow> (pes \<times> u16) option" where
  "parsePTS p stream off =
     (let value = pes_flags2 p AND 0xC0 in
      if value > 0 then
        if value = 0xC0 then do {
          a \<leftarrow> rd_n stream off 5;
          b \<leftarrow> rd_n stream (off + 5) 5;
          Some (p\<lparr>pes_PTS := a, pes_DTS := b\<rparr>, 10)
        }
        else if value = 0x80 then do {
          a \<leftarrow> rd_n stream off 5;
          Some (p\<lparr>pes_PTS := a\<rparr>, 5)
        }
        else Some (p, 0)
      else Some (p, 0))"

definition has_pes_header :: "u8 \<Rightarrow> bool" where
  "has_pes_header stream_id \<longleftrightarrow> stream_id \<noteq> 188 \<and> stream_id \<noteq> 190 \<and> stream_id \<noteq> 191 \<and>
     stream_id \<noteq> 240 \<and> stream_id \<noteq> 241 \<and> stream_id \<noteq> 255 \<and> stream_id \<noteq> 242 \<and> stream_id \<noteq> 248"

definition pes_parse :: "pes \<Rightarrow> bytes \<Rightarrow> (pes \<times> u16) option" where
  "pes_parse p stream =
     (if pes_stream_id p = 0 then do {
        prefix \<leftarrow> rd_n stream 0 3;
        let p = p\<lparr>packet_start_code_prefix := prefix\<rparr>;
        if \<not> hasPacketStartCodePrefix p then Some (p, 0)
        else do {
          sid \<leftarrow> rd stream 3;
          len \<leftarrow> rd16 stream 4;
          let p = p\<lparr>pes_stream_id := sid, PES_packet_length := ntohs len\<rparr>;
          if has_pes_header sid then do {
            f1 \<leftarrow> rd stream 6;
            f2 \<leftarrow> rd stream 7;
            hdl \<leftarrow> rd stream 8;
            let p = p\<lparr>pes_flags1 := f1, pes_flags2 := f2, PES_header_data_length := hdl\<rparr>;
            let cur = (9 :: u16);
            let curPlusHeaderLen = (9 + ucast hdl :: u16);
            let ptsflag = f2 AND 0xC0;
            (p, n) \<leftarrow> (if ptsflag > 0 then parsePTS p stream 9 else Some (p, 0));
            let cur = cur + n;
            Some (p, cur + (curPlusHeaderLen - cur))
          }
          else Some (p, 6)
        }
      }
      else Some (p, 0))"

text \<open>\<open>serialize\<close> writes to the front of the caller's buffer.\<close>

definition pes_header_bytes :: "pes \<Rightarrow> bytes" where
  "pes_header_bytes p =
     (let pre = packet_start_code_prefix p;
          buf = bytes16 (htons (PES_packet_length p));
          value = pes_flags2 p AND 0xC0
      in [pre ! 0, pre ! 1, pre ! 2, pes_stream_id p, buf ! 0, buf ! 1,
          pes_flags1 p, pes_flags2 p, PES_header_data_length p]
         @ (if value > 0 then
              if value = 0xC0 then map ((!) (pes_PTS p)) [0..<5] @ map ((!) (pes_DTS p)) [0..<5]
              else if value = 0x80 then map ((!) (pes_PTS p)) [0..<5]
              else []
            else []))"

definition pes_serialize :: "pes \<Rightarrow> bytes \<Rightarrow> bytes option" where
  "pes_serialize p stream =
     (let hdr = pes_header_bytes p
      in if length hdr \<le> length stream then Some (hdr @ drop (length hdr) stream) else None)"

section \<open>Time stamps bit by bit\<close>

text \<open>The bits of the encoder's result: those of ISO/IEC 13818-1, but bit 33 is never written.\<close>

lemma ts_loop3_fold:
  "k \<le> 15 \<Longrightarrow> fold (ts_loop3 ts) [0..<k] bs n = (if 1 \<le> n \<and> n \<le> k then bit ts (n - 1) else bs n)"
  by (induction k) (auto simp: ts_loop3_def)

lemma ts_loop2_fold:
  "k \<le> 15 \<Longrightarrow> fold (ts_loop2 ts) [0..<k] bs n = (if 18 \<le> n \<and> n < 18 + k then bit ts (n - 2) else bs n)"
  by (induction k) (auto simp: ts_loop2_def)

lemma upt_16: "[0..<16] = [0..<15] @ [15]"
  using upt_Suc [of 0 15] by simp

lemma ts_bitset_eq:
  "ts_bitset ts n \<longleftrightarrow>
     n = 0 \<or> n = 16 \<or> n = 32 \<or> n = 37 \<or> 1 \<le> n \<and> n < 16 \<and> bit ts (n - 1) \<or>
     17 \<le> n \<and> n < 32 \<and> bit ts (n - 2) \<or> 34 \<le> n \<and> n < 37 \<and> bit ts (n - 3)"
proof -
  have "[0..<3] = [0, 1, 2 :: nat]" by (simp add: upt_from_0 upt_from_1)
  then show ?thesis
    unfolding ts_bitset_def upt_16 fold_append comp_def
    by (auto simp: ts_loop3_fold ts_loop2_fold ts_loop1_def ts_loop3_def ts_loop2_def)
qed

lemma bit_to_ullong: "bit (to_ullong bs) n \<longleftrightarrow> n < 64 \<and> bs n"
  by (auto simp: to_ullong_def bit_horner_sum_bit_word_iff)

text \<open>The bits of the decoder's result: bit 32 of the field is lost, and bit 31 is copied into its place.\<close>

lemma bit_decodeTimestamp_int32:
  "bit (push_bit 29 (ucast (a AND 0x0E :: u8)) OR push_bit 15 (drop_bit 1 (ucast (be16 b c)))
       OR drop_bit 1 (ucast (be16 d e)) :: u32) n \<longleftrightarrow>
     n < 7 \<and> bit e (n + 1) \<or> 7 \<le> n \<and> n < 15 \<and> bit d (n - 7) \<or>
     15 \<le> n \<and> n < 22 \<and> bit c (n - 14) \<or> 22 \<le> n \<and> n < 30 \<and> bit b (n - 22) \<or>
     n = 30 \<and> bit a 1 \<or> n = 31 \<and> bit a 2"
proof -
  have "n < 7 \<or> (\<exists>k. n = 7 + k \<and> k < 8) \<or> (\<exists>k. n = 15 + k \<and> k < 7) \<or> (\<exists>k. n = 22 + k \<and> k < 7) \<or>
      n = 29 \<or> n = 30 \<or> n = 31 \<or> 32 \<le> n" by presburger
  then show ?thesis
    by (elim disjE exE conjE) (simp_all add: bit_simps bit_be16 word_bits)
qed

lemma bit_decodeTimestamp:
  "bit (decodeTimestamp [a, b, c, d, e]) n \<longleftrightarrow>
     n < 7 \<and> bit e (n + 1) \<or> 7 \<le> n \<and> n < 15 \<and> bit d (n - 7) \<or>
     15 \<le> n \<and> n < 22 \<and> bit c (n - 14) \<or> 22 \<le> n \<and> n < 30 \<and> bit b (n - 22) \<or>
     n = 30 \<and> bit a 1 \<or> (n = 31 \<or> n = 32) \<and> bit a 2"
proof -
  have sext: "bit (scast w AND 0x1FFFFFFFF :: u64) n \<longleftrightarrow> n < 32 \<and> bit w n \<or> n = 32 \<and> bit w 31"
    for w :: u32 and n
  proof -
    consider "n < 31" | "n = 31" | "n = 32" | "33 \<le> n" by linarith
    then show ?thesis by cases (simp_all add: bit_simps word_bits min_def)
  qed
  define w where "w = (push_bit 29 (ucast (a AND 0x0E)) OR push_bit 15 (drop_bit 1 (ucast (be16 b c)))
       OR drop_bit 1 (ucast (be16 d e)) :: u32)"
  have dec: "decodeTimestamp [a, b, c, d, e] = scast w AND 0x1FFFFFFFF"
    by (simp add: decodeTimestamp_def Let_def w_def ntohs_le16)
  have bw: "bit w k \<longleftrightarrow> k < 7 \<and> bit e (k + 1) \<or> 7 \<le> k \<and> k < 15 \<and> bit d (k - 7) \<or>
     15 \<le> k \<and> k < 22 \<and> bit c (k - 14) \<or> 22 \<le> k \<and> k < 30 \<and> bit b (k - 22) \<or>
     k = 30 \<and> bit a 1 \<or> k = 31 \<and> bit a 2" for k
    unfolding w_def by (rule bit_decodeTimestamp_int32)
  consider "n < 32" | "n = 32" | "33 \<le> n" by linarith
  then show ?thesis
  proof cases
    case 1
    then have "bit (decodeTimestamp [a, b, c, d, e]) n \<longleftrightarrow> bit w n" by (simp add: dec sext)
    then show ?thesis using 1 bw [of n] by simp
  qed (simp_all add: dec sext bw)
qed

lemma encodeTimestamp_eq:
  "encodeTimestamp ts = map (\<lambda>k. ucast (drop_bit (8 * k) (to_ullong (ts_bitset ts)))) [4, 3, 2, 1, 0]"
  by (simp add: encodeTimestamp_def Let_def)

text \<open>What \<open>pts()\<close> and \<open>dts()\<close> make of an encoded time stamp.\<close>

lemma decode_encode:
  "decodeTimestamp (encodeTimestamp ts) =
     (ts AND 0x3FFFFFFF) OR (if bit ts 31 then 0x180000000 else 0)"
proof (rule bit_word_eqI)
  fix n assume "n < LENGTH(64)"
  have enc: "bit (ucast (drop_bit k (to_ullong (ts_bitset ts))) :: u8) m \<longleftrightarrow>
      m < 8 \<and> k + m < 64 \<and> ts_bitset ts (k + m)" for k m
    by (auto simp: bit_simps bit_to_ullong)
  have "n < 7 \<or> (\<exists>k. n = 7 + k \<and> k < 8) \<or> (\<exists>k. n = 15 + k \<and> k < 7) \<or> (\<exists>k. n = 22 + k \<and> k < 7) \<or>
      n = 29 \<or> n = 30 \<or> n = 31 \<or> n = 32 \<or> 33 \<le> n" by presburger
  then show "bit (decodeTimestamp (encodeTimestamp ts)) n =
      bit ((ts AND 0x3FFFFFFF) OR (if bit ts 31 then 0x180000000 else 0)) n"
    by (elim disjE exE conjE)
       (simp_all add: encodeTimestamp_eq bit_decodeTimestamp enc bit_to_ullong ts_bitset_eq bit_simps word_bits)
qed

section \<open>The header on the wire\<close>

lemma map_nth_5: "length xs = 5 \<Longrightarrow> map ((!) xs) [0..<5] = xs"
  using map_nth [of xs] by simp

lemma pes_header_bytes_eq:
  assumes "wf_pes p"
  shows "pes_header_bytes p =
    packet_start_code_prefix p @
    [pes_stream_id p, hi8 (PES_packet_length p), lo8 (PES_packet_length p), pes_flags1 p, pes_flags2 p,
     PES_header_data_length p] @
    (if pes_flags2 p AND 0xC0 = 0xC0 then pes_PTS p @ pes_DTS p
     else if pes_flags2 p AND 0xC0 = 0x80 then pes_PTS p else [])"
proof -
  obtain a b c where pre: "packet_start_code_prefix p = [a, b, c]"
    using assms by (auto simp: wf_pes_def length_Suc_conv eval_nat_numeral)
  show ?thesis
    using assms by (auto simp: pes_header_bytes_def Let_def pre endian_simps wf_pes_def map_nth_5
      word_gt_0 map_nth_5 simp del: upt_rec_numeral)
qed

lemma rd_n_Cons [simp]: "0 < i \<Longrightarrow> rd_n (x # xs) i n = rd_n xs (i - 1) n"
  by (cases i) (simp_all add: rd_n_def)

lemma rd_n_start_code: "rd_n (a # b # c # xs) 0 3 = Some [a, b, c]"
  by (simp add: rd_n_def eval_nat_numeral)

text \<open>The parser on nine header bytes and a tail.\<close>

lemma pes_parse_header:
  assumes "pes_stream_id q = 0" and "has_pes_header sid"
  shows "pes_parse q (0 # 0 # 1 # sid # h # l # f1 # f2 # hdl # tail) =
    (let r = q\<lparr>packet_start_code_prefix := [0, 0, 1], pes_stream_id := sid, PES_packet_length := be16 h l,
          pes_flags1 := f1, pes_flags2 := f2, PES_header_data_length := hdl\<rparr>;
         size = 9 + ucast hdl
     in if f2 AND 0xC0 = 0xC0
        then do { a \<leftarrow> rd_n tail 0 5; b \<leftarrow> rd_n tail 5 5; Some (r\<lparr>pes_PTS := a, pes_DTS := b\<rparr>, size) }
        else if f2 AND 0xC0 = 0x80 then do { a \<leftarrow> rd_n tail 0 5; Some (r\<lparr>pes_PTS := a\<rparr>, size) }
        else Some (r, size))"
  using assms
  by (auto simp: pes_parse_def rd_n_start_code hasPacketStartCodePrefix_def rd16_def endian_simps
      parsePTS_def Let_def word_gt_0 split: bind_splits)

section \<open>Properties\<close>

text \<open>
  Property C27. The time stamp that \<open>pts()\<close> returns after \<open>setPTS\<close>, and \<open>dts()\<close> after \<open>setDTS\<close>, for every
  64-bit value: the low 30 bits survive, bit 30 is always lost (the encoder never writes it), and bit
  31 comes back as bits 31 and 32. So values below \<open>2^30\<close>, about 3 hours 18 minutes, are returned
  unchanged.
\<close>

theorem timestamp_set_get:
  "pts (setPTS p t) = (t AND 0x3FFFFFFF) OR (if bit t 31 then 0x180000000 else 0) \<and>
   dts (setDTS p t) = (t AND 0x3FFFFFFF) OR (if bit t 31 then 0x180000000 else 0)"
  by (simp add: pts_def dts_def setPTS_def setDTS_def decode_encode)

text \<open>
  Property C25. Round trip of the header: \<open>parse\<close> of what \<open>serialize\<close> wrote, into a packet that is ready
  to parse, gives back every field, and the time stamps whose flags are set; the others keep the
  reader's values. The returned size is 9 plus the header data length.
\<close>

theorem pes_roundtrip:
  assumes "wf_pes p" and "packet_start_code_prefix p = [0, 0, 1]" and "has_pes_header (pes_stream_id p)"
    and "pes_stream_id q = 0" and "pes_serialize p buf = Some bs"
  shows "pes_parse q bs =
    Some (p\<lparr>pes_PTS := (if pes_flags2 p AND 0xC0 \<in> {0x80, 0xC0} then pes_PTS p else pes_PTS q),
            pes_DTS := (if pes_flags2 p AND 0xC0 = 0xC0 then pes_DTS p else pes_DTS q)\<rparr>,
          9 + ucast (PES_header_data_length p))"
proof -
  have len: "length (pes_PTS p) = 5" "length (pes_DTS p) = 5" using assms(1) by (simp_all add: wf_pes_def)
  define rest where "rest = drop (length (pes_header_bytes p)) buf"
  have "bs = pes_header_bytes p @ rest"
    using assms(5) by (simp add: pes_serialize_def rest_def Let_def split: if_splits)
  then have bs: "bs = 0 # 0 # 1 # pes_stream_id p # hi8 (PES_packet_length p) # lo8 (PES_packet_length p) #
      pes_flags1 p # pes_flags2 p # PES_header_data_length p #
      (if pes_flags2 p AND 0xC0 = 0xC0 then pes_PTS p @ pes_DTS p @ rest
       else if pes_flags2 p AND 0xC0 = 0x80 then pes_PTS p @ rest else rest)"
    using assms(2) by (simp add: pes_header_bytes_eq [OF assms(1)])
  show ?thesis
    unfolding bs pes_parse_header [OF assms(4,3)]
    using len by (simp add: mem_simps endian_simps assms(2) Let_def)
qed

text \<open>
  \<open>parse\<close> reads at most 19 bytes. It returns 0 for a packet that already has a stream id
  and for bytes without the start code \<open>00 00 01\<close>; 6 for the eight stream types without a PES header;
  and otherwise the offset of the payload, past any stuffing.
\<close>

lemma pes_parse_total:
  assumes "19 \<le> length bs"
  shows "\<exists>q n. pes_parse p bs = Some (q, n) \<and> (wf_pes p \<longrightarrow> wf_pes q) \<and>
    n = (if pes_stream_id p \<noteq> 0 \<or> take 3 bs \<noteq> [0, 0, 1] then 0
         else if has_pes_header (pes_stream_id q) then 9 + ucast (PES_header_data_length q) else 6)"
proof -
  obtain a b c sid h l f1 f2 hdl tail where bs: "bs = a # b # c # sid # h # l # f1 # f2 # hdl # tail"
      and tail: "10 \<le> length tail"
    using assms by (auto simp: Suc_le_length_iff numeral_eq_Suc)
  have t3: "take 3 bs = [a, b, c]" by (simp add: bs)
  consider "pes_stream_id p \<noteq> 0" | "pes_stream_id p = 0" "[a, b, c] \<noteq> [0, 0, 1]"
    | "pes_stream_id p = 0" "[a, b, c] = [0, 0, 1]" "has_pes_header sid"
    | "pes_stream_id p = 0" "[a, b, c] = [0, 0, 1]" "\<not> has_pes_header sid" by blast
  then show ?thesis
  proof cases
    case 1
    then show ?thesis by (simp add: pes_parse_def)
  next
    case 2
    then have "pes_parse p bs = Some (p\<lparr>packet_start_code_prefix := [a, b, c]\<rparr>, 0)"
      by (auto simp: pes_parse_def bs rd_n_start_code hasPacketStartCodePrefix_def)
    then show ?thesis using 2 by (simp add: t3 wf_pes_def)
  next
    case 3
    have "rd_n tail 0 5 = Some (take 5 tail)" "rd_n tail 5 5 = Some (take 5 (drop 5 tail))"
      using tail by (simp_all add: rd_n_def)
    then show ?thesis using 3 tail unfolding t3 unfolding bs
      by (auto simp: pes_parse_header Let_def wf_pes_def)
  next
    case 4
    then have "pes_parse p bs = Some (p\<lparr>packet_start_code_prefix := [0, 0, 1], pes_stream_id := sid,
        PES_packet_length := be16 h l\<rparr>, 6)"
      by (simp add: pes_parse_def bs rd_n_start_code hasPacketStartCodePrefix_def rd16_def endian_simps)
    then show ?thesis using 4 by (simp add: t3 wf_pes_def)
  qed
qed

theorem pes_roundtrip_witness:
  "pes_parse new_pes ([0, 0, 1, 0xBD, 0, 13, 0x80, 0x80, 5, 0x21, 0, 1, 0, 1] @ [7, 7]) =
   Some (\<lparr>packet_start_code_prefix = [0, 0, 1], pes_stream_id = 0xBD, PES_packet_length = 13,
     pes_flags1 = 0x80, pes_flags2 = 0x80, PES_header_data_length = 5, pes_PTS = [0x21, 0, 1, 0, 1],
     pes_DTS = [0, 0, 0, 0, 0]\<rparr>, 14)"
proof -
  let ?p = "\<lparr>packet_start_code_prefix = [0, 0, 1], pes_stream_id = 0xBD, PES_packet_length = 13,
     pes_flags1 = 0x80, pes_flags2 = 0x80, PES_header_data_length = 5, pes_PTS = [0x21, 0, 1, 0, 1],
     pes_DTS = [0, 0, 0, 0, 0]\<rparr>"
  let ?bs = "[0, 0, 1, 0xBD, 0, 13, 0x80, 0x80, 5, 0x21, 0, 1, 0, 1] @ [7, 7] :: bytes"
  have wf: "wf_pes ?p" by (simp add: wf_pes_def)
  have "hi8 13 = 0" "lo8 13 = 13" by (simp_all add: hi8_def lo8_def drop_bit_eq_div)
  then have ser: "pes_serialize ?p ?bs = Some ?bs"
    by (simp add: pes_serialize_def pes_header_bytes_eq [OF wf] Let_def)
  show ?thesis
    by (subst pes_roundtrip [OF wf _ _ _ ser]) (simp_all add: has_pes_header_def new_pes_def)
qed

end
