(* ===== verification/Decoder.thy ===== *)
theory Decoder
  imports TS_Parser Program_Association Program_Map Pes_Packet
begin

text \<open>
  The command \<open>mp2tp\<close>: \<open>TsDecoder\<close> (\<open>TsDecoder.cpp\<close>), the client of the parser that dispatches packets
  to the tables, and the read loop of \<open>main.cpp\<close>.  What is written to the output stream is kept as a
  list of the objects that are written; \<open>Ts_Writer\<close> turns it into text.
\<close>

section \<open>The decoder\<close>

datatype dec_event =
    Open
  | Header ts_packet
  | PAT pat
  | NIT
  | PMT pmt
  | PES pes
  | Close_packet

record decoder =
  dec_pat :: pat
  dec_pmt :: pmt
  dec_out :: "dec_event list"

definition new_decoder :: decoder where
  "new_decoder = \<lparr>dec_pat = new_pat, dec_pmt = new_pmt, dec_out = [Open]\<rparr>"

definition emit :: "dec_event \<Rightarrow> decoder \<Rightarrow> decoder" where
  "emit x d = d\<lparr>dec_out := dec_out d @ [x]\<rparr>"

text \<open>Dereferencing the pointer that \<open>getData\<close> returned.\<close>

definition deref :: "bytes option \<Rightarrow> bytes option" where
  "deref p = p"

definition onPacket :: "decoder \<Rightarrow> ts_packet \<Rightarrow> decoder option" where
  "onPacket d pckt = do {
     let d = emit (Header pckt) d;
     data \<leftarrow> getData pckt;
     d \<leftarrow> (if payloadUnitStart pckt then
            if PID pckt = 0 then do {
              bs \<leftarrow> deref data;
              pat \<leftarrow> pat_parse bs (dec_pat d);
              Some (emit (PAT pat) (d\<lparr>dec_pat := pat\<rparr>))
            }
            else (case pat_find (dec_pat d) (PID pckt) of
                Some program \<Rightarrow>
                  if program = 0 then Some (emit NIT d)
                  else do {
                    db \<leftarrow> data_byte pckt;
                    bs \<leftarrow> deref data;
                    pmt \<leftarrow> pmt_of bs (uint db);
                    (pmt, ok) \<leftarrow> pmt_parse pmt;
                    let d = d\<lparr>dec_pmt := pmt\<rparr>;
                    Some (if ok then emit (PMT pmt) d else d)
                  }
              | None \<Rightarrow> do {
                  bs \<leftarrow> deref data;
                  (pes, n) \<leftarrow> pes_parse new_pes bs;
                  Some (if n > 0 then emit (PES pes) d else d)
                })
          else (case pat_find (dec_pat d) (PID pckt) of
              Some program \<Rightarrow>
                if program \<noteq> 0 then do {
                  db \<leftarrow> data_byte pckt;
                  bs \<leftarrow> deref data;
                  pmt \<leftarrow> pmt_add bs (uint db) (dec_pmt d);
                  (pmt, ok) \<leftarrow> pmt_parse pmt;
                  let d = d\<lparr>dec_pmt := pmt\<rparr>;
                  Some (if ok then emit (PMT pmt) d else d)
                }
                else Some d
            | None \<Rightarrow> Some d));
     Some (emit Close_packet d) }"

section \<open>The read loop\<close>

definition read_size :: nat where
  "read_size = TS_SIZE * 7"

definition canStop :: "int \<Rightarrow> int \<Rightarrow> bool" where
  "canStop num limit = (if limit = 0 then False else num > limit)"

text \<open>The part of a path behind its last separator, collected from the end.\<close>

fun base_rev :: "string \<Rightarrow> string" where
  "base_rev [] = []"
| "base_rev (ch # cs) = (if ch = CHR 0x5C \<or> ch = CHR ''/'' then [] else ch # base_rev cs)"

definition getFilename :: "string \<Rightarrow> string" where
  "getFilename path = rev (base_rev (rev path))"

datatype diagnostic =
    Not_a_TS_file
  | Parsing_error int

text \<open>
  The loop of \<open>main\<close>. \<open>input\<close> is what the stream has not delivered yet; a read of fewer than
  \<open>read_size\<close> bytes ends the stream. The array \<open>memblock\<close> keeps older bytes behind a short read.
  The result holds the diagnostics and the exit code.
\<close>

function read_loop ::
  "('c \<Rightarrow> ts_packet \<Rightarrow> 'c option) \<Rightarrow> int \<Rightarrow> bytes \<Rightarrow> bytes \<Rightarrow> int \<Rightarrow> ts_parser \<Rightarrow> 'c \<Rightarrow>
   (diagnostic list \<times> int \<times> ts_parser \<times> 'c) option" where
  "read_loop f limit input memblock bytesRead p c =
     (let chunk = take read_size input;
          gcount = length chunk;
          memblock = chunk @ drop gcount memblock;
          bytesRead = bytesRead + int gcount
      in do {
        (result, p, c) \<leftarrow> parse f memblock (word_of_nat gcount) True p c;
        if \<not> result \<and> bytesRead = int read_size then Some ([Not_a_TS_file], -1, p, c)
        else do {
          let ds = (if result then [] else [Parsing_error bytesRead]);
          if canStop (sint (ucast (packetCount p) :: u32)) limit \<or> gcount < read_size then Some (ds, 0, p, c)
          else do {
            (ds', code, p, c) \<leftarrow> read_loop f limit (drop read_size input) memblock bytesRead p c;
            Some (ds @ ds', code, p, c)
          }
        }
      })"
  by pat_completeness auto
termination
  by (relation "measure (\<lambda>(f, limit, input, memblock, bytesRead, p, c). length input)")
     (auto simp: read_size_def TS_SIZE_def)

declare read_loop.simps [simp del]

text \<open>One turn of the loop, for a chunk that is accepted.\<close>

lemma read_loop_turn:
  assumes "take read_size input = chunk" and "mem' = chunk @ drop (length chunk) mem"
    and "parse f mem' (word_of_nat (length chunk)) True p c = Some (True, p', c')"
  shows "read_loop f n input mem b p c =
    (if canStop (sint (ucast (packetCount p') :: u32)) n \<or> length chunk < read_size then Some ([], 0, p', c')
     else read_loop f n (drop read_size input) mem' (b + int (length chunk)) p' c')"
proof -
  have "do { (ds', code, p, c) \<leftarrow> r; Some ([] @ ds', code, p, c) } = r"
    for r :: "(diagnostic list \<times> int \<times> ts_parser \<times> 'a) option"
    by (cases r) auto
  then show ?thesis using assms by (subst read_loop.simps) (simp add: Let_def)
qed

lemma take_concat_is_ts:
  "list_all is_ts ps \<Longrightarrow> take (188 * n) (concat ps) = concat (take n ps) \<and> drop (188 * n) (concat ps) = concat (drop n ps)"
proof (induction ps arbitrary: n)
  case (Cons b ps)
  then show ?case by (cases n) (auto simp: is_ts_def)
qed simp

lemma parse_empty_chunk:
  "parse f s 0 True (std_parser k []) c = Some (False, std_parser k [], c)"
  using parse_loop_done [of 0 0 f s True 0 True "std_parser k []" c] by (simp add: parse_def)

text \<open>A read of up to seven whole packets.\<close>

lemma read_block:
  assumes "list_all is_ts ps" "ps \<noteq> []" and "feed f (take 7 ps) c = Some c'" and "length mem = read_size"
  shows "read_loop f n (concat ps) mem b (std_parser k []) c =
    (if canStop (sint (ucast (k + word_of_nat (min 7 (length ps))) :: u32)) n \<or> length ps < 7
     then Some ([], 0, std_parser (k + word_of_nat (min 7 (length ps))) [], c')
     else read_loop f n (concat (drop 7 ps)) (concat (take 7 ps)) (b + int read_size) (std_parser (k + 7) []) c')"
proof -
  have sz: "read_size = 188 * 7" by (simp add: read_size_def TS_SIZE_def)
  define qs where "qs = take 7 ps"
  have qs: "list_all is_ts qs" "qs \<noteq> []" "length qs = min 7 (length ps)"
    using assms(1,2) by (auto simp: qs_def list_all_iff dest: in_set_takeD)
  have chunk: "take read_size (concat ps) = concat qs" "drop read_size (concat ps) = concat (drop 7 ps)"
    using take_concat_is_ts [OF assms(1), of 7] by (simp_all add: sz qs_def)
  have n: "length (concat qs) = 188 * length qs" "length qs \<le> 7" using length_concat_is_ts [OF qs(1)] qs(3) by simp_all
  define mem' where "mem' = concat qs @ drop (length (concat qs)) mem"
  have "parse f mem' (word_of_nat (length (concat qs))) True (std_parser k []) c =
      Some (True, std_parser (k + word_of_nat (length qs)) [], c')"
    using parse_chunk [OF qs(1), of "[]" "length (concat qs)" mem' "[]" True f k c] n qs(2) assms(3)
    by (simp add: mem'_def qs_def [symmetric] del: length_concat)
  note turn = read_loop_turn [OF chunk(1) mem'_def this, of n b]
  have short: "length (concat qs) < read_size \<longleftrightarrow> length qs < 7" by (simp only: n(1) sz) simp
  from turn have "read_loop f n (concat ps) mem b (std_parser k []) c =
    (if canStop (sint (ucast (k + word_of_nat (length qs)) :: u32)) n \<or> length qs < 7
     then Some ([], 0, std_parser (k + word_of_nat (length qs)) [], c')
     else read_loop f n (concat (drop 7 ps)) mem' (b + int (length (concat qs))) (std_parser (k + word_of_nat (length qs)) []) c')"
    unfolding chunk(2) short packetCount_def std_parser_simps .
  moreover have "mem' = concat qs" if "7 \<le> length ps"
    using that qs(3) n(1) assms(4) by (simp add: mem'_def sz)
  moreover have "length (concat qs) = read_size" "k + word_of_nat (length qs) = k + 7" if "7 \<le> length ps"
    using that qs(3) n(1) by (simp_all add: sz)
  ultimately show ?thesis
    unfolding qs(3) by (cases "length ps < 7") (simp_all add: qs_def [symmetric])
qed

text \<open>Whole packets in, in reads of seven: \<open>b\<close> bytes were read before.\<close>

lemma read_loop_packets:
  assumes "list_all is_ts ps" and "feed f ps c = Some c'" and "length mem = read_size"
  shows "read_loop f 0 (concat ps) mem b (std_parser k []) c =
    Some (if length ps mod 7 \<noteq> 0 then []
          else if b + 188 * int (length ps) = int read_size then [Not_a_TS_file]
          else [Parsing_error (b + 188 * int (length ps))],
          if length ps mod 7 = 0 \<and> b + 188 * int (length ps) = int read_size then -1 else 0,
          std_parser (k + word_of_nat (length ps)) [], c')"
  using assms
proof (induction "length ps" arbitrary: ps mem b k c rule: less_induct)
  case less
  have sz: "read_size = 188 * 7" by (simp add: read_size_def TS_SIZE_def)
  obtain c1 where c1: "feed f (take 7 ps) c = Some c1" "feed f (drop 7 ps) c1 = Some c'"
    using less.prems(2) feed_append [of f "take 7 ps" "drop 7 ps" c] by (auto split: bind_splits)
  consider "ps = []" | "ps \<noteq> []" "length ps < 7" | "7 \<le> length ps" by linarith
  then show ?case
  proof cases
    case 1
    then show ?thesis
      using parse_empty_chunk [of f mem k c] less.prems(2)
      by (subst read_loop.simps) (simp add: sz canStop_def)
  next
    case 2
    then have "c1 = c'" "length ps mod 7 \<noteq> 0" using c1(2) by simp_all
    then show ?thesis using read_block [OF less.prems(1) 2(1) c1(1) less.prems(3), of 0 b k] 2(2) by simp
  next
    case 3
    define qs where "qs = drop 7 ps"
    have len: "length qs < length ps" "length ps = 7 + length qs" "ps \<noteq> []" using 3 by (auto simp: qs_def)
    have ts: "list_all is_ts qs" "length (concat (take 7 ps)) = read_size"
      using less.prems(1) length_concat_is_ts [of "take 7 ps"] 3
      by (auto simp: qs_def list_all_iff sz dest: in_set_dropD in_set_takeD)
    have "read_loop f 0 (concat ps) mem b (std_parser k []) c =
        read_loop f 0 (concat qs) (concat (take 7 ps)) (b + int read_size) (std_parser (k + 7) []) c1"
      using read_block [OF less.prems(1) len(3) c1(1) less.prems(3), of 0 b k] 3 by (simp add: canStop_def qs_def)
    moreover note less.hyps [OF len(1) ts(1) c1(2) [folded qs_def] ts(2), of "b + int read_size" "k + 7"]
    moreover have "k + 7 + word_of_nat (length qs) = k + word_of_nat (length ps)" unfolding len(2) by (simp add: add.assoc)
    moreover have "b + int read_size + 188 * int (length qs) = b + 188 * int (length ps)"
      unfolding len(2) by (simp add: sz)
    moreover have "length qs mod 7 = length ps mod 7" unfolding len(2) by simp
    ultimately show ?thesis by simp
  qed
qed

section \<open>Steps of the decoder\<close>

text \<open>The tables and headers that were written, without the braces and the packet headers.\<close>

fun is_table :: "dec_event \<Rightarrow> bool" where
  "is_table (PAT p) = True"
| "is_table NIT = True"
| "is_table (PMT s) = True"
| "is_table (PES p) = True"
| "is_table _ = False"

definition tables :: "decoder \<Rightarrow> dec_event list" where
  "tables d = filter is_table (dec_out d)"

lemma emit_simps [simp]:
  "dec_pat (emit x d) = dec_pat d" "dec_pmt (emit x d) = dec_pmt d"
  "tables (emit x d) = tables d @ (if is_table x then [x] else [])"
  "tables (d\<lparr>dec_pmt := s\<rparr>) = tables d" "tables (d\<lparr>dec_pat := p\<rparr>) = tables d"
  by (simp_all add: emit_def tables_def)

lemma payload_pointer:
  assumes "wf_packet p" and "getData p = Some (Some d)"
  shows "data_byte p = Some (word_of_nat (length d))" and "length d \<le> 184"
    and "uint (word_of_nat (length d) :: u8) = int (length d)"
proof -
  have "d = drop (payload_start p) (pk_data p)" using getData_wf [OF assms(1)] assms(2) by simp
  then have len: "length d = payload_size p" using payload_start_size [of p] assms(1) by (simp add: wf_packet_def)
  then show "data_byte p = Some (word_of_nat (length d))" "length d \<le> 184"
    using data_byte_wf [OF assms(1)] payload_size_le [of p] by simp_all
  then show "uint (word_of_nat (length d) :: u8) = int (length d)"
    by (intro uint_of_nat_small) simp
qed

lemma pmt_of_payload:
  "wf_packet p \<Longrightarrow> getData p = Some (Some bs) \<Longrightarrow>
   pmt_of bs (uint (word_of_nat (length bs) :: u8)) = Some (new_pmt\<lparr>pmt_buffer := bs\<rparr>)"
  by (simp only: payload_pointer(3) pmt_of_all)

lemma pmt_add_payload:
  "wf_packet p \<Longrightarrow> getData p = Some (Some bs) \<Longrightarrow>
   pmt_add bs (uint (word_of_nat (length bs) :: u8)) s = Some (s\<lparr>pmt_buffer := pmt_buffer s @ bs\<rparr>)"
  by (simp only: payload_pointer(3)) (simp add: pmt_add_def rd_n_def)

lemma onPacket_pat:
  assumes "getData p = Some (Some bs)" "payloadUnitStart p" "PID p = 0" "pat_parse bs (dec_pat d) = Some pat"
  shows "\<exists>d'. onPacket d p = Some d' \<and> dec_pat d' = pat \<and> dec_pmt d' = dec_pmt d \<and> tables d' = tables d @ [PAT pat]"
  using assms by (simp add: onPacket_def deref_def)

lemma onPacket_pmt_start:
  assumes "wf_packet p" "getData p = Some (Some bs)" "payloadUnitStart p" "PID p \<noteq> 0"
    and "pat_find (dec_pat d) (PID p) = Some program" "program \<noteq> 0"
    and "pmt_parse (new_pmt\<lparr>pmt_buffer := bs\<rparr>) = Some (s, ok)"
  shows "\<exists>d'. onPacket d p = Some d' \<and> dec_pat d' = dec_pat d \<and> dec_pmt d' = s \<and>
    tables d' = tables d @ (if ok then [PMT s] else [])"
  using assms payload_pointer(1) [OF assms(1,2)] pmt_of_payload [OF assms(1,2)]
  by (simp add: onPacket_def deref_def)

lemma onPacket_pmt_more:
  assumes "wf_packet p" "getData p = Some (Some bs)" "\<not> payloadUnitStart p"
    and "pat_find (dec_pat d) (PID p) = Some program" "program \<noteq> 0"
    and "pmt_parse ((dec_pmt d)\<lparr>pmt_buffer := pmt_buffer (dec_pmt d) @ bs\<rparr>) = Some (s, ok)"
  shows "\<exists>d'. onPacket d p = Some d' \<and> dec_pat d' = dec_pat d \<and> dec_pmt d' = s \<and>
    tables d' = tables d @ (if ok then [PMT s] else [])"
  using assms payload_pointer(1) [OF assms(1,2)] pmt_add_payload [OF assms(1,2)]
  by (simp add: onPacket_def deref_def)

section \<open>Properties\<close>

text \<open>
  Property C20. The read loop of \<open>main\<close>, without a limit on the number of packets (0), on a file of whole packets that
  the client accepts: it hands every packet to the client, in order. But it reads once more when the number of packets
  is a multiple of 7, and the strict parser refuses the empty chunk: a file of 7 packets ends with exit
  code -1 and the message that it is not a transport stream, any other such file, the empty one included, with a
  parsing error.
\<close>

theorem main_reads_packets:
  assumes "list_all is_ts ps" and "feed f ps c = Some c'" and "length mem = read_size"
  shows "\<exists>p. read_loop f 0 (concat ps) mem 0 new_parser c =
      Some (if length ps mod 7 \<noteq> 0 then []
            else if length ps = 7 then [Not_a_TS_file] else [Parsing_error (188 * int (length ps))],
            if length ps = 7 then -1 else 0, p, c') \<and>
    packetCount p = word_of_nat (length ps)"
proof -
  have seven: "0 + 188 * int (length ps) = int read_size \<longleftrightarrow> length ps = 7"
    by (auto simp: read_size_def TS_SIZE_def)
  have m: "length ps = 7 \<Longrightarrow> length ps mod 7 = 0" by simp
  show ?thesis
    unfolding new_parser_std read_loop_packets [OF assms] seven
    using m by (intro exI [of _ "std_parser (0 + word_of_nat (length ps)) []"]) (auto simp: packetCount_def)
qed

theorem main_reads_packets_witness:
  "\<exists>p. read_loop onPacket_collect 0 (concat (replicate 7 (0x47 # replicate 187 0))) (replicate read_size 0) 0 new_parser [] =
     Some ([Not_a_TS_file], -1, p, [] @ map pkt (replicate 7 (0x47 # replicate 187 0)))"
proof -
  have ts: "list_all is_ts (replicate 7 (0x47 # replicate 187 0))" by (simp add: list_all_iff is_ts_def)
  have len: "length (replicate 7 x) = 7" "(7 :: nat) mod 7 = 0" for x :: bytes by simp_all
  show ?thesis
    using main_reads_packets [OF ts feed_collect length_replicate, of 0 "[]"]
    unfolding len simp_thms if_True if_False by blast
qed


text \<open>
  Property C30. The decoder gives \<open>parse\<close> a pointer into the packet and no length. A packet on PID 0 whose
  section length announces more entries than the payload can hold makes it read past the packet: no
  decoder state defines a result.
\<close>

theorem decoder_pat_overread:
  assumes "wf_packet p" and "payloadUnitStart p" "PID p = 0" and "getData p = Some (Some bs)"
    and "9 \<le> length bs" "bs ! 0 = 0" and "sl = unat (be16 (bs ! 2) (bs ! 3) AND 0xFFF)"
    and "length bs < 13 + 4 * ((sl - 9 + 3) div 4)"
  shows "onPacket d p = None"
proof -
  have nums: "(1 :: nat) + 1 = 2" "(1 :: nat) + 2 = 3" "(1 :: nat) + 8 = 9" by simp_all
  have offset: "1 = (if bs ! 0 = 0 then 1 else unat (bs ! 0))" by (simp add: assms(6))
  have "\<not> 9 + 4 * ((sl - 9 + 3) div 4) + 4 \<le> length bs" using assms(8) by linarith
  then have "\<nexists>q. pat_parse bs (dec_pat d) = Some q"
    using pat_parse_defined [OF offset, of sl "dec_pat d"] assms(5,7) unfolding nums by blast
  then have "pat_parse bs (dec_pat d) = None" by auto
  then show ?thesis using assms(2-4) by (simp add: onPacket_def deref_def emit_def)
qed

theorem decoder_pat_overread_witness:
  "onPacket new_decoder (pkt ([0x47, 0x40, 0, 0x10, 0, 0, 0xB0, 200] @ replicate 180 0)) = None"
proof -
  let ?p = "pkt ([0x47, 0x40, 0, 0x10, 0, 0, 0xB0, 200] @ replicate 180 0)"
  have p: "wf_packet ?p" "payloadUnitStart ?p" "PID ?p = 0"
    by (simp_all add: wf_packet_def payloadUnitStart_def PID_def le16_def)
  have "adaptationFieldExist ?p = 1" by (simp add: adaptationFieldExist_def drop_bit_eq_div)
  then have "payload_start ?p = 4" by (simp add: payload_start_def payload_size_def)
  then have data: "getData ?p = Some (Some ([0, 0, 0xB0, 200] @ replicate 180 0))"
    using getData_wf [OF p(1)] by simp
  have "200 = unat (be16 0xB0 200 AND 0xFFF)" by (simp add: be16_def push_bit_eq_mult)
  then show ?thesis
    by (intro decoder_pat_overread [OF p data, where sl = 200]) simp_all
qed

end
