(* ===== verification/Access_Unit.thy ===== *)
theory Access_Unit
  imports Mp2tp_Prelude
begin

text \<open>
  \<open>lcss::AccessUnit\<close> (\<open>AccessUnit.cpp\<close>): the bytes of one access unit of an elementary stream with its
  stream id and time stamps, in units of the 90 kHz clock. Copies and moves are in \<open>Object_Lifetime\<close>.
\<close>

record access_unit =
  sodb :: bytes
  au_pts :: u64
  au_dts :: u64
  au_stream_id :: u8

definition new_access_unit :: access_unit where
  "new_access_unit = \<lparr>sodb = [], au_pts = 0, au_dts = 0, au_stream_id = 0\<rparr>"

text \<open>The two constructors that copy \<open>len\<close> bytes from a pointer.\<close>

definition access_unit_bytes :: "bytes \<Rightarrow> nat \<Rightarrow> access_unit option" where
  "access_unit_bytes p len = do {
     bs \<leftarrow> rd_n p 0 len;
     Some (new_access_unit\<lparr>sodb := bs\<rparr>) }"

definition access_unit_of :: "bytes \<Rightarrow> nat \<Rightarrow> u8 \<Rightarrow> u64 \<Rightarrow> u64 \<Rightarrow> access_unit option" where
  "access_unit_of p len streamId t d = do {
     bs \<leftarrow> rd_n p 0 len;
     Some (new_access_unit\<lparr>sodb := bs, au_pts := t, au_dts := d, au_stream_id := streamId\<rparr>) }"

definition au_insert :: "access_unit \<Rightarrow> bytes \<Rightarrow> u32 \<Rightarrow> access_unit option" where
  "au_insert au p len = do {
     bs \<leftarrow> rd_n p 0 (unat len);
     Some (au\<lparr>sodb := sodb au @ bs\<rparr>) }"

definition au_clear :: "access_unit \<Rightarrow> access_unit" where
  "au_clear au = au\<lparr>sodb := [], au_pts := 0, au_dts := 0, au_stream_id := 0\<rparr>"

definition au_length :: "access_unit \<Rightarrow> nat" where
  "au_length au = length (sodb au)"

text \<open>\<open>operator[]\<close>: the guard lets \<open>index == size()\<close> through.\<close>

definition au_index :: "access_unit \<Rightarrow> nat \<Rightarrow> u8 option" where
  "au_index au index = (if index > length (sodb au) then Some 0 else rd (sodb au) index)"

lemma au_index_in: "i < au_length au \<Longrightarrow> au_index au i = Some (sodb au ! i)"
  by (simp add: au_index_def au_length_def rd_def)

lemma au_index_end: "au_index au (au_length au) = None"
  by (simp add: au_index_def au_length_def rd_def)

lemma au_index_behind: "au_length au < i \<Longrightarrow> au_index au i = Some 0"
  by (simp add: au_index_def au_length_def)

definition au_setPTS :: "access_unit \<Rightarrow> u64 \<Rightarrow> access_unit" where
  "au_setPTS au t = au\<lparr>au_pts := t\<rparr>"

definition au_setDTS :: "access_unit \<Rightarrow> u64 \<Rightarrow> access_unit" where
  "au_setDTS au t = au\<lparr>au_dts := t\<rparr>"

definition setStreamId :: "access_unit \<Rightarrow> u8 \<Rightarrow> access_unit" where
  "setStreamId au i = au\<lparr>au_stream_id := i\<rparr>"

text \<open>The copy constructor of \<open>Impl\<close>: the bytes are appended to an empty vector.\<close>

definition access_unit_copy :: "access_unit \<Rightarrow> access_unit" where
  "access_unit_copy src = \<lparr>sodb = [] @ sodb src, au_pts = au_pts src, au_dts = au_dts src, au_stream_id = au_stream_id src\<rparr>"

text \<open>Access units are equal as values; \<open>size\<close> is the number of bytes.\<close>

lemma au_insert_eq:
  "unat len \<le> length p \<Longrightarrow> au_insert au p len = Some (au\<lparr>sodb := sodb au @ take (unat len) p\<rparr>)"
  by (simp add: au_insert_def rd_n_def)

end
