(* ===== verification/TS_Packer.thy ===== *)
theory TS_Packer
  imports Transport_Packet Access_Unit "HOL-Library.Signed_Division"
begin

text \<open>
  \<open>lcss::TSPacker\<close> (\<open>tspacker.cpp\<close>): cuts a section or an access unit into transport packets. The
  three entry points are \<open>packetize_one\<close> (at most 184 bytes), \<open>packetize\<close> (any number of bytes) and
  \<open>packetizePES\<close>; each packet under construction is the vector \<open>tsd\<close>. A constructor of a transport
  packet copies 188 bytes whatever \<open>tsd.size()\<close> is: fewer are an access past the vector
  (\<^const>\<open>None\<close>), and further ones are left out.

  Sizes (\<open>size_t\<close>) are natural numbers, the continuity counter \<open>size_t* cc\<close> is a 64-bit word. A vector
  holds fewer than \<open>2^63\<close> elements (\<open>max_size\<close>); pushing more ends with an exception, \<^const>\<open>None\<close>.
\<close>

section \<open>Headers and time fields\<close>

definition tsheader_pes :: bytes where
  "tsheader_pes = [0x47, 0x40, 0x00, 0x10, 0x00, 0x00, 0x01, 0xBD, 0x00, 0x00]"

definition tsheader_adpfd_pes :: bytes where
  "tsheader_adpfd_pes =
     [0x47, 0x40, 0x00, 0x30, 0x07, 0x50,
      0x00, 0x00, 0x00, 0x00, 0x00, 0x00,
      0x00, 0x00, 0x01, 0xBD, 0x00, 0x00]"

definition tsheader_onepacket :: bytes where
  "tsheader_onepacket = [0x47, 0x40, 0x00, 0x30]"

definition tsheader :: bytes where
  "tsheader = [0x47, 0x00, 0x00, 0x11]"

definition tsheader_payload_only :: bytes where
  "tsheader_payload_only = [0x47, 0x00, 0x00, 0x10]"

definition header_setPID :: "bytes \<Rightarrow> u16 \<Rightarrow> bytes" where
  "header_setPID header pid =
     (let bpid = bytes16 (htons pid);
          bpid = bpid[0 := header ! 1 OR bpid ! 0]
      in header[1 := bpid ! 0, 2 := bpid ! 1])"

text \<open>\<open>int val\<close> takes the low 32 bits of each expression, \<open>*bs++ = val\<close> its low byte.\<close>

definition writePTS :: "u64 \<Rightarrow> u64 \<Rightarrow> bytes" where
  "writePTS fourbits t =
     (let v1 = push_bit 4 fourbits OR push_bit 1 (signed_drop_bit 30 t AND 0x07) OR 1;
          v2 = push_bit 1 (signed_drop_bit 15 t AND 0x7FFF) OR 1;
          v3 = push_bit 1 (t AND 0x7FFF) OR 1
      in [ucast v1, ucast (drop_bit 8 v2), ucast v2, ucast (drop_bit 8 v3), ucast v3])"

text \<open>\<open>int64_t\<close> division and remainder round towards zero.\<close>

definition writePcrBits :: "u64 \<Rightarrow> bytes" where
  "writePcrBits pcr =
     (let pcr_low = word_of_int (sint pcr smod 300) :: u64;
          pcr_high = word_of_int (sint pcr sdiv 300) :: u64
      in [ucast (signed_drop_bit 25 pcr_high), ucast (signed_drop_bit 17 pcr_high),
          ucast (signed_drop_bit 9 pcr_high), ucast (signed_drop_bit 1 pcr_high),
          ucast (push_bit 7 pcr_high OR signed_drop_bit 8 pcr_low OR 0x7E), ucast pcr_low])"

definition pick_cc :: "bytes \<Rightarrow> u64 \<Rightarrow> u8" where
  "pick_cc table c = table ! unat (c mod 16)"

section \<open>One packet\<close>

text \<open>\<open>v.emplace(v.begin() + i, x)\<close> makes room: the vector grows and only its first 188 bytes are used.\<close>

definition emplace :: "nat \<Rightarrow> u8 \<Rightarrow> bytes \<Rightarrow> bytes" where
  "emplace i x v = take i v @ x # drop i v"

fun emplace_all :: "nat \<Rightarrow> bytes \<Rightarrow> bytes \<Rightarrow> bytes" where
  "emplace_all i [] v = v"
| "emplace_all i (x # xs) v = emplace_all (i + 1) xs (emplace i x v)"

definition packetize_one :: "bytes \<Rightarrow> nat \<Rightarrow> u16 \<Rightarrow> u8 \<Rightarrow> ts_packet option" where
  "packetize_one buf bufsiz pid c =
     (if \<not> bufsiz < 185 then None
      else do {
        let raw = replicate TS_SIZE 0xFF;
        let tsh = (header_setPID tsheader_onepacket pid)[3 := continuity_value ! (unat c mod 16)];
        let raw = emplace_all 0 tsh raw;
        bs \<leftarrow> rd_n buf 0 bufsiz;
        let raw = emplace_all 4 bs raw;
        packet_parse new_packet raw
      })"

section \<open>A section over several packets\<close>

definition push_stuffing :: "bytes \<Rightarrow> nat \<Rightarrow> bytes option" where
  "push_stuffing tsd n = (if length tsd + n < 2 ^ 63 then Some (tsd @ replicate n 0xFF) else None)"

text \<open>The three ways to start a packet, and the end of the data.\<close>

definition psi_single :: "u16 \<Rightarrow> u64 \<Rightarrow> bytes" where
  "psi_single pid c = (header_setPID tsheader_onepacket pid)[3 := pick_cc continuity_value c]"

definition psi_last :: "u16 \<Rightarrow> u64 \<Rightarrow> nat \<Rightarrow> bytes option" where
  "psi_last pid c left = do {
     let tsh = (header_setPID tsheader pid)[3 := pick_cc continuity_value_adaptation c];
     let len = (188 - (5 + word_of_nat left) :: u16);
     push_stuffing (tsh @ [ucast len, 0]) (unat len - 1) }"

definition psi_next :: "u16 \<Rightarrow> u64 \<Rightarrow> bool \<Rightarrow> bytes" where
  "psi_next pid c onepacket =
     (header_setPID (if onepacket then tsheader_payload_only[1 := 0x40] else tsheader_payload_only) pid)
       [3 := pick_cc continuity_value c]"

function packetize_loop ::
  "bytes \<Rightarrow> nat \<Rightarrow> u16 \<Rightarrow> u64 \<Rightarrow> nat \<Rightarrow> bool \<Rightarrow> bytes \<Rightarrow> (ts_packet list \<times> u64) option" where
  "packetize_loop buf bufsiz pid c cur onepacket tsd =
     (if cur < bufsiz then
        if length tsd = TS_SIZE then do {
          p \<leftarrow> packet_of_len tsd (length tsd);
          (ps, c') \<leftarrow> packetize_loop buf bufsiz pid c cur onepacket [];
          Some (p # ps, c')
        }
        else if length tsd + (bufsiz - cur) \<le> TS_SIZE then do {
          rest \<leftarrow> rd_n buf cur (bufsiz - cur);
          tsd \<leftarrow> (if onepacket then do {
                    let t = tsd @ psi_single pid c @ rest;
                    push_stuffing t (unat (word_of_nat TS_SIZE - word_of_nat (length t) :: u64))
                  }
                  else do { hdr \<leftarrow> psi_last pid c (bufsiz - cur); Some (tsd @ hdr @ rest) });
          p \<leftarrow> packet_of_len tsd (length tsd);
          Some ([p], c + 1)
        }
        else if tsd = [] then
          packetize_loop buf bufsiz pid (c + 1) cur False (psi_next pid c onepacket)
        else do {
          b \<leftarrow> rd buf cur;
          packetize_loop buf bufsiz pid c (cur + 1) onepacket (tsd @ [b])
        }
      else Some ([], c))"
  by pat_completeness auto
termination
  by (relation "measure (\<lambda>(buf, bufsiz, pid, c, cur, onepacket, tsd).
        3 * (bufsiz - cur) + (if length tsd = TS_SIZE then 2 else if tsd = [] then 1 else 0))")
     (auto simp: TS_SIZE_def psi_next_def header_setPID_def tsheader_payload_only_def Let_def)

declare packetize_loop.simps [simp del]

definition packetize :: "bytes \<Rightarrow> nat \<Rightarrow> u16 \<Rightarrow> u64 \<Rightarrow> (ts_packet list \<times> u64) option" where
  "packetize buf bufsiz pid c = packetize_loop buf bufsiz pid c 0 True []"

section \<open>An access unit as a PES packet\<close>

text \<open>\<open>STREAMID\<close> of \<open>AccessUnit.h\<close>.\<close>

definition Video :: u8 where
  "Video = 0xE0"

text \<open>The flags and the time stamp that follow the PES packet length.\<close>

definition pes_pts_bytes :: "access_unit \<Rightarrow> bytes" where
  "pes_pts_bytes au =
     (if au_pts au > 0 then [0x80, 0x80, 0x05] @ writePTS (drop_bit 6 0x80) (au_pts au)
      else [0x85, 0x00, 0x00])"

text \<open>\<open>PES_packet_length\<close>: 0 for video; the DTS is counted by the first packet with a PCR only.\<close>

definition pes_length_bytes :: "access_unit \<Rightarrow> bool \<Rightarrow> bytes" where
  "pes_length_bytes au count_dts =
     (let pesLen = word_of_nat (au_length au) + 3 :: u16;
          pesLen = (if au_pts au > 0 then pesLen + 5 else pesLen);
          pesLen = (if count_dts \<and> au_dts au > 0 then pesLen + 5 else pesLen)
      in bytes16 (if au_stream_id au \<noteq> Video then htons pesLen else 0))"

definition pes_single :: "access_unit \<Rightarrow> u16 \<Rightarrow> u64 \<Rightarrow> nat \<Rightarrow> bytes" where
  "pes_single au pid c pesHeaderSize =
     (let tsh = (header_setPID tsheader_onepacket pid)[3 := pick_cc continuity_value_adaptation c];
          len = 189 - (word_of_nat pesHeaderSize + word_of_nat (au_length au)) :: u16
      in tsh @ [ucast len, 0x40] @ replicate (unat len - 1) 0xFF
         @ [0, 0, 1, au_stream_id au] @ pes_length_bytes au False @ pes_pts_bytes au)"

definition pes_last :: "access_unit \<Rightarrow> u16 \<Rightarrow> u64 \<Rightarrow> nat \<Rightarrow> bytes" where
  "pes_last au pid c cur =
     (let tsh = (header_setPID tsheader pid)[3 := pick_cc continuity_value_adaptation c];
          len = 188 - (5 + (word_of_nat (au_length au) - word_of_nat cur)) :: u16
      in tsh @ [ucast len, 0] @ replicate (unat len - 1) 0xFF)"

definition pes_183 :: "u16 \<Rightarrow> u64 \<Rightarrow> bytes" where
  "pes_183 pid c =
     (header_setPID tsheader pid)[3 := pick_cc continuity_value_adaptation c] @ [0, 0]"

definition pes_first :: "access_unit \<Rightarrow> u16 \<Rightarrow> u64 \<Rightarrow> bytes" where
  "pes_first au pid c =
     (let s = pes_length_bytes au False
      in (header_setPID tsheader_pes pid)
           [3 := pick_cc continuity_value c, 7 := au_stream_id au, 8 := s ! 0, 9 := s ! 1]
         @ pes_pts_bytes au)"

definition pes_first_pcr :: "access_unit \<Rightarrow> u16 \<Rightarrow> u64 \<Rightarrow> u64 \<Rightarrow> bytes" where
  "pes_first_pcr au pid c pcr =
     (let s = pes_length_bytes au True;
          b = writePcrBits pcr
      in (header_setPID tsheader_adpfd_pes pid)
           [3 := pick_cc continuity_value_adaptation c,
            6 := b ! 0, 7 := b ! 1, 8 := b ! 2, 9 := b ! 3, 10 := b ! 4, 11 := b ! 5,
            15 := au_stream_id au, 16 := s ! 0, 17 := s ! 1]
         @ pes_pts_bytes au)"

definition pes_next :: "u16 \<Rightarrow> u64 \<Rightarrow> bytes" where
  "pes_next pid c = (header_setPID tsheader_payload_only pid)[3 := pick_cc continuity_value c]"

text \<open>\<open>for (...; i < n; ...) tsd.push_back(au[cur++]);\<close>\<close>

fun au_read :: "access_unit \<Rightarrow> nat \<Rightarrow> nat \<Rightarrow> bytes option" where
  "au_read au cur 0 = Some []"
| "au_read au cur (Suc n) =
     do { b \<leftarrow> au_index au cur; bs \<leftarrow> au_read au (cur + 1) n; Some (b # bs) }"

definition pesHeaderSize_init :: "access_unit \<Rightarrow> nat" where
  "pesHeaderSize_init au = 15 + (if au_pts au > 0 then 5 else 0) + (if au_dts au > 0 then 5 else 0)"

text \<open>\<open>some\<close> says whether \<open>pes\<close> holds a packet; \<open>whatIsLeft\<close> is an \<open>int\<close>, 32 bits.\<close>

lemma header_lengths [simp]:
  "length (header_setPID h pid) = length h" "length tsheader_pes = 10" "length tsheader_adpfd_pes = 18"
  "length tsheader = 4" "length tsheader_onepacket = 4" "length tsheader_payload_only = 4"
  by (simp_all add: header_setPID_def Let_def tsheader_pes_def tsheader_adpfd_pes_def tsheader_def
      tsheader_onepacket_def tsheader_payload_only_def)

lemma length_pes_pts_bytes: "length (pes_pts_bytes au) = (if au_pts au > 0 then 8 else 3)"
  by (simp add: pes_pts_bytes_def writePTS_def Let_def)

lemma length_pes_first:
  "length (pes_first au pid c) = (if au_pts au > 0 then 18 else 13)"
  "length (pes_first_pcr au pid c pcr) = (if au_pts au > 0 then 26 else 21)"
  "length (pes_next pid c) = 4" "length (pes_183 pid c) = 6"
  by (simp_all add: pes_first_def pes_first_pcr_def pes_next_def pes_183_def Let_def length_pes_pts_bytes)

lemma length_au_read: "au_read au cur n = Some bs \<Longrightarrow> length bs = n"
  by (induction n arbitrary: cur bs) (auto split: bind_splits)

lemma pes_first_nonempty:
  "pes_first au pid c \<noteq> []" "pes_first_pcr au pid c pcr \<noteq> []" "pes_next pid c \<noteq> []"
  using length_pes_first(1) [of au pid c] length_pes_first(2) [of au pid c pcr]
    length_pes_first(3) [of pid c] by (auto split: if_splits)

function packetizePES_loop ::
  "access_unit \<Rightarrow> u16 \<Rightarrow> u64 \<Rightarrow> u64 \<Rightarrow> nat \<Rightarrow> bool \<Rightarrow> nat \<Rightarrow> bool \<Rightarrow> bytes \<Rightarrow> (ts_packet list \<times> u64) option"
where
  "packetizePES_loop au pid pcr c cur onepacket pesHeaderSize some tsd =
     (let whatIsLeft = sint (word_of_nat (au_length au - cur) :: u32) in
      if cur < au_length au then
        if length tsd = TS_SIZE then do {
          p \<leftarrow> packet_of_len tsd (length tsd);
          (ps, c') \<leftarrow> packetizePES_loop au pid pcr c cur onepacket pesHeaderSize True [];
          Some (p # ps, c')
        }
        else if tsd = [] \<and> whatIsLeft + int pesHeaderSize \<le> int TS_SIZE then do {
          rest \<leftarrow> au_read au cur (au_length au - cur);
          let tsd = (if onepacket then pes_single au pid c pesHeaderSize else pes_last au pid c cur) @ rest;
          p \<leftarrow> packet_of_len tsd (length tsd);
          Some ([p], c + 1)
        }
        else if tsd = [] \<and> some \<and> whatIsLeft = 183 then do {
          bs \<leftarrow> au_read au cur 182;
          packetizePES_loop au pid pcr (c + 1) (cur + 182) onepacket pesHeaderSize some
            (pes_183 pid c @ bs)
        }
        else if tsd = [] then
          if onepacket \<and> pcr = 0 then
            packetizePES_loop au pid pcr (c + 1) cur False 6 some (pes_first au pid c)
          else if onepacket \<and> pcr > 0 then
            packetizePES_loop au pid pcr (c + 1) cur False 6 some (pes_first_pcr au pid c pcr)
          else packetizePES_loop au pid pcr (c + 1) cur onepacket pesHeaderSize some (pes_next pid c)
        else do {
          b \<leftarrow> au_index au cur;
          packetizePES_loop au pid pcr c (cur + 1) onepacket pesHeaderSize some (tsd @ [b])
        }
      else if length tsd = TS_SIZE then do {
        p \<leftarrow> packet_of_len tsd (length tsd);
        Some ([p], c)
      }
      else Some ([], c))"
  by pat_completeness auto

termination
  by (relation "measure (\<lambda>(au, pid, pcr, c, cur, onepacket, pesHeaderSize, some, tsd).
        3 * (au_length au - cur) + (if length tsd = TS_SIZE then 2 else if tsd = [] then 1 else 0))")
     (simp_all add: TS_SIZE_def length_pes_first pes_first_nonempty, auto)

declare packetizePES_loop.simps [simp del]

definition packetizePES ::
  "access_unit \<Rightarrow> u16 \<Rightarrow> u64 \<Rightarrow> u64 \<Rightarrow> (ts_packet list \<times> u64) option" where
  "packetizePES au pid c pcr =
     packetizePES_loop au pid pcr c 0 True (pesHeaderSize_init au) False []"

section \<open>Headers\<close>

lemma unat_mod_16: "unat (c mod 16 :: u64) = unat c mod 16" "unat (c mod 16 :: u64) < 16"
  by (simp_all add: unat_mod)

lemma continuity_value_nth: "k < 16 \<Longrightarrow> continuity_value ! k = 0x10 OR word_of_nat k"
  by (auto simp: less_16_cases continuity_value_def)

lemma continuity_value_adaptation_nth: "k < 16 \<Longrightarrow> continuity_value_adaptation ! k = 0x30 OR word_of_nat k"
  by (auto simp: less_16_cases continuity_value_adaptation_def)

lemma pick_cc_eq:
  "pick_cc continuity_value c = 0x10 OR word_of_nat (unat c mod 16)"
  "pick_cc continuity_value_adaptation c = 0x30 OR word_of_nat (unat c mod 16)"
  by (simp_all add: pick_cc_def unat_mod_16 continuity_value_nth continuity_value_adaptation_nth)

text \<open>The four header bytes: unit start flag, PID, and the control byte.\<close>

definition hdr4 :: "bool \<Rightarrow> u16 \<Rightarrow> u8 \<Rightarrow> bytes" where
  "hdr4 pusi pid ctl = [0x47, (if pusi then 0x40 else 0) OR hi8 pid, lo8 pid, ctl]"

lemma length_hdr4 [simp]: "length (hdr4 pusi pid ctl) = 4"
  by (simp add: hdr4_def)

lemma psi_headers:
  "psi_single pid c = hdr4 True pid (pick_cc continuity_value c)"
  "psi_next pid c first = hdr4 first pid (pick_cc continuity_value c)"
  "pes_next pid c = hdr4 False pid (pick_cc continuity_value c)"
  by (simp_all add: psi_single_def psi_next_def pes_next_def hdr4_def header_setPID_def Let_def
      tsheader_onepacket_def tsheader_payload_only_def endian_simps)

lemma adaptation_headers:
  "(header_setPID tsheader_onepacket pid)[3 := x] = hdr4 True pid x"
  "(header_setPID tsheader pid)[3 := x] = hdr4 False pid x"
  by (simp_all add: hdr4_def header_setPID_def Let_def tsheader_onepacket_def tsheader_def endian_simps)

text \<open>What the library's accessors read from such a packet.\<close>

lemma hdr4_fields:
  assumes "pid < 0x2000" and "k < 16" and "p = pkt (hdr4 pusi pid (a OR word_of_nat k) @ rest)"
    and "a = 0x10 \<or> a = 0x30"
  shows "PID p = pid" "payloadUnitStart p = pusi" "unat (cc p) = k"
    "adaptationFieldExist p = (if a = 0x10 then 1 else 3)"
proof -
  have "be16 ((if pusi then 0x40 else 0) OR hi8 pid) (lo8 pid) AND 0x1FFF = pid AND 0x1FFF"
    by (rule bit_word_eqI) (auto simp: be16_def hi8_def lo8_def bit_simps word_bits)
  then show "PID p = pid"
    using assms(1) by (simp add: assms(3) PID_def hdr4_def le16_be16 pid_mask_eq)
  have "\<not> bit (hi8 pid) 6" using pid_high_bits [OF assms(1), of 14] by (simp add: hi8_def bit_simps)
  then show "payloadUnitStart p = pusi"
    by (simp add: assms(3) payloadUnitStart_def hdr4_def word_bits bit_simps)
  show "unat (cc p) = k"
    using assms(2,4) by (auto simp: assms(3) cc_def hdr4_def less_16_cases)
  show "adaptationFieldExist p = (if a = 0x10 then 1 else 3)"
    using assms(2,4) by (auto simp: assms(3) adaptationFieldExist_def hdr4_def less_16_cases drop_bit_eq_div)
qed

section \<open>What a receiver gets\<close>

text \<open>The payloads of a sequence of packets, one after the other, as a demultiplexer collects them.\<close>

fun payloads :: "ts_packet list \<Rightarrow> bytes option" where
  "payloads [] = Some []"
| "payloads (p # ps) = do {
     d \<leftarrow> getData p;
     d \<leftarrow> d;
     bs \<leftarrow> payloads ps;
     Some (d @ bs) }"

text \<open>
  A conforming run of packets: each has its sync byte and the PID, only the first may start a unit,
  and the continuity counter goes up by one.
\<close>

fun packet_run :: "u16 \<Rightarrow> bool \<Rightarrow> u64 \<Rightarrow> ts_packet list \<Rightarrow> bool" where
  "packet_run pid start c [] \<longleftrightarrow> True"
| "packet_run pid start c (p # ps) \<longleftrightarrow>
     wf_packet p \<and> pk_data p ! 0 = 0x47 \<and> PID p = pid \<and> payloadUnitStart p = start \<and>
     unat (cc p) = unat c mod 16 \<and> packet_run pid False (c + 1) ps"

lemma getData_plain:
  assumes "length b = 184" and "p = pkt (hdr4 pusi pid (pick_cc continuity_value c) @ b)" and "pid < 0x2000"
  shows "getData p = Some (Some b)" and "packet_run pid pusi c (p # ps) \<longleftrightarrow> packet_run pid False (c + 1) ps"
proof -
  have p: "p = pkt (hdr4 pusi pid (0x10 OR word_of_nat (unat c mod 16)) @ b)"
    using assms(2) by (simp add: pick_cc_eq)
  note fields = hdr4_fields [OF assms(3) _ p]
  have wf: "wf_packet p" using assms by (simp add: wf_packet_def)
  have "payload_size p = 184" using fields(4) by (simp add: payload_size_def)
  then show "getData p = Some (Some b)" using wf assms by (simp add: getData_wf payload_start_def)
  show "packet_run pid pusi c (p # ps) \<longleftrightarrow> packet_run pid False (c + 1) ps"
    using wf fields by (simp add: assms(2) hdr4_def)
qed

text \<open>A packet with an adaptation field of \<open>l\<close> bytes behind the length byte.\<close>

lemma getData_adaptation:
  assumes "length b = 183" and "p = pkt (hdr4 pusi pid (pick_cc continuity_value_adaptation c) @ l # b)"
    and "pid < 0x2000"
  shows "getData p = Some (Some (drop (if unat l \<le> 182 then unat l else 1) b))"
    and "packet_run pid pusi c (p # ps) \<longleftrightarrow> packet_run pid False (c + 1) ps"
proof -
  have p: "p = pkt (hdr4 pusi pid (0x30 OR word_of_nat (unat c mod 16)) @ l # b)"
    using assms(2) by (simp add: pick_cc_eq)
  note fields = hdr4_fields [OF assms(3) _ p]
  have wf: "wf_packet p" using assms by (simp add: wf_packet_def)
  have "pk_data p ! 4 = l" by (simp add: assms(2) nth_append)
  then have "payload_size p = (if unat l \<le> 182 then 183 - unat l else 182)"
    using fields(4) by (simp add: payload_size_def)
  then have start: "payload_start p = (if unat l \<le> 182 then 5 + unat l else 6)"
    by (simp add: payload_start_def)
  have "drop (5 + n) (pk_data p) = drop n b" for n
    by (simp add: assms(2))
  from this [of "unat l"] this [of 1] show "getData p = Some (Some (drop (if unat l \<le> 182 then unat l else 1) b))"
    using wf by (simp add: getData_wf start)
  show "packet_run pid pusi c (p # ps) \<longleftrightarrow> packet_run pid False (c + 1) ps"
    using wf fields by (simp add: assms(2) hdr4_def)
qed

section \<open>The loop of \<open>packetize\<close>\<close>

lemma packetize_push:
  "cur < L \<Longrightarrow> length tsd \<noteq> 188 \<Longrightarrow> \<not> length tsd + (L - cur) \<le> 188 \<Longrightarrow> tsd \<noteq> [] \<Longrightarrow> L \<le> length buf \<Longrightarrow>
   packetize_loop buf L pid c cur first tsd = packetize_loop buf L pid c (cur + 1) first (tsd @ [buf ! cur])"
  by (subst packetize_loop.simps) (simp add: TS_SIZE_def rd_def)

lemma packetize_open:
  "cur < L \<Longrightarrow> \<not> L - cur \<le> 188 \<Longrightarrow>
   packetize_loop buf L pid c cur first [] = packetize_loop buf L pid (c + 1) cur False (psi_next pid c first)"
  by (subst packetize_loop.simps) (simp add: TS_SIZE_def)

lemma packetize_fill:
  assumes "tsd \<noteq> []" "length tsd + m = 188" "cur + m < L" "L \<le> length buf"
  shows "packetize_loop buf L pid c cur first tsd = do {
      (ps, c') \<leftarrow> packetize_loop buf L pid c (cur + m) first [];
      Some (pkt (tsd @ take m (drop cur buf)) # ps, c') }"
  using assms
proof (induction m arbitrary: cur tsd)
  case 0
  then show ?case
    by (subst packetize_loop.simps) (simp add: TS_SIZE_def packet_of_len_eq packet_of_pkt)
next
  case (Suc m)
  have "packetize_loop buf L pid c cur first tsd = packetize_loop buf L pid c (cur + 1) first (tsd @ [buf ! cur])"
    using Suc.prems by (intro packetize_push) simp_all
  also have "\<dots> = do {
      (ps, c') \<leftarrow> packetize_loop buf L pid c (cur + 1 + m) first [];
      Some (pkt ((tsd @ [buf ! cur]) @ take m (drop (cur + 1) buf)) # ps, c') }"
    using Suc.prems by (intro Suc.IH) simp_all
  also have "(tsd @ [buf ! cur]) @ take m (drop (cur + 1) buf) = tsd @ take (Suc m) (drop cur buf)"
    using Suc.prems by (simp add: Cons_nth_drop_Suc [symmetric])
  finally show ?case by simp
qed

lemma packetize_next:
  assumes "188 < L - cur" "L \<le> length buf"
  shows "packetize_loop buf L pid c cur first [] = do {
      (ps, c') \<leftarrow> packetize_loop buf L pid (c + 1) (cur + 184) False [];
      Some (pkt (hdr4 first pid (pick_cc continuity_value c) @ take 184 (drop cur buf)) # ps, c') }"
proof -
  have "packetize_loop buf L pid c cur first [] =
      packetize_loop buf L pid (c + 1) cur False (hdr4 first pid (pick_cc continuity_value c))"
    using assms by (subst packetize_open) (simp_all add: psi_headers)
  also have "\<dots> = do {
      (ps, c') \<leftarrow> packetize_loop buf L pid (c + 1) (cur + 184) False [];
      Some (pkt (hdr4 first pid (pick_cc continuity_value c) @ take 184 (drop cur buf)) # ps, c') }"
    using assms by (intro packetize_fill) (auto simp: hdr4_def)
  finally show ?thesis .
qed

text \<open>The last packet of several: what its payload is, for each number of bytes that are left.\<close>

definition tail_payload :: "bytes \<Rightarrow> bytes" where
  "tail_payload d =
     (if length d \<le> 182 then d else if length d = 183 then 0 # take 182 d else replicate 182 0xFF)"

lemma last_packet_shape:
  fixes n :: nat and d :: bytes
  defines "len \<equiv> 188 - (5 + word_of_nat n) :: u16"
  assumes "length d = n" "0 < n" "n \<le> 188"
  shows "183 \<le> length (0 # replicate (unat len - 1) 0xFF @ d) \<and>
    drop (if unat (ucast len :: u8) \<le> 182 then unat (ucast len :: u8) else 1)
      (take 183 (0 # replicate (unat len - 1) 0xFF @ d)) = tail_payload d"
proof -
  have byte: "unat (ucast len :: u8) = unat len mod 256"
    by (simp add: unsigned_ucast_eq take_bit_eq_mod)
  consider "n \<le> 183" | "184 \<le> n" by linarith
  then show ?thesis
  proof cases
    case 1
    then have "len = word_of_nat (183 - n)" by (simp add: len_def of_nat_diff)
    moreover have "unat (word_of_nat (183 - n) :: u16) = 183 - n" by (rule unat_of_nat_small) simp
    ultimately have len: "unat len = 183 - n" by metis
    show ?thesis
    proof (cases "n = 183")
      case True
      then show ?thesis using len byte assms(2) by (simp add: tail_payload_def)
    next
      case False
      then obtain k where k: "182 - n = k" "183 - n = Suc k" using 1 by (cases "183 - n") auto
      then have "Suc (k + n) = 183" using 1 False by linarith
      then show ?thesis using len byte assms(2,3) k 1 False by (simp add: tail_payload_def)
    qed
  next
    case 2
    have "len = 65719 - word_of_nat n" by (simp add: len_def)
    also have "\<dots> = word_of_nat (65719 - n)" using assms(4) by (simp add: of_nat_diff)
    finally have "len = word_of_nat (65719 - n)" .
    moreover have "unat (word_of_nat (65719 - n) :: u16) = 65719 - n"
      using 2 by (intro unat_of_nat_small) simp
    ultimately have len: "unat len = 65719 - n" by metis
    have "65719 - n = 439 - n + 255 * 256" using assms(4) by simp
    moreover have "(439 - n + 255 * 256) mod 256 = 439 - n" using 2 by (simp only: mod_mult_self1) simp
    ultimately have "unat len mod 256 = 439 - n" unfolding len by metis
    then show ?thesis
      using 2 assms(4) byte len assms(2) by (simp add: tail_payload_def take_Cons')
  qed
qed

lemma packetize_last:
  assumes "cur < L" "L - cur \<le> 188" "L \<le> length buf" "pid < 0x2000" and d: "d = drop cur (take L buf)"
  shows "\<exists>p. packetize_loop buf L pid c cur False [] = Some ([p], c + 1) \<and>
    getData p = Some (Some (tail_payload d)) \<and> packet_run pid False c [p]"
proof -
  define n where "n = L - cur"
  have n: "0 < n" "n \<le> 188" "length d = n" using assms by (auto simp: n_def)
  have rest: "rd_n buf cur n = Some d"
    using assms by (auto simp: rd_n_def n_def drop_take)
  define len where "len = (188 - (5 + word_of_nat n) :: u16)"
  define h where "h = hdr4 False pid (pick_cc continuity_value_adaptation c)"
  define body where "body = 0 # replicate (unat len - 1) 0xFF @ d"
  have small: "unat len - 1 < 2 ^ 16" using unsigned_less [of len, where 'a = nat] by simp
  have step: "packetize_loop buf L pid c cur False [] = do {
      p \<leftarrow> packet_of (h @ ucast len # body); Some ([p], c + 1) }"
    using assms(1,2) rest small
    by (subst packetize_loop.simps)
       (simp add: TS_SIZE_def psi_last_def adaptation_headers push_stuffing_def h_def body_def len_def
         n_def packet_of_len_eq Let_def)
  have shape: "183 \<le> length body \<and> drop (if unat (ucast len :: u8) \<le> 182 then unat (ucast len :: u8) else 1)
      (take 183 body) = tail_payload d"
    unfolding body_def len_def by (rule last_packet_shape [OF n(3,1,2)])
  define p where "p = pkt (h @ ucast len # take 183 body)"
  have "packet_of (h @ ucast len # body) = Some p"
    using shape by (simp add: packet_of_pkt p_def h_def)
  moreover have "getData p = Some (Some (tail_payload d))" "packet_run pid False c [p]"
  proof -
    have l: "length (take 183 body) = 183" using shape by simp
    show "getData p = Some (Some (tail_payload d))"
      using getData_adaptation(1) [OF l p_def [unfolded h_def] assms(4)] shape by simp
    show "packet_run pid False c [p]"
      using getData_adaptation(2) [OF l p_def [unfolded h_def] assms(4), of "[]"] by simp
  qed
  ultimately show ?thesis using step by simp
qed

lemma packetize_many:
  assumes "cur < L" "L \<le> length buf" "pid < 0x2000" and "n = L - cur" "d = drop cur (take L buf)"
    and "first \<Longrightarrow> 188 < n" and "r = (n - 5) mod 184 + 5" "5 \<le> n"
  shows "\<exists>ps. packetize_loop buf L pid c cur first [] = Some (ps, c + word_of_nat (length ps)) \<and>
    length ps = (n - r) div 184 + 1 \<and> packet_run pid first c ps \<and>
    payloads ps = Some (take (n - r) d @ tail_payload (drop (n - r) d))"
  using assms
proof (induction n arbitrary: cur d first c r rule: less_induct)
  case (less n)
  have n: "n = L - cur" "length d = n" using less.prems by auto
  show ?case
  proof (cases "n \<le> 188")
    case True
    then have r: "r = n" using less.prems(7,8) by simp
    have "\<not> first" using less.prems(6) True by auto
    then obtain p where p: "packetize_loop buf L pid c cur first [] = Some ([p], c + 1)"
        "getData p = Some (Some (tail_payload d))" "packet_run pid False c [p]"
      using packetize_last [OF less.prems(1) _ less.prems(2,3,5)] True n by auto
    then show ?thesis using r \<open>\<not> first\<close> by (intro exI [of _ "[p]"]) simp
  next
    case False
    define m where "m = n - 184"
    have m: "m < n" "5 \<le> m" "n = m + 184" "m = L - (cur + 184)" using False n by (auto simp: m_def)
    have "n - 5 = m - 5 + 184" using m(2,3) by linarith
    then have r: "r = (m - 5) mod 184 + 5" using less.prems(7) by (simp only: mod_add_self2)
    have lt: "cur + 184 < L" using m(2,4) by linarith
    have d: "take 184 (drop cur buf) = take 184 d" "drop 184 d = drop (cur + 184) (take L buf)"
      using less.prems(2,5) m n by (auto simp: drop_take min_def add.commute)
    obtain ps where ps: "packetize_loop buf L pid (c + 1) (cur + 184) False [] = Some (ps, c + 1 + word_of_nat (length ps))"
        "length ps = (m - r) div 184 + 1" "packet_run pid False (c + 1) ps"
        "payloads ps = Some (take (m - r) (drop 184 d) @ tail_payload (drop (m - r) (drop 184 d)))"
      using less.IH [where first = False and c = "c + 1", OF m(1) lt less.prems(2,3) m(4) d(2) _ r m(2)] by blast
    define p where "p = pkt (hdr4 first pid (pick_cc continuity_value c) @ take 184 d)"
    have p: "getData p = Some (Some (take 184 d))" "packet_run pid first c (p # ps)"
      using getData_plain [OF _ p_def less.prems(3)] ps(3) n m by auto
    have "packetize_loop buf L pid c cur first [] = Some (p # ps, c + 1 + word_of_nat (length ps))"
      using packetize_next [of L cur buf pid c first] False n less.prems(2) ps(1) d(1) by (simp add: p_def)
    moreover have "r \<le> m"
      using r m(2) mod_less_eq_dividend [of "m - 5" 184] by linarith
    then have "take (n - r) d = take 184 d @ take (m - r) (drop 184 d)" "n - r = m - r + 184"
      using m(3) by (simp_all add: take_add [symmetric] add.commute)
    ultimately show ?thesis using ps p \<open>r \<le> m\<close>
      by (intro exI [of _ "p # ps"]) (simp add: add.commute)
  qed
qed

section \<open>Data that fits into one packet\<close>

lemma emplace_all_eq: "i \<le> length v \<Longrightarrow> emplace_all i xs v = take i v @ xs @ drop i v"
  by (induction i xs v rule: emplace_all.induct) (simp_all add: emplace_def)

lemma packetize_one_eq:
  assumes "L \<le> 184" "L \<le> length buf"
  shows "packetize_one buf L pid c = Some (pkt (hdr4 True pid (pick_cc continuity_value (ucast c))
    @ take L buf @ replicate (184 - L) 0xFF))"
proof -
  have "unat (ucast c :: u64) = unat c"
    by (rule bit_eqI) (auto simp: bit_simps bit_unsigned_iff dest: bit_imp_le_length)
  then have cc: "continuity_value ! (unat c mod 16) = pick_cc continuity_value (ucast c)"
    by (simp add: pick_cc_def unat_mod_16)
  define h where "h = hdr4 True pid (pick_cc continuity_value (ucast c))"
  have h: "(header_setPID tsheader_onepacket pid)[3 := continuity_value ! (unat c mod 16)] = h"
    unfolding h_def cc by (rule adaptation_headers)
  have lh: "length h = 4" by (simp add: h_def)
  have "emplace_all 4 (take L buf) (emplace_all 0 h (replicate 188 0xFF)) = h @ take L buf @ replicate 188 0xFF"
    by (simp add: emplace_all_eq lh)
  moreover have "take 188 (h @ take L buf @ replicate 188 0xFF) = h @ take L buf @ replicate (184 - L) 0xFF"
    using assms lh by simp
  moreover have "rd_n buf 0 L = Some (take L buf)" using assms by (simp add: rd_n_def)
  ultimately show ?thesis
    using assms by (simp add: packetize_one_def h packet_parse_eq TS_SIZE_def pkt_def h_def)
qed

lemma packetize_single:
  assumes "0 < L" "L \<le> 184" "L \<le> length buf"
  shows "packetize buf L pid c = Some ([pkt (hdr4 True pid (pick_cc continuity_value c)
    @ take L buf @ replicate (184 - L) 0xFF)], c + 1)"
proof -
  define t where "t = hdr4 True pid (pick_cc continuity_value c) @ take L buf"
  have t: "length t = L + 4" using assms by (simp add: t_def)
  have rest: "rd_n buf 0 L = Some (take L buf)" using assms by (simp add: rd_n_def)
  have "(188 - word_of_nat (L + 4) :: u64) = word_of_nat (184 - L)" using assms(2) by (simp add: of_nat_diff)
  moreover have "unat (word_of_nat (184 - L) :: u64) = 184 - L" by (rule unat_of_nat_small) simp
  ultimately have fill: "push_stuffing t (unat (188 - word_of_nat (length t) :: u64)) = Some (t @ replicate (184 - L) 0xFF)"
    using t assms(2) by (simp add: push_stuffing_def)
  show ?thesis
    unfolding packetize_def using assms fill rest t
    by (subst packetize_loop.simps)
       (simp add: TS_SIZE_def psi_headers packet_of_len_eq packet_of_pkt t_def Let_def)
qed

lemma packetize_overflow:
  assumes "184 < L" "L \<le> 188"
  shows "packetize buf L pid c = None"
proof -
  have none: "push_stuffing t (unat (188 - word_of_nat (length t) :: u64)) = None" if "length t = L + 4" for t
  proof -
    have "(188 - word_of_nat (length t) :: u64) = - word_of_nat (L - 184)"
      using assms(1) that by (simp add: of_nat_diff)
    also have "\<dots> = word_of_nat (2 ^ 64 - (L - 184))" using assms by (simp add: of_nat_diff)
    finally have "(188 - word_of_nat (length t) :: u64) = word_of_nat (2 ^ 64 - (L - 184))" .
    moreover have "unat (word_of_nat (2 ^ 64 - (L - 184)) :: u64) = 2 ^ 64 - (L - 184)"
      using assms by (intro unat_of_nat_small) simp
    ultimately have "unat (188 - word_of_nat (length t) :: u64) = 2 ^ 64 - (L - 184)" by metis
    then show ?thesis using assms by (simp add: push_stuffing_def)
  qed
  have "push_stuffing (psi_single pid c @ rest) (unat (188 - word_of_nat (length (psi_single pid c @ rest)) :: u64)) = None"
    if "rd_n buf 0 L = Some rest" for rest
    using that by (intro none) (auto simp: psi_headers dest: rd_n_length)
  then show ?thesis
    unfolding packetize_def using assms
    by (subst packetize_loop.simps) (auto simp: TS_SIZE_def Let_def split: bind_splits)
qed

section \<open>Data that needs several packets\<close>

lemma packetize_whole:
  assumes "188 < length buf" "pid < 0x2000" "length buf mod 184 \<in> {5..182}"
  shows "\<exists>ps. packetize buf (length buf) pid c = Some (ps, c + word_of_nat (length ps)) \<and>
    length ps = length buf div 184 + 1 \<and> packet_run pid True c ps \<and> payloads ps = Some buf"
proof -
  define n where "n = length buf"
  have r: "(n - 5) mod 184 + 5 = n mod 184"
  proof -
    have "n = 184 * (n div 184) + n mod 184" "5 \<le> n mod 184" using assms(3) by (simp_all add: n_def)
    then have "n - 5 = n mod 184 - 5 + 184 * (n div 184)" by linarith
    then have "(n - 5) mod 184 = (n mod 184 - 5) mod 184" by (metis mod_mult_self2)
    also have "\<dots> = n mod 184 - 5" by (rule mod_less) (simp add: less_imp_diff_less)
    finally show ?thesis using \<open>5 \<le> n mod 184\<close> by simp
  qed
  have cut: "n - n mod 184 + n mod 184 = n" "(n - n mod 184) div 184 = n div 184"
    by (simp_all add: minus_mod_eq_mult_div)
  have len: "length (drop (n - n mod 184) buf) = n mod 184" by (simp add: n_def)
  have "tail_payload (drop (n - n mod 184) buf) = drop (n - n mod 184) buf"
    unfolding tail_payload_def len using assms(3) by (simp add: n_def)
  then show ?thesis
    using packetize_many [of 0 n buf pid n buf True "n mod 184" c] assms(1,2) r cut
    by (cases "buf = []") (simp_all add: packetize_def n_def)
qed

section \<open>Properties\<close>

text \<open>
  Property C35. A section of at most 184 bytes becomes one packet that starts a unit, by either entry
  point: the PID and the counter are the caller's, and the payload is the section, filled up with
  \<open>0xFF\<close>. From 185 to 188 bytes \<open>packetize\<close> has no result: the size of the packet exceeds 188, the
  number of stuffing bytes wraps around in \<open>size_t\<close>, and the vector outgrows the memory.
\<close>

theorem packetize_one_packet:
  assumes "0 < L" "L \<le> length buf" "pid < 0x2000" "L \<le> 188"
  shows "if L \<le> 184 then \<exists>p. packetize buf L pid c = Some ([p], c + 1) \<and> packetize_one buf L pid (ucast c) = Some p \<and>
           packet_run pid True c [p] \<and> payloads [p] = Some (take L buf @ replicate (184 - L) 0xFF)
         else packetize buf L pid c = None"
proof (cases "L \<le> 184")
  case True
  define b where "b = take L buf @ replicate (184 - L) 0xFF"
  define p where "p = pkt (hdr4 True pid (pick_cc continuity_value c) @ b)"
  have b: "length b = 184" using True assms(2) by (simp add: b_def)
  have "getData p = Some (Some b)" "packet_run pid True c [p]"
    using getData_plain(1) [OF b p_def assms(3)] getData_plain(2) [OF b p_def assms(3), of "[]"] by simp_all
  moreover have "packetize buf L pid c = Some ([p], c + 1)"
    using packetize_single [OF assms(1) True assms(2)] by (simp add: p_def b_def)
  moreover have "pick_cc continuity_value (ucast (ucast c :: u8)) = pick_cc continuity_value c"
  proof -
    have "take_bit 4 (unat (ucast (ucast c :: u8) :: u64)) = take_bit 4 (unat c)"
      by (rule bit_eqI) (auto simp: bit_simps bit_unsigned_iff)
    then have "unat (ucast (ucast c :: u8) :: u64) mod 16 = unat c mod 16"
      by (simp add: take_bit_eq_mod)
    then show ?thesis by (simp add: pick_cc_def unat_mod_16)
  qed
  then have "packetize_one buf L pid (ucast c) = Some p"
    using packetize_one_eq [OF True assms(2)] by (simp add: p_def b_def)
  ultimately show ?thesis using True by (simp add: b_def)
next
  case False
  then show ?thesis using packetize_overflow assms(4) by simp
qed

text \<open>
  Unless 5 to 182 bytes are left for the last packet, the end of a longer section is lost. With 183 bytes left for the last packet, a
  0 byte is delivered in front of them and the last byte is missing; with 184 to 188 bytes left all of
  them are replaced by 182 bytes of stuffing, since the length of the adaptation field wraps around
  in \<open>uint16_t\<close>. The packets look conforming, and no error is reported.
\<close>

lemma packetize_loses_tail:
  assumes "188 < length buf" "pid < 0x2000" "length buf mod 184 \<in> {0..4} \<union> {183}"
    and "k = (if length buf mod 184 = 183 then length buf - 183 else length buf - 184 - length buf mod 184)"
  shows "\<exists>ps. packetize buf (length buf) pid c = Some (ps, c + word_of_nat (length ps)) \<and>
    packet_run pid True c ps \<and>
    payloads ps = Some (take k buf @
      (if length buf mod 184 = 183 then 0 # take 182 (drop k buf) else replicate 182 0xFF))"
proof -
  define n where "n = length buf"
  define r where "r = n - k"
  have k: "k \<le> n" "n - r = k" using assms(1,4) by (auto simp: r_def n_def)
  have n: "n = 184 * (n div 184) + n mod 184" by simp
  have r: "(n - 5) mod 184 + 5 = r"
  proof (cases "n mod 184 = 183")
    case True
    then have "r = 183" "n - 5 = 178 + 184 * (n div 184)" using n assms(1,4) by (simp_all add: r_def n_def)
    then show ?thesis by (simp only: mod_mult_self2) simp
  next
    case False
    then have "n mod 184 \<le> 4" using assms(3) by (simp add: n_def)
    moreover obtain q where q: "n div 184 = Suc q" using assms(1) by (cases "n div 184") (auto simp: n_def)
    moreover have "r = 184 + n mod 184" using False assms(1,4) calculation n by (simp add: r_def n_def)
    moreover have "n - 5 = 179 + n mod 184 + 184 * q"
    proof -
      have "m - 5 = 179 + s + 184 * q" if "m = 184 * Suc q + s" for m s :: nat using that by simp
      from this [OF n [unfolded q]] show ?thesis .
    qed
    ultimately have "r = 184 + n mod 184" "n - 5 = 179 + n mod 184 + 184 * q" "n mod 184 \<le> 4"
      by blast+
    then show ?thesis by (simp only: mod_mult_self2) simp
  qed
  have len: "length (drop k buf) = r" by (simp add: n_def r_def)
  have tail: "tail_payload (drop k buf) = (if n mod 184 = 183 then 0 # take 182 (drop k buf) else replicate 182 0xFF)"
  proof (cases "n mod 184 = 183")
    case True
    then have "r = 183" using assms(1,4) by (simp add: r_def n_def)
    then show ?thesis unfolding tail_payload_def len using True by simp
  next
    case False
    then have "184 \<le> r" using assms(1,4) by (simp add: r_def n_def)
    then show ?thesis unfolding tail_payload_def len using False by simp
  qed
  have "0 < n" "n \<le> length buf" "n = n - 0" "buf = drop 0 (take n buf)" "True \<Longrightarrow> 188 < n" "5 \<le> n"
    using assms(1) by (auto simp: n_def)
  then obtain ps where ps: "packetize_loop buf n pid c 0 True [] = Some (ps, c + word_of_nat (length ps))"
      "packet_run pid True c ps" "payloads ps = Some (take (n - r) buf @ tail_payload (drop (n - r) buf))"
    using packetize_many [OF _ _ assms(2) _ _ _ r [symmetric]] by blast
  show ?thesis
    unfolding packetize_def n_def [symmetric] tail [symmetric]
    using ps unfolding k(2) by (intro exI [of _ ps] conjI)
qed

text \<open>
  Property C3. What arrives of a section of more than 188 bytes. For every length the packets form a
  conforming run (sync byte, PID, unit start on the first only, continuity), and the counter is advanced by
  their number. Their payloads together are the section if its length modulo 184 is from 5 to 182. If it is 183,
  a 0 is put in front of the last 183 bytes and the last byte is lost; if it is from 0 to 4, the last
  184 to 188 bytes are replaced by 182 bytes of stuffing.
\<close>

theorem packetize_delivers:
  assumes "188 < length buf" "pid < 0x2000" and "r = length buf mod 184"
  shows "\<exists>ps. packetize buf (length buf) pid c = Some (ps, c + word_of_nat (length ps)) \<and> packet_run pid True c ps \<and>
    payloads ps = Some (if r \<in> {5..182} then buf
      else if r = 183 then take (length buf - 183) buf @ 0 # take 182 (drop (length buf - 183) buf)
      else take (length buf - 184 - r) buf @ replicate 182 0xFF) \<and>
    (r \<in> {5..182} \<longrightarrow> length ps = length buf div 184 + 1)"
proof (cases "r \<in> {5..182}")
  case True
  then show ?thesis using packetize_whole [OF assms(1,2)] assms(3) by auto
next
  case False
  moreover have "r < 184" using assms(3) by simp
  ultimately have "length buf mod 184 \<in> {0..4} \<union> {183}" using assms(3) by auto
  from packetize_loses_tail [OF assms(1,2) this refl, of c]
  show ?thesis using False unfolding assms(3) by (auto split: if_splits)
qed

theorem packetize_one_packet_witness:
  "\<exists>p. packetize [2, 0xB0] 2 0x100 7 = Some ([p], 8) \<and> packetize_one [2, 0xB0] 2 0x100 (ucast (7 :: u64)) = Some p \<and>
     packet_run 0x100 True 7 [p] \<and> payloads [p] = Some ([2, 0xB0] @ replicate 182 0xFF)"
  using packetize_one_packet [of 2 "[2, 0xB0]" "0x100" 7]
  by (simp del: packet_run.simps payloads.simps)

theorem packetize_delivers_witness:
  "\<exists>ps. packetize (replicate 300 7) (length (replicate 300 (7 :: u8))) 0x100 15 = Some (ps, 15 + word_of_nat (length ps)) \<and>
     length ps = Suc (Suc 0) \<and> packet_run 0x100 True 15 ps \<and> payloads ps = Some (replicate 300 7)"
  using packetize_delivers [of "replicate 300 7" "0x100" 116 15] by auto

end
