(* ===== verification/Pes_Delivery.thy ===== *)
theory Pes_Delivery
  imports TS_Packer Pes_Packet
begin

text \<open>
  What \<open>TSPacker::packetizePES\<close> delivers: its packets as a conforming run, the payloads as one PES
  packet, and what \<open>PESPacket::parse\<close> and \<open>AdaptationField::getPCR\<close> read from them.
\<close>

section \<open>Reads and headers\<close>

lemma au_read_in: "cur + n \<le> au_length au \<Longrightarrow> au_read au cur n = Some (take n (drop cur (sodb au)))"
proof (induction n arbitrary: cur)
  case (Suc n)
  then have "drop cur (sodb au) = sodb au ! cur # drop (cur + 1) (sodb au)"
    by (simp add: au_length_def Cons_nth_drop_Suc)
  then show ?case using Suc by (simp add: au_index_in)
qed simp

lemma sint_of_nat_u32: "n < 2 ^ 31 \<Longrightarrow> sint (word_of_nat n :: u32) = int n"
  by (simp add: signed_of_nat signed_take_bit_int_eq_self)

text \<open>The header of the PES packet.\<close>

definition pes_unit_header :: "access_unit \<Rightarrow> bool \<Rightarrow> bytes" where
  "pes_unit_header au count_dts =
     [0, 0, 1, au_stream_id au] @ pes_length_bytes au count_dts @ pes_pts_bytes au"

lemma length_bytes16 [simp]: "length (bytes16 w) = 2"
  by (simp add: bytes16_def)

lemma length_pes_length_bytes [simp]: "length (pes_length_bytes au b) = 2"
  by (simp add: pes_length_bytes_def Let_def)

lemma length_pes_unit_header:
  "length (pes_unit_header au b) = (if au_pts au > 0 then 14 else 9)"
  by (simp add: pes_unit_header_def length_pes_pts_bytes)

lemma pes_length_bytes_nth:
  "pes_length_bytes au b = [pes_length_bytes au b ! 0, pes_length_bytes au b ! 1]"
  by (simp add: pes_length_bytes_def bytes16_def Let_def)

lemma pes_first_eq:
  "pes_first au pid c = hdr4 True pid (pick_cc continuity_value c) @ pes_unit_header au False"
  by (simp add: pes_first_def hdr4_def header_setPID_def Let_def tsheader_pes_def endian_simps
      pes_unit_header_def) (metis pes_length_bytes_nth One_nat_def)

lemma pes_first_pcr_eq:
  "pes_first_pcr au pid c pcr = hdr4 True pid (pick_cc continuity_value_adaptation c) @
     7 # 0x50 # writePcrBits pcr @ pes_unit_header au True"
  by (simp add: pes_first_pcr_def hdr4_def header_setPID_def Let_def tsheader_adpfd_pes_def endian_simps
      pes_unit_header_def writePcrBits_def) (metis pes_length_bytes_nth One_nat_def)

lemma pes_183_eq: "pes_183 pid c = hdr4 False pid (pick_cc continuity_value_adaptation c) @ [0, 0]"
  by (simp add: pes_183_def adaptation_headers)

section \<open>Steps of the loop\<close>

lemma pes_push:
  "cur < au_length au \<Longrightarrow> length tsd \<noteq> 188 \<Longrightarrow> tsd \<noteq> [] \<Longrightarrow>
   packetizePES_loop au pid pcr c cur one hs some tsd =
     packetizePES_loop au pid pcr c (cur + 1) one hs some (tsd @ [sodb au ! cur])"
  by (subst packetizePES_loop.simps) (simp add: TS_SIZE_def au_index_in)

text \<open>A packet under construction takes the bytes it has room for.\<close>

lemma pes_take:
  "tsd \<noteq> [] \<Longrightarrow> length tsd + m \<le> 188 \<Longrightarrow> cur + m \<le> au_length au \<Longrightarrow>
   packetizePES_loop au pid pcr c cur one hs some tsd =
     packetizePES_loop au pid pcr c (cur + m) one hs some (tsd @ take m (drop cur (sodb au)))"
proof (induction m arbitrary: cur tsd)
  case (Suc m)
  have d: "drop cur (sodb au) = sodb au ! cur # drop (cur + 1) (sodb au)"
    using Suc.prems(3) by (simp add: au_length_def Cons_nth_drop_Suc)
  show ?case using Suc.prems pes_push [of cur au tsd pid pcr c one hs some]
      Suc.IH [of "tsd @ [sodb au ! cur]" "cur + 1"] by (simp add: d)
qed simp

lemma pes_fill:
  assumes "tsd \<noteq> []" "length tsd + m = 188" "cur + m < au_length au"
  shows "packetizePES_loop au pid pcr c cur one hs some tsd = do {
      (ps, c') \<leftarrow> packetizePES_loop au pid pcr c (cur + m) one hs True [];
      Some (pkt (tsd @ take m (drop cur (sodb au))) # ps, c') }"
  using assms unfolding pes_take [OF assms(1) eq_refl [OF assms(2)] less_imp_le [OF assms(3)]]
  by (subst packetizePES_loop.simps)
     (simp add: TS_SIZE_def packet_of_len_eq packet_of_pkt au_length_def assms(2) [symmetric])

lemma pes_end:
  assumes "tsd \<noteq> []" "length tsd + m \<le> 188" "cur + m = au_length au"
  shows "packetizePES_loop au pid pcr c cur one hs some tsd =
    Some (if length tsd + m = 188 then [pkt (tsd @ drop cur (sodb au))] else [], c)"
  using assms unfolding pes_take [OF assms(1,2) eq_refl [OF assms(3)]]
  by (subst packetizePES_loop.simps)
     (auto simp: TS_SIZE_def packet_of_len_eq packet_of_pkt au_length_def)

section \<open>The packets after the first\<close>

lemma pes_last_eq:
  assumes "cur < au_length au" "au_length au - cur \<le> 182"
  shows "pes_last au pid c cur = hdr4 False pid (pick_cc continuity_value_adaptation c) @
    word_of_nat (183 - (au_length au - cur)) # 0 # replicate (182 - (au_length au - cur)) 0xFF"
proof -
  define n where "n = au_length au - cur"
  have "word_of_nat (au_length au) - word_of_nat cur = (word_of_nat n :: u16)"
    using assms by (simp add: n_def of_nat_diff)
  then have "188 - (5 + (word_of_nat (au_length au) - word_of_nat cur)) = (word_of_nat (183 - n) :: u16)"
    using assms by (simp add: n_def of_nat_diff)
  moreover have "unat (word_of_nat (183 - n) :: u16) = 183 - n" by (rule unat_of_nat_small) simp
  moreover have "ucast (word_of_nat (183 - n) :: u16) = (word_of_nat (183 - n) :: u8)"
    by (rule bit_word_eqI) (simp add: bit_simps)
  ultimately show ?thesis
    unfolding pes_last_def n_def [symmetric] by (simp only: Let_def adaptation_headers) simp
qed

lemma pes_loop_last:
  assumes "cur < au_length au" "au_length au - cur \<le> 182" "pid < 0x2000"
  shows "\<exists>p. packetizePES_loop au pid pcr c cur False 6 some [] = Some ([p], c + 1) \<and>
    getData p = Some (Some (drop cur (sodb au))) \<and> packet_run pid False c [p]"
proof -
  define n where "n = au_length au - cur"
  have n: "0 < n" "n \<le> 182" "cur + n = au_length au" "length (drop cur (sodb au)) = n"
    using assms by (auto simp: n_def au_length_def)
  define b where "b = 0 # replicate (182 - n) 0xFF @ drop cur (sodb au)"
  define p where "p = pkt (hdr4 False pid (pick_cc continuity_value_adaptation c) @ word_of_nat (183 - n) # b)"
  have b: "length b = 183" using n by (simp add: b_def)
  have l: "unat (word_of_nat (183 - n) :: u8) = 183 - n" by (rule unat_of_nat_small) simp
  have "183 - n = Suc (182 - n)" using n(2) by simp
  then have data: "drop (183 - n) b = drop cur (sodb au)" using n(2,4) by (simp add: b_def)
  have "getData p = Some (Some (drop cur (sodb au)))"
    using getData_adaptation(1) [OF b p_def assms(3)] n(1) unfolding l by (simp add: data)
  moreover have "packet_run pid False c [p]"
    using getData_adaptation(2) [OF b p_def assms(3), of "[]"] by simp
  moreover have "packetizePES_loop au pid pcr c cur False 6 some [] = Some ([p], c + 1)"
  proof -
    have "int n < 2 ^ 31" using n(2) by simp
    then have "sint (word_of_nat n :: u32) = int n" by (intro sint_of_nat_u32) simp
    moreover have "take n (drop cur (sodb au)) = drop cur (sodb au)" using n(4) by simp
    ultimately show ?thesis
      using n pes_last_eq [OF assms(1,2), of pid c]
      by (subst packetizePES_loop.simps)
         (simp add: TS_SIZE_def Let_def n_def [symmetric] au_read_in packet_of_len_eq packet_of_pkt p_def b_def)
  qed
  ultimately show ?thesis by blast
qed

text \<open>
  The bytes that arrive behind the first packet: all of them, but with a byte 0 in front of the last
  183 when a packet starts with exactly these left.
\<close>

definition pes_tail_payload :: "bytes \<Rightarrow> bytes" where
  "pes_tail_payload d =
     (if length d mod 184 = 183 then take (length d - 183) d @ 0 # drop (length d - 183) d else d)"

lemma pes_tail_payload_184:
  assumes "184 < length d"
  shows "take 184 d @ pes_tail_payload (drop 184 d) = pes_tail_payload d"
proof -
  define m where "m = length d - 184"
  have m: "length d = m + 184" "length (drop 184 d) = m" using assms by (simp_all add: m_def)
  show ?thesis
  proof (cases "m mod 184 = 183")
    case True
    then have mods: "length d mod 184 = 183" "length (drop 184 d) mod 184 = 183" by (simp_all only: m mod_add_self2)
    have "183 \<le> m" using True by (metis mod_less_eq_dividend)
    then obtain k where k: "m = 183 + k" using le_Suc_ex by blast
    have "length d - 183 = 184 + k" "length (drop 184 d) - 183 = k" using m k by simp_all
    moreover have "take (184 + k) d = take 184 d @ take k (drop 184 d)" "drop (184 + k) d = drop k (drop 184 d)"
      using take_add [of 184 k d] by (simp_all add: add.commute)
    ultimately show ?thesis
      unfolding pes_tail_payload_def by (simp only: mods if_True) simp
  qed (simp add: pes_tail_payload_def m)
qed

text \<open>How many packets these bytes take.\<close>

definition pes_tail_count :: "nat \<Rightarrow> nat" where
  "pes_tail_count n = (if n mod 184 = 183 then n div 184 + 2 else (n + 183) div 184)"

lemma pes_tail_count_184: "pes_tail_count (n + 184) = pes_tail_count n + 1"
  using div_add_self2 [of 184 n] div_add_self2 [of 184 "n + 183"] by (simp add: pes_tail_count_def add.commute add.left_commute)

lemma pes_tail_count_small:
  "pes_tail_count 0 = 0" "0 < n \<Longrightarrow> n \<le> 182 \<Longrightarrow> pes_tail_count n = 1" "pes_tail_count 183 = 2" "pes_tail_count 184 = 1"
  by (simp_all add: pes_tail_count_def)

lemma pes_loop_183:
  assumes "cur + 183 = au_length au" "pid < 0x2000"
  shows "\<exists>ps. packetizePES_loop au pid pcr c cur False 6 True [] = Some (ps, c + word_of_nat (length ps)) \<and>
    packet_run pid False c ps \<and> payloads ps = Some (0 # drop cur (sodb au)) \<and> length ps = 2"
proof -
  let ?d = "drop cur (sodb au)"
  have d: "length ?d = 183" using assms(1) by (simp add: au_length_def)
  define b where "b = 0 # take 182 ?d"
  define p where "p = pkt (hdr4 False pid (pick_cc continuity_value_adaptation c) @ 0 # b)"
  have b: "length b = 183" using d by (simp add: b_def)
  obtain p' where p': "packetizePES_loop au pid pcr (c + 1) (cur + 182) False 6 True [] = Some ([p'], c + 1 + 1)"
      "getData p' = Some (Some (drop (cur + 182) (sodb au)))" "packet_run pid False (c + 1) [p']"
    using pes_loop_last [OF _ _ assms(2), of "cur + 182" au pcr "c + 1" True] assms(1) by fastforce
  have "sint (word_of_nat (au_length au - cur) :: u32) = int (au_length au - cur)"
    by (rule sint_of_nat_u32) (simp add: assms(1) [symmetric])
  then have "packetizePES_loop au pid pcr c cur False 6 True [] =
      packetizePES_loop au pid pcr (c + 1) (cur + 182) False 6 True (pes_183 pid c @ take 182 ?d)"
    using assms(1) by (subst packetizePES_loop.simps) (simp add: TS_SIZE_def Let_def au_read_in)
  also have "\<dots> = Some ([p, p'], c + 1 + 1)"
    using pes_fill [of "pes_183 pid c @ take 182 ?d" 0 "cur + 182" au pid pcr "c + 1" False 6 True] d assms(1) p'(1)
    by (simp add: pes_183_eq p_def b_def)
  finally have run: "packetizePES_loop au pid pcr c cur False 6 True [] = Some ([p, p'], c + 1 + 1)" .
  have "take 182 ?d @ drop (cur + 182) (sodb au) = ?d"
    using append_take_drop_id [of 182 ?d] by (simp add: add.commute)
  then have "payloads [p, p'] = Some (0 # ?d)"
    using getData_adaptation(1) [OF b p_def assms(2)] p'(2) by (simp add: b_def)
  moreover have "packet_run pid False c [p, p']"
    using getData_adaptation(2) [OF b p_def assms(2), of "[p']"] p'(3) by blast
  ultimately show ?thesis using run by (intro exI [of _ "[p, p']"]) (simp add: add.commute)
qed

lemma pes_open_next:
  assumes "cur + 184 \<le> au_length au" "au_length au < 2 ^ 31"
  shows "packetizePES_loop au pid pcr c cur False 6 True [] =
    (if cur + 184 = au_length au
     then Some ([pkt (hdr4 False pid (pick_cc continuity_value c) @ drop cur (sodb au))], c + 1)
     else do {
       (ps, c') \<leftarrow> packetizePES_loop au pid pcr (c + 1) (cur + 184) False 6 True [];
       Some (pkt (hdr4 False pid (pick_cc continuity_value c) @ take 184 (drop cur (sodb au))) # ps, c') })"
proof -
  let ?h = "hdr4 False pid (pick_cc continuity_value c)"
  have "sint (word_of_nat (au_length au - cur) :: u32) = int (au_length au - cur)"
    using assms(2) by (intro sint_of_nat_u32) simp
  then have "packetizePES_loop au pid pcr c cur False 6 True [] = packetizePES_loop au pid pcr (c + 1) cur False 6 True ?h"
    using assms(1) by (subst packetizePES_loop.simps) (simp add: TS_SIZE_def Let_def psi_headers)
  also have "\<dots> = (if cur + 184 = au_length au then Some ([pkt (?h @ drop cur (sodb au))], c + 1)
     else do {
       (ps, c') \<leftarrow> packetizePES_loop au pid pcr (c + 1) (cur + 184) False 6 True [];
       Some (pkt (?h @ take 184 (drop cur (sodb au))) # ps, c') })"
    using pes_end [of ?h 184 cur au pid pcr "c + 1"] pes_fill [of ?h 184 cur au pid pcr "c + 1"] assms(1)
    by (simp add: hdr4_def)
  finally show ?thesis .
qed

lemma pes_loop_tail:
  "cur < au_length au \<Longrightarrow> au_length au < 2 ^ 31 \<Longrightarrow> pid < 0x2000 \<Longrightarrow>
   \<exists>ps. packetizePES_loop au pid pcr c cur False 6 True [] = Some (ps, c + word_of_nat (length ps)) \<and>
    packet_run pid False c ps \<and> payloads ps = Some (pes_tail_payload (drop cur (sodb au))) \<and>
    length ps = pes_tail_count (au_length au - cur)"
proof (induction "au_length au - cur" arbitrary: cur c rule: less_induct)
  case less
  let ?d = "drop cur (sodb au)"
  define n where "n = au_length au - cur"
  have n: "length ?d = n" "cur + n = au_length au" "0 < n" using less.prems by (auto simp: n_def au_length_def)
  consider "n \<le> 182" | "n = 183" | "n = 184" | "184 < n" by linarith
  then show ?case
  proof cases
    case 1
    then obtain p where "packetizePES_loop au pid pcr c cur False 6 True [] = Some ([p], c + 1)"
        "getData p = Some (Some ?d)" "packet_run pid False c [p]"
      using pes_loop_last [OF less.prems(1) _ less.prems(3)] unfolding n_def by blast
    then show ?thesis using 1 n(1,3) pes_tail_count_small(2) [of n]
      by (intro exI [of _ "[p]"]) (simp add: pes_tail_payload_def n_def [symmetric])
  next
    case 2
    then show ?thesis using pes_loop_183 [of cur au pid pcr c] n less.prems(3)
      by (simp add: pes_tail_payload_def n_def [symmetric] pes_tail_count_small)
  next
    case 3
    define p where "p = pkt (hdr4 False pid (pick_cc continuity_value c) @ ?d)"
    have "length ?d = 184" using n 3 by simp
    note data = getData_plain [OF this p_def less.prems(3)]
    have "packetizePES_loop au pid pcr c cur False 6 True [] = Some ([p], c + 1)"
      using pes_open_next [of cur au pid pcr c] n 3 less.prems(2) by (simp add: p_def)
    then show ?thesis using data data(2) [of "[]"] n 3
      by (intro exI [of _ "[p]"]) (simp add: pes_tail_payload_def n_def [symmetric] pes_tail_count_small)
  next
    case 4
    define p where "p = pkt (hdr4 False pid (pick_cc continuity_value c) @ take 184 ?d)"
    have "length (take 184 ?d) = 184" using n 4 by simp
    note data = getData_plain [OF this p_def less.prems(3)]
    have "au_length au - (cur + 184) < au_length au - cur" "cur + 184 < au_length au" using 4 n by linarith+
    from less.hyps [OF this less.prems(2,3)] obtain ps
      where ps: "packetizePES_loop au pid pcr (c + 1) (cur + 184) False 6 True [] = Some (ps, c + 1 + word_of_nat (length ps))"
        "packet_run pid False (c + 1) ps" "payloads ps = Some (pes_tail_payload (drop (cur + 184) (sodb au)))"
        "length ps = pes_tail_count (au_length au - (cur + 184))" by blast
    have "packetizePES_loop au pid pcr c cur False 6 True [] = Some (p # ps, c + 1 + word_of_nat (length ps))"
      using pes_open_next [of cur au pid pcr c] ps(1) n 4 less.prems(2) by (simp add: p_def)
    moreover have "take 184 ?d @ pes_tail_payload (drop (cur + 184) (sodb au)) = pes_tail_payload ?d"
      using pes_tail_payload_184 [of ?d] n(1) 4 by (simp add: add.commute)
    moreover have "packet_run pid False c (p # ps)" using data(2) ps(2) by blast
    moreover have "pes_tail_count (au_length au - cur) = length (p # ps)"
      using ps(4) pes_tail_count_184 [of "n - 184"] 4 by (simp add: n_def)
    ultimately show ?thesis using ps(3) data(1)
      by (intro exI [of _ "p # ps"]) (simp del: packet_run.simps add: add.commute)
  qed
qed

section \<open>The first packet\<close>

text \<open>The bytes of the access unit that the first of several packets has room for.\<close>

definition pes_room :: "access_unit \<Rightarrow> u64 \<Rightarrow> nat" where
  "pes_room au pcr = (if pcr = 0 then 175 else 167) - (if au_pts au > 0 then 5 else 0)"

lemma pes_single_eq:
  assumes "pesHeaderSize_init au + au_length au \<le> 188"
  shows "pes_single au pid c (pesHeaderSize_init au) = hdr4 True pid (pick_cc continuity_value_adaptation c) @
    word_of_nat (189 - (pesHeaderSize_init au + au_length au)) #
    0x40 # replicate (188 - (pesHeaderSize_init au + au_length au)) 0xFF @ pes_unit_header au False"
proof -
  define n where "n = pesHeaderSize_init au + au_length au"
  have "189 - (word_of_nat (pesHeaderSize_init au) + word_of_nat (au_length au)) = (word_of_nat (189 - n) :: u16)"
    using assms by (simp add: n_def of_nat_diff)
  moreover have "unat (word_of_nat (189 - n) :: u16) = 189 - n" by (rule unat_of_nat_small) simp
  moreover have "ucast (word_of_nat (189 - n) :: u16) = (word_of_nat (189 - n) :: u8)"
    by (rule bit_word_eqI) (simp add: bit_simps)
  ultimately show ?thesis
    unfolding pes_single_def n_def [symmetric] by (simp add: Let_def adaptation_headers pes_unit_header_def)
qed

text \<open>The whole unit in one packet, with and without a DTS.\<close>

lemma packetizePES_single:
  assumes "0 < au_length au" "pesHeaderSize_init au + au_length au \<le> 188" "pid < 0x2000"
  shows "if au_dts au > 0 then packetizePES au pid c pcr = None
    else \<exists>p. packetizePES au pid c pcr = Some ([p], c + 1) \<and> packet_run pid True c [p] \<and>
      getData p = Some (Some (pes_unit_header au False @ sodb au)) \<and> adaptationFieldExist p = 3 \<and> pk_data p ! 5 = 0x40"
proof -
  define n where "n = pesHeaderSize_init au + au_length au"
  define b where "b = 0x40 # replicate (188 - n) 0xFF @ pes_unit_header au False @ sodb au"
  define t where "t = hdr4 True pid (pick_cc continuity_value_adaptation c) @ word_of_nat (189 - n) # b"
  have n: "15 < n" "n \<le> 188" using assms(1,2) by (auto simp: n_def pesHeaderSize_init_def)
  have len: "length b = (if au_dts au > 0 then 178 else 183)"
    using n by (auto simp: b_def n_def length_pes_unit_header pesHeaderSize_init_def au_length_def)
  have tsd: "pes_single au pid c (pesHeaderSize_init au) @ sodb au = t"
    using pes_single_eq [OF assms(2)] by (simp add: t_def b_def n_def)
  have "sint (word_of_nat (au_length au) :: u32) = int (au_length au)"
    using assms(2) by (intro sint_of_nat_u32) simp
  then have "packetizePES au pid c pcr = do { p \<leftarrow> packet_of_len t (length t); Some ([p], c + 1) }"
    using assms(1,2) au_read_in [of 0 "au_length au" au] tsd unfolding packetizePES_def
    by (subst packetizePES_loop.simps) (simp add: TS_SIZE_def Let_def au_length_def packet_of_len_eq)
  then have run: "packetizePES au pid c pcr = (if au_dts au > 0 then None else Some ([pkt t], c + 1))"
    using len by (simp add: packet_of_len_eq packet_of_pkt t_def)
  have l: "unat (word_of_nat (189 - n) :: u8) = 189 - n" using n by (intro unat_of_nat_small) simp
  have "189 - n = Suc (188 - n)" using n by simp
  then have body: "drop (189 - n) b = pes_unit_header au False @ sodb au" by (simp add: b_def)
  have "getData (pkt t) = Some (Some (pes_unit_header au False @ sodb au)) \<and> packet_run pid True c [pkt t]"
    if "\<not> au_dts au > 0"
  proof -
    have b: "length b = 183" using len that by simp
    note data = getData_adaptation [OF b arg_cong [OF t_def, of pkt] assms(3)]
    have "packet_run pid True c [pkt t]" using data(2) [of "[]"] by simp
    moreover have "189 - n \<le> 182" using n(1) by simp
    ultimately show ?thesis
      using data(1) body unfolding l by (simp only: if_True)
  qed
  moreover have "adaptationFieldExist (pkt t) = 3"
    using hdr4_fields(4) [where a = "0x30" and k = "unat c mod 16" and p = "pkt t", OF assms(3)]
    by (simp add: t_def pick_cc_eq)
  moreover have "pk_data (pkt t) ! 5 = 0x40" by (simp add: t_def b_def hdr4_def)
  ultimately show ?thesis using run by simp
qed

text \<open>The first of several packets.\<close>

definition pes_open_packet :: "access_unit \<Rightarrow> u16 \<Rightarrow> u64 \<Rightarrow> u64 \<Rightarrow> bytes" where
  "pes_open_packet au pid c pcr = (if pcr = 0 then pes_first au pid c else pes_first_pcr au pid c pcr)"

lemma length_pes_open_packet: "length (pes_open_packet au pid c pcr) + pes_room au pcr = 188"
  by (simp add: pes_open_packet_def pes_room_def length_pes_first)

lemma packetizePES_open:
  assumes "0 < au_length au" "au_length au < 2 ^ 31" "188 < pesHeaderSize_init au + au_length au"
  shows "packetizePES au pid c pcr =
    packetizePES_loop au pid pcr (c + 1) 0 False 6 False (pes_open_packet au pid c pcr)"
proof -
  have "sint (word_of_nat (au_length au) :: u32) = int (au_length au)"
    using assms(2) by (rule sint_of_nat_u32)
  then show ?thesis
    using assms unfolding packetizePES_def
    by (subst packetizePES_loop.simps) (simp add: TS_SIZE_def Let_def pes_open_packet_def word_gt_0)
qed

lemma packetizePES_multi:
  assumes "0 < au_length au" "au_length au < 2 ^ 31" "188 < pesHeaderSize_init au + au_length au"
  shows "packetizePES au pid c pcr =
    (if au_length au < pes_room au pcr then Some ([], c + 1)
     else if au_length au = pes_room au pcr then Some ([pkt (pes_open_packet au pid c pcr @ sodb au)], c + 1)
     else do {
       (ps, c') \<leftarrow> packetizePES_loop au pid pcr (c + 1) (pes_room au pcr) False 6 True [];
       Some (pkt (pes_open_packet au pid c pcr @ take (pes_room au pcr) (sodb au)) # ps, c') })"
proof -
  let ?t = "pes_open_packet au pid c pcr"
  have t: "length ?t = 188 - pes_room au pcr" "?t \<noteq> []" "pes_room au pcr < 188"
    using length_pes_open_packet [of au pid c pcr] by (auto simp: pes_room_def split: if_splits)
  show ?thesis
    unfolding packetizePES_open [OF assms]
    using t pes_end [OF t(2), of "au_length au" 0 au pid pcr "c + 1" False 6 False]
      pes_fill [OF t(2), of "pes_room au pcr" 0 au pid pcr "c + 1" False 6 False]
    by (cases "au_length au" "pes_room au pcr" rule: linorder_cases) simp_all
qed

lemma getData_pes_open:
  assumes "length d = pes_room au pcr" "pid < 0x2000" "p = pkt (pes_open_packet au pid c pcr @ d)"
  shows "getData p = Some (Some (pes_unit_header au (pcr \<noteq> 0) @ d)) \<and>
    (packet_run pid True c (p # ps) \<longleftrightarrow> packet_run pid False (c + 1) ps)"
proof (cases "pcr = 0")
  case True
  let ?b = "pes_unit_header au False @ d"
  have p: "p = pkt (hdr4 True pid (pick_cc continuity_value c) @ ?b)"
    using True assms(3) by (simp add: pes_open_packet_def pes_first_eq)
  have "length ?b = 184" using True assms(1) by (simp add: pes_room_def length_pes_unit_header)
  from getData_plain [OF this p assms(2)] show ?thesis using True by simp
next
  case False
  let ?b = "0x50 # writePcrBits pcr @ pes_unit_header au True @ d"
  have p: "p = pkt (hdr4 True pid (pick_cc continuity_value_adaptation c) @ 7 # ?b)"
    using False assms(3) by (simp add: pes_open_packet_def pes_first_pcr_eq)
  have w: "length (writePcrBits pcr) = 6" by (simp add: writePcrBits_def Let_def)
  have "length ?b = 183" using False assms(1) by (simp add: pes_room_def length_pes_unit_header w)
  from getData_adaptation [OF this p assms(2)] show ?thesis using False w by simp
qed

text \<open>All packets of a unit that needs several: what the payloads are together.\<close>

lemma packetizePES_several:
  assumes "0 < au_length au" "au_length au < 2 ^ 31" "188 < pesHeaderSize_init au + au_length au"
    and "pes_room au pcr \<le> au_length au" "pid < 0x2000"
  shows "\<exists>ps. packetizePES au pid c pcr =
      Some (pkt (pes_open_packet au pid c pcr @ take (pes_room au pcr) (sodb au)) # ps, c + 1 + word_of_nat (length ps)) \<and>
    packet_run pid True c (pkt (pes_open_packet au pid c pcr @ take (pes_room au pcr) (sodb au)) # ps) \<and>
    payloads (pkt (pes_open_packet au pid c pcr @ take (pes_room au pcr) (sodb au)) # ps) =
      Some (pes_unit_header au (pcr \<noteq> 0) @ take (pes_room au pcr) (sodb au) @
        pes_tail_payload (drop (pes_room au pcr) (sodb au))) \<and>
    length ps = pes_tail_count (au_length au - pes_room au pcr)"
proof -
  define p where "p = pkt (pes_open_packet au pid c pcr @ take (pes_room au pcr) (sodb au))"
  have "length (take (pes_room au pcr) (sodb au)) = pes_room au pcr"
    using assms(4) by (simp add: au_length_def)
  note data = getData_pes_open [OF this assms(5) p_def]
  obtain ps where ps: "packetizePES au pid c pcr = Some (p # ps, c + 1 + word_of_nat (length ps))"
      "packet_run pid False (c + 1) ps" "payloads ps = Some (pes_tail_payload (drop (pes_room au pcr) (sodb au)))"
      "length ps = pes_tail_count (au_length au - pes_room au pcr)"
  proof (cases "au_length au = pes_room au pcr")
    case True
    then show ?thesis
      using that [of "[]"] packetizePES_multi [OF assms(1-3), of pid c pcr]
      by (simp add: p_def au_length_def pes_tail_payload_def pes_tail_count_small)
  next
    case False
    then have "pes_room au pcr < au_length au" using assms(4) by simp
    from pes_loop_tail [OF this assms(2,5), of pcr "c + 1"] obtain ps
      where "packetizePES_loop au pid pcr (c + 1) (pes_room au pcr) False 6 True [] = Some (ps, c + 1 + word_of_nat (length ps))"
        "packet_run pid False (c + 1) ps" "payloads ps = Some (pes_tail_payload (drop (pes_room au pcr) (sodb au)))"
        "length ps = pes_tail_count (au_length au - pes_room au pcr)"
      by blast
    then show ?thesis
      using that [of ps] packetizePES_multi [OF assms(1-3), of pid c pcr] assms(4) False by (simp add: p_def)
  qed
  have "packet_run pid True c (p # ps)" using data ps(2) by blast
  then show ?thesis using ps data
    unfolding p_def [symmetric] by (intro exI [of _ ps]) (simp del: packet_run.simps)
qed

section \<open>What the receiver reads\<close>

text \<open>The PTS as \<open>writePTS\<close> puts it and \<open>pts()\<close> reads it: bits 0 to 30 are kept, bit 31 comes back twice.\<close>

lemma decode_writePTS:
  "decodeTimestamp (writePTS f t) = (t AND 0x7FFFFFFF) OR (if bit t 31 then 0x180000000 else 0)"
proof (rule bit_word_eqI)
  fix n assume "n < LENGTH(64)"
  have "n < 7 \<or> (\<exists>k. n = 7 + k \<and> k < 8) \<or> (\<exists>k. n = 15 + k \<and> k < 7) \<or> (\<exists>k. n = 22 + k \<and> k < 7) \<or>
      n = 29 \<or> n = 30 \<or> n = 31 \<or> n = 32 \<or> 33 \<le> n" by presburger
  then show "bit (decodeTimestamp (writePTS f t)) n =
      bit ((t AND 0x7FFFFFFF) OR (if bit t 31 then 0x180000000 else 0)) n"
    by (elim disjE exE conjE)
       (simp_all add: writePTS_def Let_def bit_decodeTimestamp bit_simps word_bits bit_u64_double)
qed

lemma below_2_31: "t < 2 ^ 31 \<Longrightarrow> (t AND 0x7FFFFFFF) OR (if bit t 31 then 0x180000000 else 0) = (t :: u64)"
proof (rule bit_word_eqI)
  fix n assume "t < 2 ^ 31"
  then have "take_bit 31 t = t"
    by (intro unsigned_word_eqI [where 'a = nat]) (simp add: unsigned_take_bit_eq word_less_nat_alt take_bit_nat_eq_self)
  then have "bit t k \<longleftrightarrow> k < 31 \<and> bit t k" for k by (metis bit_take_bit_iff)
  then show "bit ((t AND 0x7FFFFFFF) OR (if bit t 31 then 0x180000000 else 0)) n = bit t n"
    by (cases "n < 31") (auto simp: bit_simps word_bits)
qed

definition sent_pes_length :: "access_unit \<Rightarrow> u16" where
  "sent_pes_length au =
     (if au_stream_id au = Video then 0 else word_of_nat (au_length au + (if au_pts au > 0 then 8 else 3)))"

lemma pes_length_bytes_eq:
  "au_dts au = 0 \<or> \<not> b \<Longrightarrow> pes_length_bytes au b = [hi8 (sent_pes_length au), lo8 (sent_pes_length au)]"
  by (auto simp: pes_length_bytes_def sent_pes_length_def endian_simps Let_def add_ac)
     (simp_all add: bytes16_def lo8_def hi8_def)

lemma pes_unit_parse:
  assumes "au_dts au = 0 \<or> \<not> b" "has_pes_header (au_stream_id au)" "au_pts au < 2 ^ 31"
  shows "\<exists>q size. pes_parse new_pes (pes_unit_header au b @ d) = Some (q, size) \<and>
    pes_stream_id q = au_stream_id au \<and> PES_packet_length q = sent_pes_length au \<and>
    pts q = au_pts au \<and> dts q = 0 \<and> drop (unat size) (pes_unit_header au b @ d) = d"
proof -
  have "pes_stream_id new_pes = 0" by (simp add: new_pes_def)
  note parse = pes_parse_header [OF this assms(2), of "hi8 (sent_pes_length au)" "lo8 (sent_pes_length au)"]
  show ?thesis
  proof (cases "au_pts au > 0")
    case True
    define ts where "ts = writePTS (drop_bit 6 0x80) (au_pts au)"
    have hdr: "pes_unit_header au b @ d =
        0 # 0 # 1 # au_stream_id au # hi8 (sent_pes_length au) # lo8 (sent_pes_length au) # 0x80 # 0x80 # 5 # ts @ d"
      using True by (simp add: pes_unit_header_def pes_pts_bytes_def pes_length_bytes_eq [OF assms(1)] ts_def)
    have "length ts = 5" by (simp add: ts_def writePTS_def Let_def)
    moreover have "decodeTimestamp ts = au_pts au"
      unfolding ts_def decode_writePTS by (rule below_2_31 [OF assms(3)])
    ultimately show ?thesis
      unfolding hdr parse by (simp add: rd_n_prefix endian_simps Let_def pts_def dts_def)
  next
    case False
    then show ?thesis
      using parse [of "0x85" 0 0 d]
      by (simp add: pes_unit_header_def pes_pts_bytes_def pes_length_bytes_eq [OF assms(1)]
          endian_simps Let_def pts_def dts_def word_gt_0)
  qed
qed

lemma bit_below: "unat w < 2 ^ m \<Longrightarrow> bit (w :: u64) k \<longleftrightarrow> k < m \<and> bit w k"
proof -
  assume "unat w < 2 ^ m"
  then have "take_bit m w = w"
    by (intro unsigned_word_eqI [where 'a = nat]) (simp add: unsigned_take_bit_eq take_bit_nat_eq_self)
  then show ?thesis by (metis bit_take_bit_iff)
qed

lemma pcr_split:
  assumes "pcr < 300 * 2 ^ 33"
  obtains h l :: u64 where "word_of_int (sint pcr sdiv 300) = h" "word_of_int (sint pcr smod 300) = l"
    "unat h < 2 ^ 33" "unat l < 2 ^ 9" "h * 300 + l = pcr"
proof
  define n where "n = unat pcr"
  have n: "n < 300 * 2 ^ 33" using assms by (simp add: n_def word_less_nat_alt)
  then have "sint (word_of_nat n :: u64) = int n"
    by (simp add: signed_of_nat signed_take_bit_int_eq_self)
  then have s: "sint pcr = int n" by (simp add: n_def)
  have eq: "int n sdiv 300 = int (n div 300)" "int n smod 300 = int (n mod 300)"
    by (simp_all add: signed_divide_int_def signed_modulo_int_def zdiv_int zmod_int sgn_if)
  show "word_of_int (sint pcr sdiv 300) = (word_of_nat (n div 300) :: u64)"
    "word_of_int (sint pcr smod 300) = (word_of_nat (n mod 300) :: u64)"
    unfolding s eq by (simp_all only: of_int_of_nat_eq)
  have lt: "n div 300 < 2 ^ 33" "n mod 300 < 2 ^ 9" using n by (simp_all add: div_less_iff_less_mult less_le_trans [OF mod_less_divisor])
  moreover have "unat (word_of_nat (n div 300) :: u64) = n div 300" "unat (word_of_nat (n mod 300) :: u64) = n mod 300"
    using lt by (auto intro!: unat_of_nat_small elim: less_trans)
  ultimately show "unat (word_of_nat (n div 300) :: u64) < 2 ^ 33" "unat (word_of_nat (n mod 300) :: u64) < 2 ^ 9"
    by (simp_all only:)
  have "word_of_nat (n div 300) * 300 + word_of_nat (n mod 300) = (word_of_nat (n div 300 * 300 + n mod 300) :: u64)"
    by (simp only: of_nat_add of_nat_mult of_nat_numeral)
  then show "word_of_nat (n div 300) * 300 + word_of_nat (n mod 300) = pcr"
    by (simp only: div_mult_mod_eq) (simp add: n_def)
qed

lemma pcr_value_write: "pcr < 300 * 2 ^ 33 \<Longrightarrow> pcr_value (writePcrBits pcr) = pcr"
proof -
  assume "pcr < 300 * 2 ^ 33"
  then obtain h l :: u64 where hl: "word_of_int (sint pcr sdiv 300) = h" "word_of_int (sint pcr smod 300) = l"
    and lt: "unat h < 2 ^ 33" "unat l < 2 ^ 9" and sum: "h * 300 + l = pcr" by (rule pcr_split)
  have b: "bit h k \<longleftrightarrow> k < 33 \<and> bit h k" "bit l k \<longleftrightarrow> k < 9 \<and> bit l k" for k
    using bit_below [OF lt(1)] bit_below [OF lt(2)] by blast+
  let ?b = "writePcrBits pcr"
  have "push_bit 25 (ucast (?b ! 0)) OR push_bit 17 (ucast (?b ! 1)) OR push_bit 9 (ucast (?b ! 2)) OR
      push_bit 1 (ucast (?b ! 3)) OR drop_bit 7 (ucast (?b ! 4)) = h"
  proof (rule bit_word_eqI)
    fix k :: nat
    have "k = 0 \<or> (\<exists>j. k = 1 + j \<and> j < 8) \<or> (\<exists>j. k = 9 + j \<and> j < 8) \<or> (\<exists>j. k = 17 + j \<and> j < 8) \<or>
        (\<exists>j. k = 25 + j \<and> j < 8) \<or> 33 \<le> k" by presburger
    then show "bit (push_bit 25 (ucast (?b ! 0)) OR push_bit 17 (ucast (?b ! 1)) OR push_bit 9 (ucast (?b ! 2)) OR
      push_bit 1 (ucast (?b ! 3)) OR drop_bit 7 (ucast (?b ! 4)) :: u64) k = bit h k"
      using b [of 15] b(1) [of k]
      by (elim disjE exE conjE) (simp_all add: writePcrBits_def Let_def hl bit_simps word_bits bit_u64_double)
  qed
  moreover have "push_bit 8 (ucast (?b ! 4) AND 1) OR ucast (?b ! 5) = l"
  proof (rule bit_word_eqI)
    fix k :: nat
    have "k < 8 \<or> k = 8 \<or> 9 \<le> k" by presburger
    then show "bit (push_bit 8 (ucast (?b ! 4) AND 1) OR ucast (?b ! 5) :: u64) k = bit l k"
      using b(2) [of k] by (elim disjE) (simp_all add: writePcrBits_def Let_def hl bit_simps word_bits)
  qed
  ultimately show ?thesis by (simp add: pcr_value_def sum)
qed

text \<open>The packets of an access unit: the first one starts with the header and some of the data.\<close>

lemma packetizePES_unit:
  assumes "0 < au_length au" "au_length au < 2 ^ 31" "pid < 0x2000" "au_dts au = 0"
    and "pesHeaderSize_init au + au_length au \<le> 188 \<or> pes_room au pcr \<le> au_length au"
  shows "\<exists>p ps b r r'. packetizePES au pid c pcr = Some (p # ps, c + word_of_nat (length (p # ps))) \<and>
    packet_run pid True c (p # ps) \<and> getData p = Some (Some (pes_unit_header au b @ r)) \<and> r \<noteq> [] \<and>
    payloads ps = Some r' \<and>
    (pesHeaderSize_init au + au_length au \<le> 188 \<or> (au_length au - pes_room au pcr) mod 184 \<noteq> 183 \<longrightarrow> r @ r' = sodb au)"
proof (cases "pesHeaderSize_init au + au_length au \<le> 188")
  case True
  then obtain p where p: "packetizePES au pid c pcr = Some ([p], c + 1)" "packet_run pid True c [p]"
      "getData p = Some (Some (pes_unit_header au False @ sodb au))"
    using packetizePES_single [OF assms(1) True assms(3), of c pcr] assms(4) by auto
  have "sodb au \<noteq> []" using assms(1) by (auto simp: au_length_def)
  then show ?thesis using p
    by (intro exI [of _ p] exI [of _ "[]"] exI [of _ False] exI [of _ "sodb au"]) (simp del: packet_run.simps)
next
  case False
  then have big: "188 < pesHeaderSize_init au + au_length au" "pes_room au pcr \<le> au_length au" using assms(5) by auto
  let ?p = "pkt (pes_open_packet au pid c pcr @ take (pes_room au pcr) (sodb au))"
  let ?rest = "drop (pes_room au pcr) (sodb au)"
  have "length (take (pes_room au pcr) (sodb au)) = pes_room au pcr" using big(2) by (simp add: au_length_def)
  from getData_pes_open [OF this assms(3) refl]
  have data: "getData ?p = Some (Some (pes_unit_header au (pcr \<noteq> 0) @ take (pes_room au pcr) (sodb au)))" by blast
  obtain ps where ps: "packetizePES au pid c pcr = Some (?p # ps, c + 1 + word_of_nat (length ps))"
      "packet_run pid True c (?p # ps)"
      "payloads (?p # ps) = Some (pes_unit_header au (pcr \<noteq> 0) @ take (pes_room au pcr) (sodb au) @ pes_tail_payload ?rest)"
    using packetizePES_several [OF assms(1,2) big assms(3), of c] by blast
  have tail: "payloads ps = Some (pes_tail_payload ?rest)"
    using ps(3) data by (auto split: bind_splits)
  have "pes_tail_payload ?rest = ?rest" if "(au_length au - pes_room au pcr) mod 184 \<noteq> 183"
    using that by (simp add: pes_tail_payload_def au_length_def)
  moreover have "take (pes_room au pcr) (sodb au) \<noteq> []"
    using big(2) assms(1) by (auto simp: au_length_def pes_room_def split: if_splits)
  ultimately show ?thesis using ps(1,2) data tail False
    by (intro exI [of _ ?p] exI [of _ ps] exI [of _ "pcr \<noteq> 0"] exI [of _ "take (pes_room au pcr) (sodb au)"]
        exI [of _ "pes_tail_payload ?rest"]) (simp add: add.assoc del: packet_run.simps)
qed

section \<open>Properties\<close>

text \<open>
  Property C38. Two kinds of access unit that \<open>packetizePES\<close> does not send. One that is too long for a single
  packet by the 15 bytes of overhead it assumes (and 5 for each time stamp), but shorter than the room
  behind the headers of a first packet, ends while that packet is being filled: no packet at all is
  made, although the counter has moved on. One that fits but has a DTS, which is counted and never
  written, makes a packet of 183 bytes, and the constructor reads past it.
\<close>

theorem packetizePES_drops_unit:
  assumes "0 < au_length au" "au_length au < 2 ^ 31" "pid < 0x2000"
    and "if 188 < pesHeaderSize_init au + au_length au then au_length au < pes_room au pcr else au_dts au > 0"
  shows "packetizePES au pid c pcr =
    (if 188 < pesHeaderSize_init au + au_length au then Some ([], c + 1) else None)"
proof (cases "188 < pesHeaderSize_init au + au_length au")
  case True
  then show ?thesis using packetizePES_multi [OF assms(1,2) True] assms(4) by simp
next
  case False
  then show ?thesis
    using packetizePES_single [OF assms(1) _ assms(3), of c pcr] assms(4) by simp
qed

text \<open>
  When a packet starts with exactly 183 bytes left, a byte 0 is put into the stream in front of
  them: the packet is given an adaptation field of length 0 and the flags byte that only longer ones
  have. The run of packets is conforming and the unit is one byte longer than it was.
\<close>

lemma packetizePES_stray_byte:
  assumes "au_length au < 2 ^ 31" "pid < 0x2000" "188 < pesHeaderSize_init au + au_length au"
    and "pes_room au pcr \<le> au_length au" "(au_length au - pes_room au pcr) mod 184 = 183"
  shows "\<exists>ps. packetizePES au pid c pcr = Some (ps, c + word_of_nat (length ps)) \<and> packet_run pid True c ps \<and>
    payloads ps = Some (pes_unit_header au (pcr \<noteq> 0) @
      take (au_length au - 183) (sodb au) @ 0 # drop (au_length au - 183) (sodb au))"
proof -
  define r where "r = pes_room au pcr"
  define k where "k = au_length au - r - 183"
  have "183 \<le> au_length au - r" using assms(5) by (metis r_def mod_less_eq_dividend)
  then have k: "au_length au - 183 = r + k" "au_length au - r - 183 = k" "0 < au_length au"
    using assms(4) by (simp_all add: k_def r_def)
  have "length (drop r (sodb au)) = au_length au - r" by (simp add: au_length_def)
  then have tail: "pes_tail_payload (drop r (sodb au)) = take k (drop r (sodb au)) @ 0 # drop (r + k) (sodb au)"
    using assms(5) k(2) by (simp add: pes_tail_payload_def r_def add.commute)
  obtain p ps where "packetizePES au pid c pcr = Some (p # ps, c + 1 + word_of_nat (length ps))"
      "packet_run pid True c (p # ps)" "payloads (p # ps) = Some (pes_unit_header au (pcr \<noteq> 0) @ take r (sodb au) @
        take k (drop r (sodb au)) @ 0 # drop (r + k) (sodb au))"
    using packetizePES_several [OF k(3) assms(1,3,4,2), of c] unfolding r_def [symmetric] tail by blast
  then show ?thesis
    unfolding k(1) take_add append_assoc
    by (intro exI [of _ "p # ps"]) (simp add: add.commute add.left_commute del: packet_run.simps payloads.simps)
qed

text \<open>
  Property C11. What arrives of an access unit with a stream id that has a PES header, without a DTS and with a PTS
  below \<open>2 ^ 31\<close>, for all lengths from 1 to below \<open>2 ^ 31\<close> but those for which no packet is made. The
  packets are a conforming run on the PID, the counter is advanced by their number, and
  \<open>PESPacket::parse\<close> reads from their payloads the stream id, the PTS, the packet length (0 for video) and where the data start. The
  data are the bytes of the unit, with nothing behind; but when 183 bytes are left behind the full
  packets, a 0 byte is put in front of the last 183.
\<close>

theorem packetizePES_delivers:
  assumes "0 < au_length au" "au_length au < 2 ^ 31" "pid < 0x2000"
    and "au_dts au = 0" "au_pts au < 2 ^ 31" "has_pes_header (au_stream_id au)"
    and "pesHeaderSize_init au + au_length au \<le> 188 \<or> pes_room au pcr \<le> au_length au"
  shows "\<exists>ps bs q size. packetizePES au pid c pcr = Some (ps, c + word_of_nat (length ps)) \<and>
    packet_run pid True c ps \<and> payloads ps = Some bs \<and> pes_parse new_pes bs = Some (q, size) \<and>
    pes_stream_id q = au_stream_id au \<and> PES_packet_length q = sent_pes_length au \<and>
    pts q = au_pts au \<and> dts q = 0 \<and>
    drop (unat size) bs =
      (if pesHeaderSize_init au + au_length au \<le> 188 \<or> (au_length au - pes_room au pcr) mod 184 \<noteq> 183 then sodb au
       else take (au_length au - 183) (sodb au) @ 0 # drop (au_length au - 183) (sodb au))"
proof -
  let ?whole = "pesHeaderSize_init au + au_length au \<le> 188 \<or> (au_length au - pes_room au pcr) mod 184 \<noteq> 183"
  let ?data = "if ?whole then sodb au else take (au_length au - 183) (sodb au) @ 0 # drop (au_length au - 183) (sodb au)"
  have "\<exists>ps b. packetizePES au pid c pcr = Some (ps, c + word_of_nat (length ps)) \<and> packet_run pid True c ps \<and>
      payloads ps = Some (pes_unit_header au b @ ?data)"
  proof (cases ?whole)
    case True
    obtain p ps b r r' where "packetizePES au pid c pcr = Some (p # ps, c + word_of_nat (length (p # ps)))"
        "packet_run pid True c (p # ps)" "getData p = Some (Some (pes_unit_header au b @ r))" "payloads ps = Some r'"
        "r @ r' = sodb au"
      using packetizePES_unit [OF assms(1-4,7), of c] True by blast
    moreover from this have "payloads (p # ps) = Some (pes_unit_header au b @ sodb au)" by simp
    ultimately show ?thesis unfolding if_P [OF True] by blast
  next
    case False
    then have "188 < pesHeaderSize_init au + au_length au" "pes_room au pcr \<le> au_length au"
        "(au_length au - pes_room au pcr) mod 184 = 183" using assms(7) by auto
    from packetizePES_stray_byte [OF assms(2,3) this, of c] show ?thesis unfolding if_not_P [OF False] by blast
  qed
  then obtain ps b where ps: "packetizePES au pid c pcr = Some (ps, c + word_of_nat (length ps))" "packet_run pid True c ps"
      "payloads ps = Some (pes_unit_header au b @ ?data)" by blast
  obtain q size where "pes_parse new_pes (pes_unit_header au b @ ?data) = Some (q, size)"
      "pes_stream_id q = au_stream_id au" "PES_packet_length q = sent_pes_length au"
      "pts q = au_pts au" "dts q = 0" "drop (unat size) (pes_unit_header au b @ ?data) = ?data"
    using pes_unit_parse [OF disjI1 [OF assms(4)] assms(6,5), of b ?data] by blast
  with ps show ?thesis by blast
qed

text \<open>
  Property C39. The PCR given to \<open>packetizePES\<close> is carried by the first packet of a unit that needs
  several, where \<open>getPCR\<close> finds six bytes that stand for exactly this value (below \<open>300 * 2^33\<close>). When the
  unit fits into one packet the PCR is left out, and the adaptation field says so.
\<close>

theorem packetizePES_pcr:
  assumes "0 < au_length au" "au_length au < 2 ^ 31" "pid < 0x2000" "0 < pcr" "pcr < 300 * 2 ^ 33"
    and "if 188 < pesHeaderSize_init au + au_length au then pes_room au pcr \<le> au_length au else au_dts au = 0"
  shows "\<exists>p ps c' af bs. packetizePES au pid c pcr = Some (p # ps, c') \<and> getAdaptationField p = Some af \<and>
    getPCR af (replicate 6 0) = Some (188 < pesHeaderSize_init au + au_length au, bs) \<and>
    pcr_value bs = (if 188 < pesHeaderSize_init au + au_length au then pcr else 0)"
proof (cases "188 < pesHeaderSize_init au + au_length au")
  case True
  define d where "d = take (pes_room au pcr) (sodb au)"
  define rest where "rest = pes_unit_header au True @ d"
  define t where "t = hdr4 True pid (pick_cc continuity_value_adaptation c) @ 7 # 0x50 # writePcrBits pcr @ rest"
  have w: "length (writePcrBits pcr) = 6" by (simp add: writePcrBits_def Let_def)
  have "adaptationFieldExist (pkt t) = 3"
    using hdr4_fields(4) [where a = "0x30" and k = "unat c mod 16" and p = "pkt t", OF assms(3)]
    by (simp add: t_def pick_cc_eq)
  then have af: "getAdaptationField (pkt t) = Some (af_of t)"
    by (simp add: getAdaptationField_def af_parse_eq)
  have "t ! 5 = 0x50" "drop 6 t = writePcrBits pcr @ rest" "12 \<le> length t"
    by (simp_all add: t_def hdr4_def w)
  then have pcr: "getPCR (af_of t) (replicate 6 0) = Some (True, writePcrBits pcr)"
    using getPCR_of [of t "replicate 6 0"] w by simp
  obtain ps c' where "packetizePES au pid c pcr = Some (pkt (pes_open_packet au pid c pcr @ d) # ps, c')"
    using packetizePES_several [OF assms(1,2) True _ assms(3), of pcr c] True assms(6) unfolding d_def by auto
  moreover have "pes_open_packet au pid c pcr @ d = t"
    using assms(4) by (simp add: pes_open_packet_def pes_first_pcr_eq t_def rest_def word_gt_0)
  ultimately show ?thesis using True af pcr pcr_value_write [OF assms(5)] by auto
next
  case False
  then obtain p where p: "packetizePES au pid c pcr = Some ([p], c + 1)" "packet_run pid True c [p]"
      "adaptationFieldExist p = 3" "pk_data p ! 5 = 0x40"
    using packetizePES_single [OF assms(1) _ assms(3), of c pcr] assms(6) by auto
  have "getAdaptationField p = Some (af_of (pk_data p))"
    using p(3) by (simp add: getAdaptationField_def af_parse_eq)
  moreover have "getPCR (af_of (pk_data p)) (replicate 6 0) = Some (False, replicate 6 0)"
    using getPCR_of [of "pk_data p" "replicate 6 0"] p(2,4) by (simp add: wf_packet_def)
  moreover have "pcr_value (replicate 6 0) = 0" by (simp add: pcr_value_def)
  ultimately show ?thesis using False p(1) by auto
qed

definition sample_au :: "nat \<Rightarrow> u64 \<Rightarrow> u64 \<Rightarrow> access_unit" where
  "sample_au n t d = \<lparr>sodb = replicate n 7, au_pts = t, au_dts = d, au_stream_id = 0xBD\<rparr>"

lemma sample_au_simps [simp]:
  "au_length (sample_au n t d) = n" "sodb (sample_au n t d) = replicate n 7"
  "au_pts (sample_au n t d) = t" "au_dts (sample_au n t d) = d" "au_stream_id (sample_au n t d) = 0xBD"
  by (simp_all add: sample_au_def au_length_def)

theorem packetizePES_delivers_witness:
  "\<exists>ps bs q size. packetizePES (sample_au 400 90000 0) 0x100 3 0 = Some (ps, 3 + word_of_nat (length ps)) \<and>
    packet_run 0x100 True 3 ps \<and> payloads ps = Some bs \<and> pes_parse new_pes bs = Some (q, size) \<and>
    pes_stream_id q = 0xBD \<and> PES_packet_length q = sent_pes_length (sample_au 400 90000 0) \<and>
    pts q = 90000 \<and> dts q = 0 \<and> drop (unat size) bs = replicate 400 7"
  using packetizePES_delivers [of "sample_au 400 90000 0" "0x100" 0 3]
  by (simp add: has_pes_header_def pesHeaderSize_init_def pes_room_def)

theorem packetizePES_drops_unit_witness:
  "packetizePES (sample_au 174 0 0) 0x100 3 0 = Some ([], 4) \<and> packetizePES (sample_au 10 90000 80000) 0x100 3 0 = None"
  using packetizePES_drops_unit [of "sample_au 174 0 0" "0x100" 0 3]
    packetizePES_drops_unit [of "sample_au 10 90000 80000" "0x100" 0 3]
  by (simp add: pesHeaderSize_init_def pes_room_def)

theorem packetizePES_pcr_witness:
  "\<exists>p ps c' af bs. packetizePES (sample_au 200 0 0) 0x100 3 27000000 = Some (p # ps, c') \<and>
    getAdaptationField p = Some af \<and> getPCR af (replicate 6 0) = Some (True, bs) \<and> pcr_value bs = 27000000"
  using packetizePES_pcr [of "sample_au 200 0 0" "0x100" 27000000 3]
  by (simp add: pesHeaderSize_init_def pes_room_def)

end
