(* ===== verification/Mux_Demux.thy ===== *)
theory Mux_Demux
  imports Decoder Pes_Delivery
begin

text \<open>
  How the decoder follows the packets that \<open>TSPacker::packetize\<close> makes of a table and \<open>packetizePES\<close> of an
  access unit: the lemmas from which
  the properties of the root theory compose the two sides.
\<close>

text \<open>The parser hands out the same bytes with the insertion position at the end.\<close>

lemma pkt_same:
  "payloadUnitStart (pkt (pk_data p)) = payloadUnitStart p" "PID (pkt (pk_data p)) = PID p"
  "cc (pkt (pk_data p)) = cc p" "wf_packet (pkt (pk_data p)) = wf_packet p"
  "payload_start (pkt (pk_data p)) = payload_start p"
  by (simp_all add: payloadUnitStart_def PID_def cc_def wf_packet_def payload_start_def payload_size_def
      adaptationFieldExist_def)

lemma getData_same: "wf_packet p \<Longrightarrow> getData (pkt (pk_data p)) = getData p"
  using getData_wf [of p] getData_wf [of "pkt (pk_data p)"] by (simp add: pkt_same)

lemma packet_run_is_ts: "packet_run pid start c ps \<Longrightarrow> list_all is_ts (map pk_data ps)"
proof (induction ps arbitrary: start c)
  case (Cons p ps)
  then show ?case by (cases "pk_data p") (auto simp: is_ts_def wf_packet_def)
qed simp

text \<open>An incomplete section of at least 184 bytes is left alone.\<close>

lemma pmt_parse_incomplete:
  assumes wf: "wf_pmt s" and "184 \<le> pmt_len s" and raw: "pmt_raw s = acc @ rest" and "rest \<noteq> []" "4 \<le> length acc"
  shows "pmt_parse (new_pmt\<lparr>pmt_buffer := acc\<rparr>) = Some (new_pmt\<lparr>pmt_buffer := acc\<rparr>, False)"
proof -
  note w = wf_pmt_parts [OF wf]
  have lt: "pmt_len s < 1024" using w(1) by (simp add: fits_pmt_def)
  have len: "length acc + length rest = pmt_len s + 4"
    using arg_cong [OF raw, of length] length_pmt_raw [OF wf] by simp
  let ?h = "[0, 2, hi8 (word_of_nat (pmt_len s)) OR 0xB0, lo8 (word_of_nat (pmt_len s))]"
  have "take 4 (pmt_raw s) = ?h" unfolding pmt_raw_def w(4) by (simp add: pmt_fixed_def)
  then have "take 4 acc = ?h" using raw assms(5) by simp
  moreover have "acc = take 4 acc @ drop 4 acc" by simp
  ultimately have "acc = ?h @ drop 4 acc" by argo
  then have acc: "acc = 0 # 2 # (hi8 (word_of_nat (pmt_len s)) OR 0xB0) # lo8 (word_of_nat (pmt_len s)) # drop 4 acc"
    by (simp only: append.simps)
  have sel: "pmt_hdr (new_pmt\<lparr>pmt_buffer := acc\<rparr>) = []" "pmt_buffer (new_pmt\<lparr>pmt_buffer := acc\<rparr>) = acc"
    by (simp_all add: new_pmt_def)
  have "0 < pmt_len s" "length acc < 2 ^ 63" using assms(2) len lt by simp_all
  then have "canParse (new_pmt\<lparr>pmt_buffer := acc\<rparr>) = Some (pmt_len s < 184 \<or> pmt_len s + 4 \<le> length acc)"
    using canParse_head [OF disjI1 [OF sel(1)], unfolded sel(2), OF acc _ lt] by blast
  moreover have "length acc < pmt_len s + 4" using len assms(4) by (cases rest) simp_all
  ultimately show ?thesis using assms(2) by (simp add: pmt_parse_def)
qed

lemma payloads_length: "packet_run pid start c ps \<Longrightarrow> payloads ps = Some bs \<Longrightarrow> length bs \<le> 184 * length ps"
proof (induction ps arbitrary: start c bs)
  case (Cons p ps)
  obtain d ds where d: "getData p = Some (Some d)" "payloads ps = Some ds" "bs = d @ ds"
    using Cons.prems(2) by (auto split: bind_splits)
  have "length d \<le> 184" using payload_pointer(2) [OF _ d(1)] Cons.prems(1) by simp
  then show ?case using Cons.IH [of False "c + 1" ds] Cons.prems(1) d by simp
qed simp

text \<open>The packets after the first: each is added to the buffer, the last one completes the table.\<close>

lemma feed_section_rest:
  assumes wf: "wf_pmt s" and big: "184 \<le> pmt_len s" and prog: "program \<noteq> 0"
  shows "packet_run pid False c ps \<Longrightarrow> payloads ps = Some rest \<Longrightarrow> pmt_raw s = acc @ rest \<Longrightarrow>
    4 \<le> length acc \<Longrightarrow> 184 * (length ps - 1) < length rest \<Longrightarrow> ps \<noteq> [] \<Longrightarrow>
    dec_pmt d = new_pmt\<lparr>pmt_buffer := acc\<rparr> \<Longrightarrow> pat_find (dec_pat d) pid = Some program \<Longrightarrow>
    \<exists>d'. feed onPacket (map pk_data ps) d = Some d' \<and> dec_pat d' = dec_pat d \<and>
      dec_pmt d' = s\<lparr>pmt_buffer := pmt_raw s\<rparr> \<and> tables d' = tables d @ [PMT (s\<lparr>pmt_buffer := pmt_raw s\<rparr>)]"
proof (induction ps arbitrary: c rest acc d)
  case (Cons p ps)
  obtain b rest' where b: "getData p = Some (Some b)" "payloads ps = Some rest'" "rest = b @ rest'"
    using Cons.prems(2) by (auto split: bind_splits)
  have p: "wf_packet (pkt (pk_data p))" "getData (pkt (pk_data p)) = Some (Some b)" "\<not> payloadUnitStart (pkt (pk_data p))"
      "PID (pkt (pk_data p)) = pid" "packet_run pid False (c + 1) ps"
    using Cons.prems(1) b(1) by (simp_all add: pkt_same getData_same)
  have raw: "pmt_raw s = (acc @ b) @ rest'" using Cons.prems(3) b(3) by simp
  have more: "(dec_pmt d)\<lparr>pmt_buffer := pmt_buffer (dec_pmt d) @ b\<rparr> = new_pmt\<lparr>pmt_buffer := acc @ b\<rparr>"
    using Cons.prems(7) by simp
  note step = onPacket_pmt_more [OF p(1-3), unfolded p(4), OF Cons.prems(8) prog, unfolded more]
  show ?case
  proof (cases "ps = []")
    case True
    then have "acc @ b = pmt_raw s" using b(2) raw by simp
    moreover have "length (pmt_raw s) < 2 ^ 63"
      using length_pmt_raw [OF wf] wf_pmt_parts(1) [OF wf] by (simp add: fits_pmt_def)
    ultimately show ?thesis
      using step pmt_parse_wf [OF wf, of "pmt_raw s" "[]"] True by (auto split: bind_splits)
  next
    case False
    have "length b \<le> 184" using payload_pointer(2) [OF p(1,2)] .
    moreover obtain k where k: "length ps = Suc k" using False by (cases ps) auto
    moreover have "184 * Suc k < length b + length rest'" using Cons.prems(5) b(3) k by simp
    ultimately have "184 * k < length rest'" by simp
    then have long: "184 * (length ps - 1) < length rest'" "rest' \<noteq> []" using k by auto
    then have "pmt_parse (new_pmt\<lparr>pmt_buffer := acc @ b\<rparr>) = Some (new_pmt\<lparr>pmt_buffer := acc @ b\<rparr>, False)"
      using pmt_parse_incomplete [OF wf big raw] Cons.prems(4) long(2) by simp
    then obtain d1 where d1: "onPacket d (pkt (pk_data p)) = Some d1" "dec_pat d1 = dec_pat d"
        "dec_pmt d1 = new_pmt\<lparr>pmt_buffer := acc @ b\<rparr>" "tables d1 = tables d"
      using step by auto
    then show ?thesis
      using Cons.IH [OF p(5) b(2) raw _ long(1) False d1(3)] Cons.prems(4,8) by auto
  qed
qed simp


text \<open>The first packet of a table that needs several starts the buffer anew, and nothing is reported.\<close>

lemma feed_packed_pmt_first:
  assumes wf: "wf_pmt s" and pid: "pid < 0x2000" "pid \<noteq> 0"
    and prog: "pat_find (dec_pat d) pid = Some program" "program \<noteq> 0"
    and len: "184 < pmt_len s \<and> (pmt_len s + 4) mod 184 \<in> {5..182}"
    and pack: "packetize (pmt_raw s) (pmt_len s + 4) pid c = Some (ps, c')"
  shows "\<exists>p ps' b rest d1. ps = p # ps' \<and> ps' \<noteq> [] \<and> length ps' \<le> 5 \<and> packet_run pid True c ps \<and>
    packet_run pid False (c + 1) ps' \<and> payloads ps' = Some rest \<and> pmt_raw s = b @ rest \<and> 4 \<le> length b \<and>
    184 * (length ps' - 1) < length rest \<and> onPacket d (pkt (pk_data p)) = Some d1 \<and> dec_pat d1 = dec_pat d \<and>
    dec_pmt d1 = new_pmt\<lparr>pmt_buffer := b\<rparr> \<and> tables d1 = tables d"
proof -
  have n: "length (pmt_raw s) = pmt_len s + 4" using length_pmt_raw [OF wf] .
  have small: "pmt_len s < 1024" using wf_pmt_parts(1) [OF wf] by (simp add: fits_pmt_def)
  define q where "q = (pmt_len s + 4) div 184"
  have big: "184 < pmt_len s" and m: "5 \<le> (pmt_len s + 4) mod 184" using len by auto
  have split: "pmt_len s + 4 = 184 * q + (pmt_len s + 4) mod 184" by (simp add: q_def)
  obtain k where k: "q = Suc k" using big split m by (cases q) auto
  have ps: "length ps = q + 1" "packet_run pid True c ps" "payloads ps = Some (pmt_raw s)"
    using packetize_whole [of "pmt_raw s" pid c] pack len pid(1) n by (auto simp: q_def)
  then obtain p ps' where p: "ps = p # ps'" by (cases ps) auto
  obtain b rest where b: "getData p = Some (Some b)" "payloads ps' = Some rest" "pmt_raw s = b @ rest"
    using ps(3) p by (auto split: bind_splits)
  have run: "wf_packet (pkt (pk_data p))" "getData (pkt (pk_data p)) = Some (Some b)" "payloadUnitStart (pkt (pk_data p))"
      "PID (pkt (pk_data p)) = pid" "packet_run pid False (c + 1) ps'"
    using ps(2) b(1) by (simp_all add: p pkt_same getData_same)
  have bl: "length b \<le> 184" using payload_pointer(2) [OF run(1,2)] .
  have total: "length b + length rest = 184 * Suc k + (pmt_len s + 4) mod 184"
    using arg_cong [OF b(3), of length] n split k by simp
  have "length rest \<le> 184 * Suc k" using payloads_length [OF run(5) b(2)] ps(1) p k by simp
  then have lens: "4 \<le> length b" "184 * k < length rest" using total m bl by simp_all
  then have ne: "rest \<noteq> []" "ps' \<noteq> []" using ps(1) p k by auto
  have inc: "pmt_parse (new_pmt\<lparr>pmt_buffer := b\<rparr>) = Some (new_pmt\<lparr>pmt_buffer := b\<rparr>, False)"
    using pmt_parse_incomplete [OF wf _ b(3) ne(1) lens(1)] big by simp
  obtain d1 where d1: "onPacket d (pkt (pk_data p)) = Some d1" "dec_pat d1 = dec_pat d"
      "dec_pmt d1 = new_pmt\<lparr>pmt_buffer := b\<rparr>" "tables d1 = tables d"
    using onPacket_pmt_start [OF run(1-3), unfolded run(4), OF pid(2) prog inc] by auto
  have "q \<le> 5" using small by (simp add: q_def)
  then have "184 * (length ps' - 1) < length rest" "length ps' \<le> 5" using lens(2) ps(1) p k by simp_all
  then show ?thesis using p ne(2) ps(2) run(5) b(2,3) lens(1) d1 by blast
qed

text \<open>A packed table, from the first packet on.\<close>

lemma feed_packed_pmt:
  assumes wf: "wf_pmt s" and pid: "pid < 0x2000" "pid \<noteq> 0"
    and prog: "pat_find (dec_pat d) pid = Some program" "program \<noteq> 0"
    and len: "pmt_len s \<le> 180 \<or> 184 < pmt_len s \<and> (pmt_len s + 4) mod 184 \<in> {5..182}"
    and pack: "packetize (pmt_raw s) (pmt_len s + 4) pid c = Some (ps, c')"
  shows "packet_run pid True c ps \<and> (\<exists>d' pad. feed onPacket (map pk_data ps) d = Some d' \<and> dec_pat d' = dec_pat d \<and>
    tables d' = tables d @ [PMT (s\<lparr>pmt_buffer := pmt_raw s @ pad\<rparr>)] \<and>
    dec_pmt d' = s\<lparr>pmt_buffer := pmt_raw s @ pad\<rparr> \<and> length pad \<le> 180)"
proof -
  have n: "length (pmt_raw s) = pmt_len s + 4" using length_pmt_raw [OF wf] .
  have small: "pmt_len s < 1024" using wf_pmt_parts(1) [OF wf] by (simp add: fits_pmt_def)
  show ?thesis
  proof (cases "pmt_len s \<le> 180")
    case True
    define b where "b = pmt_raw s @ replicate (180 - pmt_len s) 0xFF"
    define p where "p = pkt (hdr4 True pid (pick_cc continuity_value c) @ b)"
    have b: "length b = 184" using True n by (simp add: b_def)
    have ps: "ps = [p]"
      using packetize_single [of "pmt_len s + 4" "pmt_raw s" pid c] pack True n by (simp add: p_def b_def)
    note data = getData_plain(1) [OF b p_def pid(1)]
    have run: "packet_run pid True c [p]" using getData_plain(2) [OF b p_def pid(1), of "[]"] by simp
    then have p: "wf_packet p" "payloadUnitStart p" "PID p = pid" "pkt (pk_data p) = p"
      by (simp_all add: p_def)
    have "pmt_parse (new_pmt\<lparr>pmt_buffer := b\<rparr>) = Some (s\<lparr>pmt_buffer := b\<rparr>, True)"
      using b by (intro pmt_parse_wf [OF wf b_def]) simp
    then obtain d' where "onPacket d p = Some d'" "dec_pat d' = dec_pat d" "dec_pmt d' = s\<lparr>pmt_buffer := b\<rparr>"
        "tables d' = tables d @ [PMT (s\<lparr>pmt_buffer := b\<rparr>)]"
      using onPacket_pmt_start [OF p(1) data p(2), of d program] p(3) pid(2) prog by auto
    then show ?thesis
      using run p(4) by (intro conjI exI [of _ d'] exI [of _ "replicate (180 - pmt_len s) 0xFF"]) (simp_all add: ps b_def)
  next
    case False
    then have len: "184 < pmt_len s \<and> (pmt_len s + 4) mod 184 \<in> {5..182}" "184 \<le> pmt_len s" using len by auto
    obtain p ps' b rest d1 where ps: "ps = p # ps'" "ps' \<noteq> []" "packet_run pid True c ps" "packet_run pid False (c + 1) ps'"
        "payloads ps' = Some rest" "pmt_raw s = b @ rest" "4 \<le> length b" "184 * (length ps' - 1) < length rest"
      and d1: "onPacket d (pkt (pk_data p)) = Some d1" "dec_pat d1 = dec_pat d"
        "dec_pmt d1 = new_pmt\<lparr>pmt_buffer := b\<rparr>" "tables d1 = tables d"
      using feed_packed_pmt_first [OF wf pid prog len(1) pack] by blast
    from feed_section_rest [OF wf len(2) prog(2) ps(4-8,2) d1(3)] d1(2) prog(1)
    obtain d' where "feed onPacket (map pk_data ps') d1 = Some d'" "dec_pat d' = dec_pat d1"
        "dec_pmt d' = s\<lparr>pmt_buffer := pmt_raw s\<rparr>" "tables d' = tables d1 @ [PMT (s\<lparr>pmt_buffer := pmt_raw s\<rparr>)]" by auto
    then show ?thesis using ps(1,3) d1
      by (intro conjI exI [of _ d'] exI [of _ "[]"]) simp_all
  qed
qed

text \<open>A packed program association table in one packet.\<close>

lemma feed_packed_pat:
  assumes wf: "wf_pat t" and t: "pat_pointer_field t = 0" "length (pid_to_program t) \<le> 42"
    "list_all (\<lambda>(pid, _). pid < 0x2000) (pid_to_program t)"
    and pack: "packetize (pat_serialize t) (length (pat_serialize t)) 0 c = Some (ps, c')"
    and d: "dec_pat d = new_pat"
  shows "packet_run 0 True c ps \<and> (\<exists>d' q. feed onPacket (map pk_data ps) d = Some d' \<and> dec_pat d' = q \<and>
    pid_to_program q = pid_to_program t \<and> pat_transport_stream_id q = pat_transport_stream_id t \<and>
    tables d' = tables d @ [PAT q])"
proof -
  let ?raw = "pat_serialize t"
  have n: "length ?raw = 13 + 4 * length (pid_to_program t)" by (simp add: pat_serialize_eq Let_def)
  define b where "b = ?raw @ replicate (184 - length ?raw) 0xFF"
  define p where "p = pkt (hdr4 True 0 (pick_cc continuity_value c) @ b)"
  have b: "length b = 184" using n t(2) by (simp add: b_def)
  have ps: "ps = [p]"
    using packetize_single [of "length ?raw" ?raw 0 c] pack n t(2) by (simp add: p_def b_def)
  have data: "getData p = Some (Some b)" and run: "packet_run 0 True c [p]"
    using getData_plain(1) [OF b p_def] getData_plain(2) [OF b p_def, of "[]"] by simp_all
  then have p: "payloadUnitStart p" "PID p = 0" "pkt (pk_data p) = p" by (simp_all add: p_def)
  define q where "q = t\<lparr>pat_section_length := word_of_nat (9 + 4 * length (pid_to_program t)), pat_reserved := 3,
      pat_version_number := 0, pat_current_next := 1\<rparr>"
  have "pat_parse b (dec_pat d) = Some q"
    unfolding d q_def b_def using t by (intro pat_parse_serialize [OF wf]) simp_all
  then show ?thesis using onPacket_pat [OF data p(1,2), of d q] run ps p(3) by (auto simp: q_def)
qed

text \<open>Both tables through the decoder, and its state behind each of them.\<close>

lemma tables_feed:
  assumes "wf_pat t" "pat_pointer_field t = 0" "length (pid_to_program t) \<le> 42"
    and "list_all (\<lambda>(pid, _). pid < 0x2000) (pid_to_program t)"
    and "wf_pmt s" "pmt_len s \<le> 180 \<or> 184 < pmt_len s \<and> (pmt_len s + 4) mod 184 \<in> {5..182}"
    and "pat_find t pid = Some program" "program \<noteq> 0" "pid < 0x2000" "pid \<noteq> 0"
    and "pmt_serialize s = Some raw"
    and "packetize (pat_serialize t) (length (pat_serialize t)) 0 c0 = Some (ps0, c0')"
    and "packetize raw (length raw) pid c1 = Some (ps1, c1')"
  shows "\<exists>d0 d q buf. feed onPacket (map pk_data ps0) new_decoder = Some d0 \<and> dec_pat d0 = q \<and>
    feed onPacket (map pk_data ps1) d0 = Some d \<and> packet_run 0 True c0 ps0 \<and> packet_run pid True c1 ps1 \<and>
    tables d = [PAT q, PMT (s\<lparr>pmt_buffer := buf\<rparr>)] \<and> dec_pat d = q \<and>
    pid_to_program q = pid_to_program t \<and> pat_transport_stream_id q = pat_transport_stream_id t"
proof -
  have raw: "raw = pmt_raw s" "length raw = pmt_len s + 4"
    using assms(11) pmt_serialize_wf [OF assms(5)] length_pmt_raw [OF assms(5)] by simp_all
  have new: "dec_pat new_decoder = new_pat" "tables new_decoder = []"
    by (simp_all add: new_decoder_def tables_def)
  obtain d0 q where run0: "packet_run 0 True c0 ps0" and d0: "feed onPacket (map pk_data ps0) new_decoder = Some d0"
      "dec_pat d0 = q" "pid_to_program q = pid_to_program t" "tables d0 = [PAT q]"
      "pat_transport_stream_id q = pat_transport_stream_id t"
    using feed_packed_pat [OF assms(1-4,12) new(1)] new(2) by auto
  have "pat_find (dec_pat d0) pid = Some program" using assms(7) d0(2,3) by (simp add: pat_find_def)
  then obtain d buf where "packet_run pid True c1 ps1" "feed onPacket (map pk_data ps1) d0 = Some d"
      "dec_pat d = dec_pat d0" "tables d = tables d0 @ [PMT (s\<lparr>pmt_buffer := buf\<rparr>)]"
    using feed_packed_pmt [OF assms(5,9,10) _ assms(8,6)] assms(13) unfolding raw(2) unfolding raw(1) by blast
  then show ?thesis using run0 d0 by auto
qed

text \<open>A PES packet on a PID that is in no table: its first packet is reported, the others are passed over.\<close>

lemma onPacket_pes_start:
  assumes "getData p = Some (Some bs)" "payloadUnitStart p" "PID p \<noteq> 0" "pat_find (dec_pat d) (PID p) = None"
    and "pes_parse new_pes bs = Some (q, n)" "n > 0"
  shows "\<exists>d'. onPacket d p = Some d' \<and> dec_pat d' = dec_pat d \<and> tables d' = tables d @ [PES q]"
  using assms by (simp add: onPacket_def deref_def)

lemma feed_pes_rest:
  "packet_run pid False c ps \<Longrightarrow> pat_find (dec_pat d) pid = None \<Longrightarrow>
   \<exists>d'. feed onPacket (map pk_data ps) d = Some d' \<and> dec_pat d' = dec_pat d \<and> tables d' = tables d"
proof (induction ps arbitrary: c d)
  case (Cons p ps)
  have p: "wf_packet (pkt (pk_data p))" "\<not> payloadUnitStart (pkt (pk_data p))" "PID (pkt (pk_data p)) = pid"
      "packet_run pid False (c + 1) ps"
    using Cons.prems(1) by (simp_all add: pkt_same)
  obtain d1 where d1: "onPacket d (pkt (pk_data p)) = Some d1" "dec_pat d1 = dec_pat d" "tables d1 = tables d"
    using p Cons.prems(2) getData_wf [OF p(1)] by (simp add: onPacket_def)
  then show ?case using Cons.IH [OF p(4), of d1] Cons.prems(2) by simp
qed simp

lemma feed_pes:
  assumes "0 < au_length au" "au_length au < 2 ^ 31" "pid < 0x2000" "pid \<noteq> 0"
    and "au_dts au = 0" "au_pts au < 2 ^ 31" "has_pes_header (au_stream_id au)"
    and "pesHeaderSize_init au + au_length au \<le> 188 \<or> pes_room au pcr \<le> au_length au"
    and "packetizePES au pid c pcr = Some (ps, c')" and "pat_find (dec_pat d) pid = None"
  shows "packet_run pid True c ps \<and> (\<exists>d' q. feed onPacket (map pk_data ps) d = Some d' \<and> dec_pat d' = dec_pat d \<and>
    tables d' = tables d @ [PES q] \<and> pes_stream_id q = au_stream_id au \<and>
    PES_packet_length q = sent_pes_length au \<and> pts q = au_pts au)"
proof -
  obtain p ps' b rest where ps: "ps = p # ps'" "packet_run pid True c ps"
      "getData p = Some (Some (pes_unit_header au b @ rest))"
    using packetizePES_unit [OF assms(1-3,5,8), of c] assms(9) by auto
  have p: "PID (pkt (pk_data p)) = pid" "payloadUnitStart (pkt (pk_data p))" "packet_run pid False (c + 1) ps'"
      "getData (pkt (pk_data p)) = Some (Some (pes_unit_header au b @ rest))"
    using ps by (simp_all add: pkt_same getData_same)
  obtain q size where q: "pes_parse new_pes (pes_unit_header au b @ rest) = Some (q, size)"
      "pes_stream_id q = au_stream_id au" "PES_packet_length q = sent_pes_length au" "pts q = au_pts au"
      "drop (unat size) (pes_unit_header au b @ rest) = rest"
    using pes_unit_parse [OF disjI1 [OF assms(5)] assms(7,6), of b rest] by blast
  have "size > 0"
  proof (rule ccontr)
    assume "\<not> size > 0"
    then have "pes_unit_header au b @ rest = rest" using q(5) by (simp add: word_gt_0)
    then show False using length_pes_unit_header [of au b] by (simp split: if_splits)
  qed
  then obtain d1 where d1: "onPacket d (pkt (pk_data p)) = Some d1" "dec_pat d1 = dec_pat d" "tables d1 = tables d @ [PES q]"
    using onPacket_pes_start [OF p(4,2), of d q size] p(1) assms(4,10) q(1) by auto
  then show ?thesis
    using feed_pes_rest [OF p(3), of d1] assms(10) ps(1,2) q(2-4) by (auto simp del: packet_run.simps)
qed

section \<open>Examples\<close>

text \<open>A small association table, and the packets of it and of a small program map table.\<close>

definition sample_pat :: pat where
  "sample_pat = new_pat\<lparr>pid_to_program := [(0x20, 1)]\<rparr>"

lemma sample_pat_facts:
  "wf_pat sample_pat" "pat_pointer_field sample_pat = 0" "length (pid_to_program sample_pat) \<le> 42"
  "list_all (\<lambda>(pid, _). pid < 0x2000) (pid_to_program sample_pat)" "pat_find sample_pat 0x20 = Some 1"
  "pat_find sample_pat 0x100 = None" "length (pat_serialize sample_pat) = 17"
  by (simp_all add: sample_pat_def wf_pat_def map_sorted_def new_pat_def pat_find_def map_find_def
      pat_serialize_eq Let_def)

lemma sample_pat_packet:
  obtains p where "packetize (pat_serialize sample_pat) (length (pat_serialize sample_pat)) 0 0 = Some ([p], 1)"
    "length (pk_data p) = 188"
  using packetize_single [of "length (pat_serialize sample_pat)" "pat_serialize sample_pat" 0 0] sample_pat_facts(7)
  by simp

lemma small_pmt_packet:
  assumes "wf_pmt s" "pmt_len s \<le> 180"
  obtains p where "pmt_serialize s = Some (pmt_raw s)"
    "packetize (pmt_raw s) (length (pmt_raw s)) 0x20 0 = Some ([p], 1)" "length (pk_data p) = 188"
  using packetize_single [of "length (pmt_raw s)" "pmt_raw s" "0x20" 0] assms length_pmt_raw [OF assms(1)]
    pmt_serialize_wf [OF assms(1)] by simp

lemma sample_pmt_small: "pmt_len sample_pmt \<le> 180"
  by (simp add: pmt_len_def sample_pmt_def pmt_table_def Let_def new_pmt_def ebytes_def)

lemma sample_au_packet:
  obtains p where "packetizePES (sample_au 100 90000 0) 0x100 c 0 = Some ([p], c + 1)" "length (pk_data p) = 188"
  using packetizePES_single [of "sample_au 100 90000 0" "0x100" c 0] by (auto simp: pesHeaderSize_init_def wf_packet_def)

end
