(* ===== verification/Shared_Table.thy ===== *)
theory Shared_Table
  imports Mux_Demux
begin

text \<open>
  The decoder has one \<open>ProgramMapTable\<close> for the tables of all programs, and \<open>parse\<close> adds to what the object
  holds. What it reports when a table arrives between the packets of another one.
\<close>

section \<open>Parsing a table again\<close>

lemma element_list_bytes: "list_all fits_element pes \<Longrightarrow> \<exists>bs. elements_bytes pes = Some bs"
  using elements_bytes_fits by blast

text \<open>
  \<open>parse\<close> on an object that has read the section at the start of its buffer before: the fixed part is pushed
  behind the old one, the program descriptors are known, and the elements are added once more.
\<close>

lemma pmt_parse_again:
  assumes wf: "wf_pmt s" and hdr: "pmt_hdr t = pmt_hdr s @ x" and buf: "pmt_buffer t = pmt_raw s @ rest"
    and infos: "program_info t = program_info s" and elms: "list_all fits_element (program_elmts t)"
    and size: "length (pmt_buffer t) < 2 ^ 63"
  shows "\<exists>c. pmt_parse t = Some (t\<lparr>pmt_hdr := pmt_hdr t @ pmt_hdr s,
    program_elmts := program_elmts t @ program_elmts s, pmt_CRC_32 := c\<rparr>, True)"
proof -
  note w = wf_pmt_parts [OF wf]
  define len pil mid where "len = pmt_len s" and "pil = length (dbytes (program_info s))" and "mid = pmt_mid s"
  have h: "pmt_hdr s = pmt_fixed len mid pil" "length mid = 7" using w(3,4) by (simp_all add: len_def pil_def mid_def)
  have b: "pmt_buffer t = pmt_hdr s @ pmt_body s @ bytes_be32 (pmt_CRC_32 s) @ rest" by (simp add: buf pmt_raw_def)
  note reads = section_reads [OF w(1) h(1) len_def pil_def h(2) b]
  have len: "unat (word_of_nat len :: u16) = len" "(word_of_nat len :: u16) < 0x400"
    and pil: "unat (word_of_nat pil :: u16) = pil" "(word_of_nat pil :: u16) < 0x400"
    using reads(3,4) by (simp_all add: word_less_nat_alt)
  have can: "canParse t = Some True"
  proof -
    have "pmt_buffer t = 0 # 2 # (hi8 (word_of_nat len) OR 0xB0) # lo8 (word_of_nat len) # drop 4 (pmt_buffer t)"
      by (simp add: b h(1) pmt_fixed_def)
    moreover have "take 4 (pmt_hdr t) = take 4 (pmt_buffer t)" by (simp add: hdr b h(1) pmt_fixed_def)
    ultimately show ?thesis using canParse_head [of t len "drop 4 (pmt_buffer t)"] reads(1-3) size by simp
  qed
  have known: "foldl add_distinct (program_info s) ds = program_info s" if "set ds \<subseteq> set (program_info s)" for ds
    using that by (induction ds) (auto simp: add_distinct_def has_tag_iff)
  have dd: "map dedup_element (program_elmts s) = program_elmts s" using w(6) by (rule list_all_dedup_id)
  let ?t = "t\<lparr>pmt_hdr := pmt_hdr t @ pmt_hdr s, program_elmts := program_elmts t @ program_elmts s\<rparr>"
  obtain raw where raw: "pmt_serialize (?t\<lparr>pmt_CRC_32 := pmt_CRC_32 s\<rparr>) = Some raw"
  proof -
    have "hdr16 (pmt_hdr s @ y) 11 = hdr16 (pmt_hdr s) 11" for y
      using h(2) by (simp add: hdr16_def h(1) pmt_fixed_def rd16_def rd_append)
    then have "programInfoLength (?t\<lparr>pmt_CRC_32 := pmt_CRC_32 s\<rparr>) = programInfoLength s"
      by (simp add: programInfoLength_def hdr)
    moreover have "programInfoLength s = Some (word_of_nat pil)"
      using programInfoLength_fixed [OF h reads(4)] .
    moreover have "descriptors_bytes (program_info s) = Some (dbytes (program_info s))"
      using w(1) by (intro descriptors_bytes_wf) (simp add: fits_pmt_def)
    moreover have "list_all fits_element (program_elmts t @ program_elmts s)"
      using elms w(1) by (simp add: fits_pmt_def)
    then obtain bs where "elements_bytes (program_elmts t @ program_elmts s) = Some bs" using element_list_bytes by blast
    ultimately have "\<exists>raw. pmt_serialize (?t\<lparr>pmt_CRC_32 := pmt_CRC_32 s\<rparr>) = Some raw"
      by (simp add: pmt_serialize_eq infos)
    then show ?thesis using that by blast
  qed
  define c where "c = crc_bytes 0xFFFFFFFF (take (length raw - 4 - 1) (drop 1 raw))"
  have calc: "pmt_calcCRC (?t\<lparr>pmt_CRC_32 := pmt_CRC_32 s\<rparr>) = Some (?t\<lparr>pmt_CRC_32 := c\<rparr>)"
    unfolding pmt_calcCRC_def raw by (simp add: c_def)
  have h4: "pmt_hdr s = [0, 2, hi8 (word_of_nat len) OR 0xB0, lo8 (word_of_nat len)] @ mid @
      [hi8 (word_of_nat pil) OR 0xF0, lo8 (word_of_nat pil)]" by (simp add: h(1) pmt_fixed_def)
  have first: "(pmt_hdr t @ y) ! 0 = 0" for y by (simp add: hdr h(1) pmt_fixed_def)
  have nums: "(2 :: nat) = Suc (Suc 0)" "(4 :: nat) = Suc (Suc (Suc (Suc 0)))" by simp_all
  have st: "t\<lparr>pmt_hdr := h, pmt_CRC_32 := k, program_info := program_info s, program_elmts := es\<rparr> =
      t\<lparr>pmt_hdr := h, program_elmts := es, pmt_CRC_32 := k\<rparr>" for h k es
    by (rule pmt.equality) (simp_all add: infos)
  have "pmt_parse t = Some (?t\<lparr>pmt_CRC_32 := c\<rparr>, True)"
    using can reads(5-14) reads(15) [of "program_info s"] reads(16) [of "program_elmts t"] calc known [OF order_refl] first
    by (simp add: pmt_parse_def Let_def endian_simps length_fields [OF len(2)] len(1)
        length_fields [OF pil(2)] pil(1) nums add.commute infos dd h4 st)
  then show ?thesis by (intro exI [of _ c]) simp
qed

section \<open>What the decoder reports\<close>

text \<open>An object that has read the section of \<open>s\<close> \<open>k\<close> times.\<close>

definition read_times :: "pmt \<Rightarrow> nat \<Rightarrow> pmt \<Rightarrow> bool" where
  "read_times s k t \<longleftrightarrow> (\<exists>x pad. pmt_hdr t = pmt_hdr s @ x \<and> pmt_buffer t = pmt_raw s @ pad) \<and>
     program_info t = program_info s \<and> program_elmts t = concat (replicate k (program_elmts s))"

lemma read_times_step:
  assumes "wf_pmt s" "read_times s k t" "length (pmt_buffer t) + length bs < 2 ^ 63"
  shows "\<exists>t'. pmt_parse (t\<lparr>pmt_buffer := pmt_buffer t @ bs\<rparr>) = Some (t', True) \<and> read_times s (Suc k) t' \<and>
    length (pmt_buffer t') = length (pmt_buffer t) + length bs"
proof -
  obtain x pad where t: "pmt_hdr t = pmt_hdr s @ x" "pmt_buffer t = pmt_raw s @ pad" "program_info t = program_info s"
      "program_elmts t = concat (replicate k (program_elmts s))"
    using assms(2) by (auto simp: read_times_def)
  have fits: "list_all fits_element (program_elmts t)"
    using wf_pmt_parts(1) [OF assms(1)] by (auto simp: t(4) fits_pmt_def list_all_iff)
  have "concat (replicate k (program_elmts s)) @ program_elmts s = concat (replicate (Suc k) (program_elmts s))"
    by (simp only: replicate_append_same [symmetric] replicate_Suc concat_append concat.simps append_Nil2)
  moreover obtain c where "pmt_parse (t\<lparr>pmt_buffer := pmt_buffer t @ bs\<rparr>) =
      Some (t\<lparr>pmt_buffer := pmt_buffer t @ bs, pmt_hdr := pmt_hdr t @ pmt_hdr s,
        program_elmts := program_elmts t @ program_elmts s, pmt_CRC_32 := c\<rparr>, True)"
    using pmt_parse_again [OF assms(1), of "t\<lparr>pmt_buffer := pmt_buffer t @ bs\<rparr>" x "pad @ bs"] t fits assms(3) by auto
  ultimately show ?thesis using t by (auto simp: read_times_def simp del: replicate_Suc)
qed

text \<open>Each packet that continues some table reads the last complete one again.\<close>

lemma feed_repeats:
  "wf_pmt s \<Longrightarrow> packet_run pid False c ps \<Longrightarrow> payloads ps = Some bs \<Longrightarrow> pat_find (dec_pat d) pid = Some program \<Longrightarrow>
   program \<noteq> 0 \<Longrightarrow> read_times s k (dec_pmt d) \<Longrightarrow> length (pmt_buffer (dec_pmt d)) + 184 * length ps < 2 ^ 63 \<Longrightarrow>
   \<exists>d' ts. feed onPacket (map pk_data ps) d = Some d' \<and> tables d' = tables d @ map PMT ts \<and>
     length ts = length ps \<and> (\<forall>i < length ts. read_times s (Suc k + i) (ts ! i))"
proof (induction ps arbitrary: c bs k d)
  case (Cons p ps)
  obtain b rest where b: "getData p = Some (Some b)" "payloads ps = Some rest"
    using Cons.prems(3) by (auto split: bind_splits)
  have p: "wf_packet (pkt (pk_data p))" "getData (pkt (pk_data p)) = Some (Some b)" "\<not> payloadUnitStart (pkt (pk_data p))"
      "PID (pkt (pk_data p)) = pid" "packet_run pid False (c + 1) ps"
    using Cons.prems(2) b(1) by (simp_all add: pkt_same getData_same)
  have bl: "length b \<le> 184" using payload_pointer(2) [OF p(1,2)] .
  then obtain t where t: "pmt_parse ((dec_pmt d)\<lparr>pmt_buffer := pmt_buffer (dec_pmt d) @ b\<rparr>) = Some (t, True)"
      "read_times s (Suc k) t" "length (pmt_buffer t) = length (pmt_buffer (dec_pmt d)) + length b"
    using read_times_step [OF Cons.prems(1,6), of b] Cons.prems(7) by auto
  obtain d1 where d1: "onPacket d (pkt (pk_data p)) = Some d1" "dec_pat d1 = dec_pat d" "dec_pmt d1 = t"
      "tables d1 = tables d @ [PMT t]"
    using onPacket_pmt_more [OF p(1-3), unfolded p(4), OF Cons.prems(4,5) t(1)] by auto
  obtain d' ts where d': "feed onPacket (map pk_data ps) d1 = Some d'" "tables d' = tables d1 @ map PMT ts"
      "length ts = length ps" "\<forall>i < length ts. read_times s (Suc (Suc k) + i) (ts ! i)"
    using Cons.IH [OF Cons.prems(1) p(5) b(2), of d1 "Suc k"] d1(2,3) t(2,3) Cons.prems(4,5,7) bl by auto
  have "\<forall>i < length (t # ts). read_times s (Suc k + i) ((t # ts) ! i)"
    using t(2) d'(4) by (auto simp: nth_Cons split: nat.splits)
  then show ?case using d1(1,4) d'(1-3) by (intro exI [of _ d'] exI [of _ "t # ts"]) simp
qed simp

section \<open>Properties\<close>

text \<open>
  Property C13. One map table arrives between the packets of another. The first packet of a table that needs several is
  received, directly behind it a table of another program in one packet, and then the remaining packets of
  the first; the lengths are such that the packer damages neither. The standard allows this order, on two PIDs. The first
  table is never reported. Instead, each of its remaining packets makes the decoder report the second table once
  more, every time with one more copy of its elements.
\<close>

theorem interleaved_tables:
  assumes "wf_pmt a" "184 < pmt_len a" "(pmt_len a + 4) mod 184 \<in> {5..182}"
    and "wf_pmt b" "pmt_len b \<le> 180"
    and "pid_a < 0x2000" "pid_a \<noteq> 0" "pat_find (dec_pat d) pid_a = Some program_a" "program_a \<noteq> 0"
    and "pid_b < 0x2000" "pid_b \<noteq> 0" "pat_find (dec_pat d) pid_b = Some program_b" "program_b \<noteq> 0"
    and "packetize (pmt_raw a) (pmt_len a + 4) pid_a ca = Some (p # ps, ca')"
    and "packetize (pmt_raw b) (pmt_len b + 4) pid_b cb = Some ([q], cb')"
  shows "\<exists>d' ts. feed onPacket (map pk_data (p # q # ps)) d = Some d' \<and> tables d' = tables d @ map PMT ts \<and>
    length ts = length ps + 1 \<and> 2 \<le> length ts \<and>
    (\<forall>i < length ts. program_info (ts ! i) = program_info b \<and>
      program_elmts (ts ! i) = concat (replicate (i + 1) (program_elmts b)))"
proof -
  obtain rest d1 where ps: "ps \<noteq> []" "length ps \<le> 5" "packet_run pid_a False (ca + 1) ps" "payloads ps = Some rest"
    and d1: "onPacket d (pkt (pk_data p)) = Some d1" "dec_pat d1 = dec_pat d" "tables d1 = tables d"
    using feed_packed_pmt_first [OF assms(1,6-9) _ assms(14)] assms(2,3) by auto
  have prog: "pat_find (dec_pat d1) pid_b = Some program_b" using assms(12) d1(2) by simp
  from feed_packed_pmt [OF assms(4,10,11) prog assms(13) _ assms(15)] assms(5)
  obtain d2 pad where d2: "feed onPacket (map pk_data [q]) d1 = Some d2" "dec_pat d2 = dec_pat d1"
      "tables d2 = tables d1 @ [PMT (b\<lparr>pmt_buffer := pmt_raw b @ pad\<rparr>)]"
      "dec_pmt d2 = b\<lparr>pmt_buffer := pmt_raw b @ pad\<rparr>" "length pad \<le> 180" by blast
  let ?b = "b\<lparr>pmt_buffer := pmt_raw b @ pad\<rparr>"
  have once: "read_times b 1 ?b" by (simp add: read_times_def)
  have "length (pmt_buffer ?b) + 184 * length ps < 2 ^ 63"
    using length_pmt_raw [OF assms(4)] assms(5) d2(5) ps(2) by simp
  moreover have "pat_find (dec_pat d2) pid_a = Some program_a" using assms(8) d1(2) d2(2) by simp
  ultimately obtain d' ts where d': "feed onPacket (map pk_data ps) d2 = Some d'" "tables d' = tables d2 @ map PMT ts"
      "length ts = length ps" "\<forall>i < length ts. read_times b (Suc 1 + i) (ts ! i)"
    using feed_repeats [OF assms(4) ps(3,4) _ assms(9), of d2 1] once unfolding d2(4) by blast
  have all: "\<forall>i < length (?b # ts). read_times b (i + 1) ((?b # ts) ! i)"
    using once d'(4) by (auto simp: nth_Cons split: nat.splits)
  have "feed onPacket (map pk_data (p # q # ps)) d = Some d'"
    using d1(1) d2(1) d'(1) by (auto split: bind_splits)
  moreover have "tables d' = tables d @ map PMT (?b # ts)" using d1(3) d2(3) d'(2) by simp
  moreover have "length (?b # ts) = length ps + 1" "2 \<le> length (?b # ts)" using d'(3) ps(1) by (auto simp: Suc_le_eq)
  ultimately show ?thesis using all unfolding read_times_def by (intro exI [of _ d'] exI [of _ "?b # ts"]) blast
qed

text \<open>A table of 40 elements, which needs two packets, and the association table of the two programs.\<close>

definition large_pmt :: pmt where
  "large_pmt = pmt_table [0, 2, 0xC1, 0, 0, 0xE1, 0] []
     (replicate 40 \<lparr>stream_type = 0x1B, elementary_PID = 0x200, descriptors = []\<rparr>)"

lemma large_pmt_facts: "wf_pmt large_pmt" "pmt_len large_pmt = 213"
proof -
  have e: "length (ebytes (replicate n \<lparr>stream_type = 0x1B, elementary_PID = 0x200, descriptors = []\<rparr>)) = 5 * n" for n
    by (induction n) (simp_all add: ebytes_def)
  show "wf_pmt large_pmt"
    unfolding large_pmt_def
    by (rule wf_pmt_table) (simp_all only: e, simp_all add: wf_element_def fits_element_def list_all_iff)
  show "pmt_len large_pmt = 213"
    unfolding pmt_len_def large_pmt_def pmt_table_def Let_def by (simp only: pmt.simps e new_pmt_def) simp
qed

definition two_programs :: decoder where
  "two_programs = new_decoder\<lparr>dec_pat := new_pat\<lparr>pid_to_program := [(0x20, 1), (0x30, 2)]\<rparr>\<rparr>"

theorem interleaved_tables_witness:
  "\<exists>p ps q d' ts. packetize (pmt_raw large_pmt) 217 0x20 0 = Some (p # ps, 2) \<and>
     packetize (pmt_raw sample_pmt) (pmt_len sample_pmt + 4) 0x30 0 = Some ([q], 1) \<and>
     feed onPacket (map pk_data (p # q # ps)) two_programs = Some d' \<and>
     tables d' = tables two_programs @ map PMT ts \<and> 2 \<le> length ts \<and>
     program_elmts (ts ! 1) = program_elmts sample_pmt @ program_elmts sample_pmt"
proof -
  note large = large_pmt_facts
  have small: "pmt_len sample_pmt \<le> 180"
    by (simp add: pmt_len_def sample_pmt_def pmt_table_def Let_def new_pmt_def ebytes_def)
  have n: "length (pmt_raw large_pmt) = 217" using length_pmt_raw [OF large(1)] large(2) by simp
  obtain pps where "packetize (pmt_raw large_pmt) 217 0x20 0 = Some (pps, 0 + word_of_nat (length pps))" "length pps = 2"
    using packetize_whole [of "pmt_raw large_pmt" "0x20" 0] n by auto
  then obtain p ps where p: "packetize (pmt_raw large_pmt) (pmt_len large_pmt + 4) 0x20 0 = Some (p # ps, 2)"
    using large(2) by (cases pps) auto
  obtain q where q: "packetize (pmt_raw sample_pmt) (pmt_len sample_pmt + 4) 0x30 0 = Some ([q], 1)"
    using packetize_single [of "pmt_len sample_pmt + 4" "pmt_raw sample_pmt" "0x30" 0] small length_pmt_raw [OF sample_pmt_wf]
    by auto
  have progs: "pat_find (dec_pat two_programs) 0x20 = Some 1" "pat_find (dec_pat two_programs) 0x30 = Some 2"
    by (simp_all add: two_programs_def pat_find_def map_find_def)
  obtain d' ts where "feed onPacket (map pk_data (p # q # ps)) two_programs = Some d'"
      "tables d' = tables two_programs @ map PMT ts" "2 \<le> length ts"
      "\<forall>i < length ts. program_info (ts ! i) = program_info sample_pmt \<and>
        program_elmts (ts ! i) = concat (replicate (i + 1) (program_elmts sample_pmt))"
    using interleaved_tables [OF large(1) _ _ sample_pmt_wf small _ _ progs(1) _ _ _ progs(2) _ p q] large(2) by auto
  moreover from this(3,4) have "program_elmts (ts ! 1) = program_elmts sample_pmt @ program_elmts sample_pmt"
    by (simp add: numeral_2_eq_2)
  ultimately show ?thesis using p q large(2) by auto
qed

end
