(* ===== verification/Pat_Refinement.thy ===== *)
theory Pat_Refinement
  imports Program_Association
begin

text \<open>
  What a program association table is, abstractly: a finite map from PIDs to program numbers. Every
  operation on the object announces some entries, and an entry is taken over exactly when its PID is new.
\<close>

section \<open>The operations and what they announce\<close>

datatype pat_op =
    Add u16 u16
  | Parse bytes
  | Copy

fun pat_apply :: "pat_op \<Rightarrow> pat \<Rightarrow> pat option" where
  "pat_apply (Add program pid) p = Some (fst (addProgram p program pid))"
| "pat_apply (Parse table) p = pat_parse table p"
| "pat_apply Copy p = Some (pat_copy p)"

fun pat_run :: "pat_op list \<Rightarrow> pat \<Rightarrow> pat option" where
  "pat_run [] p = Some p"
| "pat_run (op # ops) p = do { q \<leftarrow> pat_apply op p; pat_run ops q }"

text \<open>The entries of a section, \<open>n\<close> of them, from \<open>cur\<close>.\<close>

fun section_entries :: "bytes \<Rightarrow> nat \<Rightarrow> nat \<Rightarrow> (u16 \<times> u16) list" where
  "section_entries table cur 0 = []"
| "section_entries table cur (Suc n) =
     (be16 (table ! (cur + 2)) (table ! (cur + 3)) AND 0x1FFF, be16 (table ! cur) (table ! (cur + 1)))
       # section_entries table (cur + 4) n"

fun announced :: "pat_op \<Rightarrow> (u16 \<times> u16) list" where
  "announced (Add program pid) = [(pid, program)]"
| "announced (Parse table) =
     (let offset = (if table ! 0 = 0 then 1 else unat (table ! 0));
          sl = unat (be16 (table ! (offset + 1)) (table ! (offset + 2)) AND 0xFFF)
      in section_entries table (offset + 8) ((sl - 9 + 3) div 4))"
| "announced Copy = []"

section \<open>Each operation inserts what it announces\<close>

lemma pat_parse_entries_map:
  "map_sorted m \<Longrightarrow> pat_parse_entries table cur stop m = Some (c, m') \<Longrightarrow>
   m' = std_map.ins_all (section_entries table cur ((stop - cur + 3) div 4)) m"
proof (induction table cur stop m rule: pat_parse_entries.induct)
  case (1 table cur stop m)
  show ?case
  proof (cases "cur < stop")
    case True
    then have "stop - cur + 3 = stop - (cur + 4) + 3 + 4 \<or> stop - cur \<le> 4" by auto
    then have count: "(stop - cur + 3) div 4 = Suc ((stop - (cur + 4) + 3) div 4)" using True by auto
    obtain prog k where r: "rd16 table cur = Some prog" "rd16 table (cur + 2) = Some k"
      and rest: "pat_parse_entries table (cur + 4) stop
          (if map_find m (ntohs k AND 0x1FFF) = None then fst (map_insert (ntohs k AND 0x1FFF) (ntohs prog) m) else m)
          = Some (c, m')"
      using 1(3) True by (subst (asm) pat_parse_entries.simps) (auto simp: Let_def split: bind_splits)
    have "prog = le16 (table ! cur) (table ! (cur + 1))" "k = le16 (table ! (cur + 2)) (table ! (cur + 3))"
      using r by (auto simp: rd16_def rd_Some_iff numeral_3_eq_3 split: bind_splits)
    then have swap: "ntohs prog = be16 (table ! cur) (table ! (cur + 1))"
        "ntohs k = be16 (table ! (cur + 2)) (table ! (cur + 3))" by (simp_all add: endian_simps)
    show ?thesis
      using 1(1) [OF True r refl refl _ rest] 1(2) swap unfolding insert_if_absent [OF 1(2)] count
      by (simp add: map_insert_sorted std_map.ins_all_def)
  next
    case False
    then show ?thesis using 1(3) by (simp add: pat_parse_entries.simps [of table cur stop m] std_map.ins_all_def)
  qed
qed

lemma addProgram_map:
  "wf_pat p \<Longrightarrow> pid_to_program (fst (addProgram p program pid)) = std_map.ins_all [(pid, program)] (pid_to_program p)"
  by (simp add: addProgram_def Let_def case_prod_beta pat_calcCRC_def std_map.ins_all_def)

lemma pat_apply_map:
  assumes "wf_pat p" "pat_apply op p = Some q"
  shows "pid_to_program q = std_map.ins_all (announced op) (pid_to_program p)"
proof (cases op)
  case (Add program pid)
  then show ?thesis using assms addProgram_map [of p program pid] by auto
next
  case (Parse table)
  define offset where "offset = (if table ! 0 = 0 then 1 else unat (table ! 0))"
  define sl where "sl = unat (be16 (table ! (offset + 1)) (table ! (offset + 2)) AND 0xFFF)"
  have "pat_parse table p = Some q" using assms(2) Parse by simp
  then obtain w c where "rd16 table (offset + 1) = Some w"
      "pat_parse_entries table (offset + 8) (offset + 8 + unat (ntohs w AND 0x0FFF) - 9) (pid_to_program p) =
        Some (c, pid_to_program q)"
    by (auto simp: pat_parse_def Let_def offset_def rd_Some_iff split: bind_splits)
  moreover from this(1) have "ntohs w = be16 (table ! (offset + 1)) (table ! (offset + 2))"
    by (auto simp: rd16_def rd_Some_iff endian_simps split: bind_splits)
  ultimately have "pat_parse_entries table (offset + 8) (offset + 8 + sl - 9) (pid_to_program p) =
      Some (c, pid_to_program q)" by (simp add: sl_def)
  from pat_parse_entries_map [OF _ this] assms(1)
  have "pid_to_program q = std_map.ins_all (section_entries table (offset + 8) ((offset + 8 + sl - 9 - (offset + 8) + 3) div 4))
      (pid_to_program p)" by (simp add: wf_pat_def)
  moreover have "offset + 8 + sl - 9 - (offset + 8) = sl - 9" by simp
  ultimately show ?thesis by (simp add: Parse Let_def offset_def sl_def)
next
  case Copy
  then show ?thesis using assms(2) pat_copy_eq [OF assms(1)] by (auto simp: std_map.ins_all_def)
qed

lemma pat_run_map:
  "pat_run ops p = Some q \<Longrightarrow> wf_pat p \<Longrightarrow>
   pid_to_program q = std_map.ins_all (concat (map announced ops)) (pid_to_program p)"
proof (induction ops arbitrary: p)
  case Nil
  then show ?case by (simp add: std_map.ins_all_def)
next
  case (Cons op ops)
  then obtain r where r: "pat_apply op p = Some r" "pat_run ops r = Some q" by (auto split: bind_splits)
  note step = pat_apply_map [OF Cons.prems(2) r(1)]
  have "wf_pat r" using std_map.inv_ins_all Cons.prems(2) by (simp add: wf_pat_def step)
  then show ?case using Cons.IH [OF r(2)] by (simp add: step std_map.ins_all_def)
qed

section \<open>Properties\<close>

text \<open>
  Property C14. Over its whole life, through any sequence of \<open>addProgram\<close>, \<open>parse\<close> and copies, the table is
  the finite map of the entries that were announced, the first announcement of each PID: \<open>find\<close> looks up
  this map, \<open>size\<close> is the number of its PIDs, and the iterators go through it in ascending order. In
  particular a new version of the table on the air never removes or changes an entry.
\<close>

theorem pat_refines_map:
  assumes "wf_pat p" and "pat_run ops p = Some q"
  shows "pat_find q = map_of (concat (map announced ops)) ++ pat_find p \<and>
    pat_size q = card (dom (pat_find q)) \<and>
    map fst (pid_to_program q) = sorted_list_of_set (dom (pat_find q)) \<and> wf_pat q"
proof -
  note q = pat_run_map [OF assms(2,1)]
  have wf: "map_sorted (pid_to_program q)" using std_map.inv_ins_all assms(1) by (simp add: wf_pat_def q)
  have find: "pat_find q = map_of (concat (map announced ops)) ++ pat_find p"
    using std_map.look_ins_all [of "pid_to_program p"] assms(1)
    by (auto simp: fun_eq_iff pat_find_def q wf_pat_def map_add_def split: option.splits)
  have keys: "distinct (map fst (pid_to_program q))" "sorted (map fst (pid_to_program q))"
    using wf by (simp_all add: map_sorted_def strict_sorted_iff)
  have dom: "dom (pat_find q) = set (map fst (pid_to_program q))"
    using dom_map_of_conv_image_fst [of "pid_to_program q"] by (simp add: pat_find_def map_find_def dom_def)
  have "map fst (pid_to_program q) = sorted_list_of_set (dom (pat_find q))"
    unfolding dom using keys by (metis sorted_list_of_set.idem_if_sorted_distinct)
  moreover have "pat_size q = card (dom (pat_find q))"
    unfolding dom using distinct_card [OF keys(1)] by (simp add: pat_size_def)
  ultimately show ?thesis using find wf by (simp add: wf_pat_def)
qed

theorem pat_refines_map_witness:
  "\<exists>q. pat_run [Add 1 0x100, Parse [0, 0, 0xB0, 13, 0, 1, 0xC3, 0, 0, 0, 7, 0xE1, 0, 1, 2, 3, 4], Copy] new_pat = Some q \<and>
     pat_find q 0x100 = Some 1"
proof -
  let ?t = "[0, 0, 0xB0, 13, 0, 1, 0xC3, 0, 0, 0, 7, 0xE1, 0, 1, 2, 3, 4] :: bytes"
  have "be16 0xB0 13 AND 0xFFF = 13" by (simp add: be16_def push_bit_eq_mult)
  then obtain r where "pat_parse ?t (fst (addProgram new_pat 1 0x100)) = Some r"
    using pat_parse_defined_iff [of 1 ?t 13] by fastforce
  then have run: "pat_run [Add 1 0x100, Parse ?t, Copy] new_pat = Some (pat_copy r)" by simp
  have "wf_pat new_pat" by (simp add: wf_pat_def map_sorted_def new_pat_def)
  from pat_refines_map [OF this run]
  have "pat_find (pat_copy r) = map_of (concat (map announced [Add 1 0x100, Parse ?t, Copy])) ++ pat_find new_pat" by blast
  then have "pat_find (pat_copy r) 0x100 = Some 1"
    by (simp add: map_add_def pat_find_def map_find_def new_pat_def)
  then show ?thesis using run by blast
qed

end
