(* ===== verification/Decoder_Output.thy ===== *)
theory Decoder_Output
  imports Decoder Pat_Refinement
begin

text \<open>
  The shape of what the decoder writes, for any packets at all: one group per packet, and in every group at
  most one report, which is well formed.
\<close>

section \<open>Well-formed reports\<close>

definition pids_13 :: "pat \<Rightarrow> bool" where
  "pids_13 t \<longleftrightarrow> (\<forall>pid \<in> dom (pat_find t). pid < 0x2000)"

definition element_ok :: "program_element \<Rightarrow> bool" where
  "element_ok pe \<longleftrightarrow> elementary_PID pe < 0x2000 \<and> distinct_tags (descriptors pe)"

definition pmt_ok :: "pmt \<Rightarrow> bool" where
  "pmt_ok s \<longleftrightarrow> distinct_tags (program_info s) \<and> list_all element_ok (program_elmts s)"

fun report_ok :: "dec_event \<Rightarrow> bool" where
  "report_ok (PAT t) \<longleftrightarrow> wf_pat t \<and> pids_13 t"
| "report_ok NIT \<longleftrightarrow> True"
| "report_ok (PMT s) \<longleftrightarrow> pmt_ok s"
| "report_ok (PES p) \<longleftrightarrow> hasPacketStartCodePrefix p"
| "report_ok _ \<longleftrightarrow> False"

definition reports_ok :: "dec_event list \<Rightarrow> bool" where
  "reports_ok r \<longleftrightarrow> r = [] \<or> (\<exists>x. r = [x] \<and> report_ok x)"

lemma section_entries_pids: "(pid, n) \<in> set (section_entries table cur k) \<Longrightarrow> pid < 0x2000"
proof (induction k arbitrary: cur)
  case (Suc k)
  have "w AND 0x1FFF < 0x2000" for w :: u16
    by (rule le_less_trans [OF word_and_le1]) simp
  then show ?case using Suc by auto
qed simp

lemma pat_parse_ok:
  assumes "pat_parse table p = Some q" "wf_pat p" "pids_13 p"
  shows "wf_pat q \<and> pids_13 q"
proof -
  have q: "pid_to_program q = std_map.ins_all (announced (Parse table)) (pid_to_program p)"
    by (rule pat_apply_map [OF assms(2)]) (simp add: assms(1))
  have wf: "wf_pat q" using std_map.inv_ins_all assms(2) by (simp add: wf_pat_def q del: announced.simps)
  have "pat_find q pid = (case pat_find p pid of Some v \<Rightarrow> Some v | None \<Rightarrow> map_of (announced (Parse table)) pid)" for pid
    using std_map.look_ins_all [of "pid_to_program p" _ pid] assms(2) by (simp add: pat_find_def wf_pat_def q del: announced.simps)
  then have "pids_13 q" using assms(3)
    by (auto simp: pids_13_def Let_def dom_def split: option.splits dest!: map_of_SomeD section_entries_pids)
  with wf show ?thesis by blast
qed

lemma read_elements_ok:
  "read_elements buf cur crcPos pes = Some (cur', pes') \<Longrightarrow> list_all element_ok pes \<Longrightarrow> list_all element_ok pes'"
proof (induction buf cur crcPos pes rule: read_elements.induct)
  case (1 buf cur crcPos pes)
  show ?case
  proof (cases "cur < crcPos")
    case True
    obtain pe c where r: "read_element buf cur = Some (pe, c)" "read_elements buf c crcPos (pes @ [pe]) = Some (cur', pes')"
      using 1(2) True by (subst (asm) read_elements.simps) (auto split: bind_splits)
    have "w AND 0x1FFF < 0x2000" for w :: u16
      by (rule le_less_trans [OF word_and_le1]) simp
    then have "element_ok pe"
      using r(1) by (auto simp: read_element_def Let_def new_program_element_def element_ok_def distinct_tags_iff
          dest!: read_es_descriptors_tags split: bind_splits)
    then show ?thesis using 1(1) [OF True r(1) refl r(2)] 1(3) by simp
  qed (use 1 in \<open>simp add: read_elements.simps [of buf cur crcPos pes]\<close>)
qed

lemma pmt_calcCRC_ok: "pmt_calcCRC s = Some s' \<Longrightarrow> pmt_ok s' = pmt_ok s"
  by (auto simp: pmt_calcCRC_def pmt_ok_def split: bind_splits)

lemma pmt_parse_ok:
  assumes "pmt_parse s = Some (s', ok)" "pmt_ok s"
  shows "pmt_ok s'"
proof -
  consider "s' = s" | h where "s' = s\<lparr>pmt_hdr := h\<rparr>"
    | h c infos elms buf a b d cur cur' where "pmt_calcCRC (s\<lparr>pmt_hdr := h, pmt_CRC_32 := c, program_info := infos, program_elmts := elms\<rparr>) = Some s'"
        "read_distinct buf a b (program_info s) = Some (cur, infos)"
        "read_elements buf cur d (program_elmts s) = Some (cur', elms)"
    using assms(1) by (auto simp: pmt_parse_def Let_def split: bind_splits if_splits prod.splits)
  then show ?thesis
  proof cases
    case 3
    then show ?thesis
      using pmt_calcCRC_ok [OF 3(1)] read_distinct_tags [OF 3(2)] read_elements_ok [OF 3(3)] assms(2)
      by (simp add: pmt_ok_def)
  qed (use assms(2) in \<open>simp_all add: pmt_ok_def\<close>)
qed

lemma parsePTS_prefix: "parsePTS p s off = Some (q, n) \<Longrightarrow> packet_start_code_prefix q = packet_start_code_prefix p"
  by (auto simp: parsePTS_def Let_def split: bind_splits if_splits)

lemma pes_parse_ok: "pes_parse new_pes bs = Some (p, n) \<Longrightarrow> n > 0 \<Longrightarrow> hasPacketStartCodePrefix p"
  by (auto simp: pes_parse_def hasPacketStartCodePrefix_def Let_def dest!: parsePTS_prefix
      split: bind_splits if_splits prod.splits)

section \<open>One packet\<close>

definition state_ok :: "decoder \<Rightarrow> bool" where
  "state_ok d \<longleftrightarrow> wf_pat (dec_pat d) \<and> pids_13 (dec_pat d) \<and> pmt_ok (dec_pmt d)"

lemma pmt_add_ok: "pmt_add bs n s = Some s' \<Longrightarrow> pmt_ok s' = pmt_ok s"
  by (auto simp: pmt_add_def pmt_ok_def split: if_splits bind_splits)

lemma pmt_of_ok: "pmt_of bs n = Some s \<Longrightarrow> pmt_ok s"
  unfolding pmt_of_def using pmt_add_ok by (fastforce simp: pmt_ok_def new_pmt_def)

lemma reports_ok_simps [simp]: "reports_ok []" "reports_ok [x] = report_ok x"
  by (simp_all add: reports_ok_def)

text \<open>What a packet adds to the output.\<close>

definition adds :: "decoder \<Rightarrow> ts_packet \<Rightarrow> dec_event list \<Rightarrow> decoder \<Rightarrow> bool" where
  "adds d p r d' \<longleftrightarrow> dec_out d' = dec_out d @ Header p # r @ [Close_packet] \<and> reports_ok r \<and> state_ok d'"

lemma onPacket_adds:
  assumes step: "onPacket d p = Some d'" and ok: "state_ok d"
  shows "\<exists>r. adds d p r d'"
proof -
  note defs = adds_def emit_def state_ok_def
  have table: "\<exists>r. adds d p r d'"
    if run: "do { s \<leftarrow> so; (t, b) \<leftarrow> pmt_parse s; let d = (emit (Header p) d)\<lparr>dec_pmt := t\<rparr>;
            Some (emit Close_packet (if b then emit (PMT t) d else d)) } = Some d'"
      and so: "\<And>s. so = Some s \<Longrightarrow> pmt_ok s" for so
  proof -
    obtain s t b where t: "pmt_parse s = Some (t, b)" "pmt_ok s"
        "d' = emit Close_packet (if b then emit (PMT t) ((emit (Header p) d)\<lparr>dec_pmt := t\<rparr>) else (emit (Header p) d)\<lparr>dec_pmt := t\<rparr>)"
      using run so by (auto simp: Let_def split: bind_splits)
    then show ?thesis using ok pmt_parse_ok [OF t(1,2)]
      by (intro exI [of _ "if b then [PMT t] else []"]) (simp add: defs)
  qed
  have sel: "dec_pat (emit x d) = dec_pat d" "dec_pmt (emit x d) = dec_pmt d" for x by (simp_all add: emit_def)
  obtain data where data: "getData p = Some data" using step by (auto simp: onPacket_def Let_def split: bind_splits)
  consider (pat) "payloadUnitStart p" "PID p = 0" | (start) n where "payloadUnitStart p" "PID p \<noteq> 0" "pat_find (dec_pat d) (PID p) = Some n"
    | (pes) "payloadUnitStart p" "PID p \<noteq> 0" "pat_find (dec_pat d) (PID p) = None"
    | (more) n where "\<not> payloadUnitStart p" "pat_find (dec_pat d) (PID p) = Some n" "n \<noteq> 0"
    | (other) "\<not> payloadUnitStart p" "pat_find (dec_pat d) (PID p) \<in> {None, Some 0}"
    by (cases "pat_find (dec_pat d) (PID p)") auto
  then show ?thesis
  proof cases
    case pat
    then obtain bs t where t: "pat_parse bs (dec_pat d) = Some t"
        "d' = emit Close_packet (emit (PAT t) ((emit (Header p) d)\<lparr>dec_pat := t\<rparr>))"
      using step data by (auto simp: onPacket_def Let_def sel split: bind_splits)
    then show ?thesis using ok pat_parse_ok [OF t(1)] by (intro exI [of _ "[PAT t]"]) (simp add: defs)
  next
    case start
    show ?thesis
    proof (cases "n = 0")
      case True
      then have "d' = emit Close_packet (emit NIT (emit (Header p) d))"
        using step data start by (simp add: onPacket_def Let_def sel)
      then show ?thesis using ok by (intro exI [of _ "[NIT]"]) (simp add: defs)
    next
      case False
      show ?thesis
      proof (rule table)
        show "do { s \<leftarrow> do { db \<leftarrow> data_byte p; bs \<leftarrow> deref data; pmt_of bs (uint db) };
            (t, b) \<leftarrow> pmt_parse s; let d = (emit (Header p) d)\<lparr>dec_pmt := t\<rparr>;
            Some (emit Close_packet (if b then emit (PMT t) d else d)) } = Some d'"
          using step data start False by (auto simp: onPacket_def Let_def sel split: bind_splits)
      qed (auto dest: pmt_of_ok split: bind_splits)
    qed
  next
    case pes
    then obtain bs q n where q: "pes_parse new_pes bs = Some (q, n)"
        "d' = emit Close_packet (if n > 0 then emit (PES q) (emit (Header p) d) else emit (Header p) d)"
      using step data by (auto simp: onPacket_def Let_def sel split: bind_splits)
    then show ?thesis using ok pes_parse_ok [OF q(1)]
      by (intro exI [of _ "if n > 0 then [PES q] else []"]) (simp add: defs)
  next
    case more
    show ?thesis
    proof (rule table)
      show "do { s \<leftarrow> do { db \<leftarrow> data_byte p; bs \<leftarrow> deref data; pmt_add bs (uint db) (dec_pmt d) };
          (t, b) \<leftarrow> pmt_parse s; let d = (emit (Header p) d)\<lparr>dec_pmt := t\<rparr>;
          Some (emit Close_packet (if b then emit (PMT t) d else d)) } = Some d'"
        using step data more by (auto simp: onPacket_def Let_def sel split: bind_splits)
    qed (use ok in \<open>auto simp: state_ok_def dest: pmt_add_ok split: bind_splits\<close>)
  next
    case other
    then have "d' = emit Close_packet (emit (Header p) d)" using step data by (auto simp: onPacket_def Let_def sel)
    then show ?thesis using ok by (intro exI [of _ "[]"]) (simp add: defs)
  qed
qed

section \<open>Properties\<close>

lemma feed_adds:
  "feed onPacket ps d = Some d' \<Longrightarrow> state_ok d \<Longrightarrow>
   \<exists>rs. length rs = length ps \<and> list_all reports_ok rs \<and> state_ok d' \<and>
     dec_out d' = dec_out d @ concat (map2 (\<lambda>b r. Header (pkt b) # r @ [Close_packet]) ps rs)"
proof (induction ps arbitrary: d)
  case (Cons b ps)
  then obtain d1 where d1: "onPacket d (pkt b) = Some d1" "feed onPacket ps d1 = Some d'"
    by (auto split: bind_splits)
  obtain r where r: "dec_out d1 = dec_out d @ Header (pkt b) # r @ [Close_packet]" "reports_ok r" "state_ok d1"
    using onPacket_adds [OF d1(1) Cons.prems(2)] by (auto simp: adds_def)
  obtain rs where "length rs = length ps" "list_all reports_ok rs" "state_ok d'"
      "dec_out d' = dec_out d1 @ concat (map2 (\<lambda>b r. Header (pkt b) # r @ [Close_packet]) ps rs)"
    using Cons.IH [OF d1(2) r(3)] by blast
  then show ?case using r(1,2) by (intro exI [of _ "r # rs"]) simp
qed simp

text \<open>
  Property C19. Whatever packets arrive, if the decoder gets through them its output has the shape of its
  grammar: the opening line, and for every packet, in order, its header, at most one report, and the closing
  brace. Every report is well formed: the programs of an association table are sorted by PID, without
  repetition, and the PIDs have 13 bits; so have those of the elements of a map table, in which no
  descriptor tag occurs twice in a list; a PES packet begins with the start code.
\<close>

theorem decoder_output_grammar:
  assumes "feed onPacket ps new_decoder = Some d"
  shows "\<exists>rs. length rs = length ps \<and> list_all reports_ok rs \<and>
    dec_out d = Open # concat (map2 (\<lambda>b r. Header (pkt b) # r @ [Close_packet]) ps rs)"
proof -
  have "state_ok new_decoder" "dec_out new_decoder = [Open]"
    by (simp_all add: state_ok_def new_decoder_def wf_pat_def map_sorted_def new_pat_def pids_13_def
        pat_find_def map_find_def pmt_ok_def new_pmt_def dom_def)
  then show ?thesis using feed_adds [OF assms] by auto
qed

theorem decoder_output_grammar_witness:
  "\<exists>d r. feed onPacket [[0x47, 0, 0x64, 0x10] @ replicate 184 0] new_decoder = Some d \<and> reports_ok r \<and>
    dec_out d = [Open, Header (pkt ([0x47, 0, 0x64, 0x10] @ replicate 184 0))] @ r @ [Close_packet]"
proof -
  let ?b = "[0x47, 0, 0x64, 0x10] @ replicate 184 0 :: bytes"
  have p: "wf_packet (pkt ?b)" "\<not> payloadUnitStart (pkt ?b)" by (simp_all add: wf_packet_def payloadUnitStart_def)
  have "pat_find (dec_pat new_decoder) (PID (pkt ?b)) = None"
    by (simp add: new_decoder_def new_pat_def pat_find_def map_find_def)
  then obtain d where d: "feed onPacket [?b] new_decoder = Some d"
    using p(2) getData_wf [OF p(1)] by (simp add: onPacket_def emit_def)
  from decoder_output_grammar [OF d] obtain rs where "length rs = 1" "list_all reports_ok rs"
      "dec_out d = Open # concat (map2 (\<lambda>b r. Header (pkt b) # r @ [Close_packet]) [?b] rs)" by auto
  then show ?thesis using d by (cases rs) auto
qed

end
