(* ===== verification/Extended_Packets.thy ===== *)
theory Extended_Packets
  imports TS_Parser
begin

text \<open>
  Packets of another size than 188 bytes (\<open>setPacketSize\<close>): each transport packet has \<open>g\<close> bytes in front of it,
  as the four bytes of a time code in AVCHD files, and the parser skips them in one step.
\<close>

definition extended :: "nat \<Rightarrow> bytes \<times> bytes \<Rightarrow> bool" where
  "extended g e \<longleftrightarrow> length (fst e) = g \<and> hd (fst e) \<noteq> 0x47 \<and> is_ts (snd e)"

definition wire :: "(bytes \<times> bytes) list \<Rightarrow> bytes" where
  "wire es = concat (map (\<lambda>(x, b). x @ b) es)"

lemma wire_simps [simp]: "wire [] = []" "wire ((x, b) # es) = x @ b @ wire es"
  by (simp_all add: wire_def)

definition sized_parser :: "nat \<Rightarrow> u64 \<Rightarrow> ts_parser" where
  "sized_parser g k = (setPacketSize new_parser (word_of_nat (188 + g)))\<lparr>count := k\<rparr>"

lemma sized_parser_simps [simp]:
  "tspckt (sized_parser g k) = new_packet" "count (sized_parser g k) = k"
  "packetSize (sized_parser g k) = word_of_nat (188 + g)" "buffer (sized_parser g k) = []"
  "(sized_parser g k)\<lparr>buffer := []\<rparr> = sized_parser g k"
  by (simp_all add: sized_parser_def setPacketSize_def new_parser_def)

lemma deliver_sized:
  "length b = 188 \<Longrightarrow> deliver f (sized_parser g k) b c =
     do { c' \<leftarrow> f c (pkt b); Some (sized_parser g (k + 1), c') }"
  by (simp add: deliver_eq) (simp add: sized_parser_def setPacketSize_def new_parser_def)

text \<open>One extended packet, at \<open>k\<close>: a step over the extra bytes, and the packet.\<close>

lemma parse_loop_extended:
  assumes "drop k s = x @ b @ r" "length x = g" "hd x \<noteq> 0x47" "is_ts b" "0 < g" "length s + 188 + g < 2 ^ 32"
    and "st \<Longrightarrow> h = 0 \<or> word_of_nat (k + g) - h = word_of_nat (188 + g)"
  shows "parse_loop f s (word_of_nat (length s)) st (word_of_nat k) h True (sized_parser g cnt) c =
    do { c' \<leftarrow> f c (pkt b);
         parse_loop f s (word_of_nat (length s)) st (word_of_nat (k + g + 188))
           (if st then word_of_nat (k + g) else h) True (sized_parser g (cnt + 1)) c' }"
proof -
  let ?w = "word_of_nat :: nat \<Rightarrow> u32"
  have b: "length b = 188" "hd b = 0x47" using assms(4) by (simp_all add: is_ts_def)
  have "length (drop k s) = g + 188 + length r" using assms(1,2) b(1) by simp
  then have k: "k + g + 188 \<le> length s" using assms(5) by simp
  have split: "drop (k + g) (take (length s) s) = b @ r"
    using arg_cong [OF assms(1), of "drop g"] assms(2) by (simp add: add.commute)
  note at = drop_take_Cons [OF split b(1) order_refl]
  have "drop k s ! 0 = hd x" using assms(1,2,5) by (cases x) auto
  then have first: "rd s k = Some (hd x)" using k assms(5) by (simp add: rd_def)
  have u: "unat (?w k) = k" "unat (?w (k + g)) = k + g"
    using k assms(6) by (intro unat_of_nat_small; simp)+
  have lt: "?w k < ?w (length s)" "?w (k + g) < ?w (length s)" "?w (k + g) + 188 \<le> ?w (length s)"
    using k assms(5,6) by (simp_all add: word_of_nat_less_iff32 word_of_nat_plus_numeral word_of_nat_le_iff32 del: of_nat_add)
  have size: "?w (188 + g) \<noteq> 188"
  proof
    assume "?w (188 + g) = 188"
    then have "unat (?w (188 + g)) = unat (188 :: u32)" by simp
    then show False using assms(5,6) by (simp add: unat_word_ariths take_bit_nat_eq_self)
  qed
  have skip: "parse_loop f s (?w (length s)) st (?w k) h True (sized_parser g cnt) c =
      parse_loop f s (?w (length s)) st (?w (k + g)) h True (sized_parser g cnt) c"
    using size lt(1) u(1) first assms(3) by (subst parse_loop_skip [where b = "hd x"]) simp_all
  have "parse_loop f s (?w (length s)) st (?w (k + g)) h True (sized_parser g cnt) c =
      do { (p', c') \<leftarrow> deliver f (sized_parser g cnt) b c;
           parse_loop f s (?w (length s)) st (?w (k + g) + 188) (if st then ?w (k + g) else h) True p' c' }"
    using lt(2,3) u(2) at(2,3) b k assms(7)
    by (subst parse_loop_packet [where bs = b]) (auto simp: rd_def)
  then show ?thesis unfolding skip by (simp add: deliver_sized b(1) word_of_nat_plus_numeral add.assoc del: of_nat_add)
qed

lemma parse_loop_extended_all:
  assumes "list_all (extended g) es" "drop k s = wire es" "0 < g" "length s + 188 + g < 2 ^ 32" "k \<le> length s"
    and "st \<Longrightarrow> h = 0 \<or> word_of_nat (k + g) - h = word_of_nat (188 + g)"
  shows "parse_loop f s (word_of_nat (length s)) st (word_of_nat k) h True (sized_parser g cnt) c =
    do { c' \<leftarrow> feed f (map snd es) c;
         Some (word_of_nat (length s), if st \<and> es \<noteq> [] then word_of_nat (length s - 188) else h, True,
           sized_parser g (cnt + word_of_nat (length es)), c') }"
  using assms
proof (induction es arbitrary: k h cnt c)
  case Nil
  then have "k = length s" by simp
  then show ?case by (simp add: parse_loop_done)
next
  case (Cons e es)
  obtain x b where e: "e = (x, b)" by (cases e)
  have x: "length x = g" "hd x \<noteq> 0x47" "is_ts b" "length b = 188"
    using Cons.prems(1) by (simp_all add: e extended_def is_ts_def)
  have split: "drop k s = x @ b @ wire es" using Cons.prems(2) by (simp add: e)
  have rest: "drop (k + g + 188) s = wire es"
    using arg_cong [OF split, of "drop (g + 188)"] x by (simp add: ac_simps)
  have "length (drop k s) = g + 188 + length (wire es)" using split x by simp
  then have k: "k + g + 188 \<le> length s" using Cons.prems(3) by simp
  have h: "word_of_nat (k + g + 188 + g) - (word_of_nat (k + g) :: u32) = word_of_nat (188 + g)" by simp
  have last: "es = [] \<Longrightarrow> k + g = length s - 188" using rest k by simp
  have "parse_loop f s (word_of_nat (length s)) st (word_of_nat k) h True (sized_parser g cnt) c =
    do { c' \<leftarrow> f c (pkt b);
         parse_loop f s (word_of_nat (length s)) st (word_of_nat (k + g + 188))
           (if st then word_of_nat (k + g) else h) True (sized_parser g (cnt + 1)) c' }"
    by (rule parse_loop_extended [OF split x(1-3) Cons.prems(3,4,6)])
  moreover have IH: "parse_loop f s (word_of_nat (length s)) st (word_of_nat (k + g + 188))
      (if st then word_of_nat (k + g) else h) True (sized_parser g (cnt + 1)) c' =
    do { c'' \<leftarrow> feed f (map snd es) c';
      Some (word_of_nat (length s), if st \<and> es \<noteq> [] then word_of_nat (length s - 188)
          else if st then word_of_nat (k + g) else h, True,
        sized_parser g (cnt + 1 + word_of_nat (length es)), c'') }" for c'
    using Cons.prems(1) h by (intro Cons.IH [OF _ rest Cons.prems(3,4) k]) simp_all
  ultimately show ?case using last by (cases "es = []") (simp_all only: IH, simp_all add: e add.assoc)
qed

section \<open>Properties\<close>

text \<open>
  Property C32. With \<open>setPacketSize\<close> the parser delivers every transport packet of a chunk of extended packets,
  in order, if the first extra byte of each is not the sync byte. But strict mode, the only one of the
  command, refuses every such chunk: behind the last packet it compares the 188 bytes it has gone on
  with the packet size.
\<close>

theorem extended_packets_delivered:
  assumes "list_all (extended g) es" and "0 < g" "length (wire es) + 188 + g < 2 ^ 32"
  shows "parse f (wire es) (word_of_nat (length (wire es))) strict
      (setPacketSize new_parser (word_of_nat (188 + g))) c =
    do { c' \<leftarrow> feed f (map snd es) c; Some (\<not> strict, sized_parser g (word_of_nat (length es)), c') }"
proof -
  let ?n = "length (wire es)"
  let ?h = "if strict \<and> es \<noteq> [] then word_of_nat (?n - 188) else 0 :: u32"
  have p: "setPacketSize new_parser (word_of_nat (188 + g)) = sized_parser g 0"
    by (simp add: sized_parser_def setPacketSize_def new_parser_def)
  have loop: "parse_loop f (wire es) (word_of_nat ?n) strict 0 0 True (sized_parser g 0) c =
    do { c' \<leftarrow> feed f (map snd es) c;
         Some (word_of_nat ?n, ?h, True, sized_parser g (word_of_nat (length es)), c') }"
    using parse_loop_extended_all [OF assms(1) _ assms(2,3), of 0 strict 0 f 0 c] by simp
  have gap: "word_of_nat ?n - ?h \<noteq> (word_of_nat (188 + g) :: u32)" if strict
  proof
    assume eq: "word_of_nat ?n - ?h = (word_of_nat (188 + g) :: u32)"
    obtain m where m: "word_of_nat ?n - ?h = word_of_nat m" "m \<in> {0, 188}"
    proof (cases es)
      case Nil
      then show ?thesis using that [of 0] by simp
    next
      case (Cons e es')
      obtain x b where "e = (x, b)" by (cases e)
      then have "188 \<le> ?n" using assms(1) Cons by (simp add: extended_def is_ts_def)
      then show ?thesis using that [of 188] Cons \<open>strict\<close> by (simp add: of_nat_diff)
    qed
    have "unat (word_of_nat m :: u32) = unat (word_of_nat (188 + g) :: u32)" using eq m(1) by simp
    moreover have "unat (word_of_nat (188 + g) :: u32) = 188 + g" "unat (word_of_nat m :: u32) = m"
      using m(2) assms(3) by (intro unat_of_nat_small; fastforce)+
    ultimately show False using m(2) assms(2) by simp
  qed
  show ?thesis unfolding p using loop gap by (cases strict) (simp_all add: parse_def)
qed

theorem extended_packets_delivered_witness:
  "parse onPacket_collect (wire (replicate 3 ([0, 1, 2, 3], 0x47 # replicate 187 0))) 576 True
     (setPacketSize new_parser 192) [] =
   Some (False, sized_parser 4 3, map pkt (replicate 3 (0x47 # replicate 187 0)))"
  using extended_packets_delivered [of 4 "replicate 3 ([0, 1, 2, 3], 0x47 # replicate 187 0)" onPacket_collect True "[]"]
  by (simp add: extended_def is_ts_def wire_def onPacket_collect_def numeral_3_eq_3)

end
