(* ===== verification/Network_Information.thy ===== *)
theory Network_Information
  imports Psi_Descriptors
begin

text \<open>
  \<open>lcss::NetworkInformationTable\<close> (\<open>tsnit.cpp\<close>).  \<open>nit_hdr\<close> is the vector \<open>nit_\<close> of the fixed fields in
  the order they were read.  Offsets are natural numbers, below 255 + 3 * 1023 + 1024, so that the
  \<open>uint16_t\<close> of the code does not wrap.
\<close>

record nit_stream =
  transport_stream_id :: u16
  original_network_id :: u16
  transport_descriptors :: "descriptor list"

record nit =
  nit_hdr :: bytes
  nit_CRC_32 :: u32
  network_descriptors :: "descriptor list"
  nit_streams :: "nit_stream list"

definition new_nit :: nit where
  "new_nit = \<lparr>nit_hdr = [], nit_CRC_32 = 0, network_descriptors = [], nit_streams = []\<rparr>"

definition nit_copy :: "nit \<Rightarrow> nit" where
  "nit_copy other = \<lparr>nit_hdr = nit_hdr other, nit_CRC_32 = nit_CRC_32 other,
     network_descriptors = network_descriptors other, nit_streams = nit_streams other\<rparr>"

section \<open>Accessors\<close>

definition nit8 :: "nit \<Rightarrow> nat \<Rightarrow> u8 option" where
  "nit8 s k = do { p \<leftarrow> rd (nit_hdr s) 0; rd (nit_hdr s) ((if p = 0 then 0 else unat p) + k) }"

definition nit_pointer_field :: "nit \<Rightarrow> u8 option" where
  "nit_pointer_field s = rd (nit_hdr s) 0"

definition nit_table_id :: "nit \<Rightarrow> u8 option" where
  "nit_table_id s = do {
     p \<leftarrow> rd (nit_hdr s) 0;
     let cur = (if p = 0 then 1 else unat p);
     if cur > length (nit_hdr s) - 1 then Some 0xFF else rd (nit_hdr s) cur }"

definition network_id :: "nit \<Rightarrow> u16 option" where
  "network_id s = do {
     p \<leftarrow> rd (nit_hdr s) 0;
     v \<leftarrow> rd16 (nit_hdr s) ((if p = 0 then 0 else unat p) + 4);
     Some (ntohs v) }"

definition nit_version_number :: "nit \<Rightarrow> u8 option" where
  "nit_version_number s = do { b \<leftarrow> nit8 s 6; Some (drop_bit 1 (b AND 0x3E)) }"

definition nit_current_next_indicator :: "nit \<Rightarrow> bool option" where
  "nit_current_next_indicator s = do { b \<leftarrow> nit8 s 6; Some (b AND 0x01 = 0x01) }"

definition nit_section_number :: "nit \<Rightarrow> u8 option" where
  "nit_section_number s = nit8 s 7"

definition nit_last_section_number :: "nit \<Rightarrow> u8 option" where
  "nit_last_section_number s = nit8 s 8"

section \<open>Parsing\<close>

text \<open>The descriptors of a transport stream; here repeated tags are kept.\<close>

function read_all :: "bytes \<Rightarrow> nat \<Rightarrow> nat \<Rightarrow> descriptor list \<Rightarrow> (nat \<times> descriptor list) option" where
  "read_all table cur tsEnd ds =
     (if cur < tsEnd then do {
        (d, cur') \<leftarrow> read_descriptor table cur;
        read_all table cur' tsEnd (ds @ [d])
      } else Some (cur, ds))"
  by pat_completeness auto
termination
  by (relation "measure (\<lambda>(table, cur, tsEnd, ds). tsEnd - cur)") (auto dest: read_descriptor_advances)

declare read_all.simps [simp del]

lemma read_all_advances: "read_all table cur tsEnd ds = Some (cur', ds') \<Longrightarrow> cur \<le> cur'"
proof (induction table cur tsEnd ds rule: read_all.induct)
  case (1 table cur tsEnd ds)
  show ?case
  proof (cases "cur < tsEnd")
    case True
    then obtain d c where "read_descriptor table cur = Some (d, c)" "read_all table c tsEnd (ds @ [d]) = Some (cur', ds')"
      using 1(2) by (subst (asm) read_all.simps) (auto split: bind_splits)
    then show ?thesis using 1(1) [OF True _ refl] read_descriptor_advances [of table cur d c] by fastforce
  qed (use 1 in \<open>simp add: read_all.simps [of table cur tsEnd ds]\<close>)
qed

definition read_stream :: "bytes \<Rightarrow> nat \<Rightarrow> (nit_stream \<times> nat) option" where
  "read_stream table cur = do {
     v \<leftarrow> rd16 table cur;
     let tsid = ntohs v;
     v \<leftarrow> rd16 table (cur + 2);
     let onid = ntohs v;
     v \<leftarrow> rd16 table (cur + 4);
     let transport_descriptors_length = ntohs v AND 0x03FF;
     let cur = cur + 6;
     (cur, ds) \<leftarrow> read_all table cur (unat transport_descriptors_length + cur) [];
     Some (\<lparr>transport_stream_id = tsid, original_network_id = onid, transport_descriptors = ds\<rparr>, cur) }"

lemma read_stream_advances: "read_stream table cur = Some (st, cur') \<Longrightarrow> cur + 6 \<le> cur'"
  by (auto simp: read_stream_def Let_def dest: read_all_advances split: bind_splits)

function read_streams :: "bytes \<Rightarrow> nat \<Rightarrow> nat \<Rightarrow> nit_stream list \<Rightarrow> (nat \<times> nit_stream list) option" where
  "read_streams table cur stop sts =
     (if cur < stop then do {
        (st, cur') \<leftarrow> read_stream table cur;
        read_streams table cur' stop (sts @ [st])
      } else Some (cur, sts))"
  by pat_completeness auto
termination
  by (relation "measure (\<lambda>(table, cur, stop, sts). stop - cur)") (auto dest: read_stream_advances)

declare read_streams.simps [simp del]

text \<open>The argument is \<^const>\<open>None\<close> for a null pointer.\<close>

definition nit_parse :: "bytes option \<Rightarrow> nit \<Rightarrow> (nit \<times> bool) option" where
  "nit_parse arg s =
     (case arg of None \<Rightarrow> Some (s, False)
      | Some table \<Rightarrow> do {
       b0 \<leftarrow> rd table 0;
       let h = nit_hdr s @ [b0];
       let offset = (if h ! 0 = 0 then 1 else unat (h ! 0));
       stuffing \<leftarrow> rd_n table 1 (unat (h ! 0) - 1);
       let h = h @ stuffing;
       id \<leftarrow> rd table offset;
       if id \<noteq> 0x40 then Some (s\<lparr>nit_hdr := h\<rparr>, False) else do {
         let cur = offset + 1;
         v \<leftarrow> rd16 table cur;
         let section_length = ntohs v AND 0x03FF;
         sl \<leftarrow> rd_n table cur 2;
         let cur = cur + 2;
         let crcPos = cur + unat section_length - 4;
         crc \<leftarrow> rd32 table crcPos;
         ids \<leftarrow> rd_n table cur 5;
         let cur = cur + 5;
         v \<leftarrow> rd16 table cur;
         let network_descriptors_length = ntohs v AND 0x03FF;
         ndl \<leftarrow> rd_n table cur 2;
         let cur = cur + 2;
         (cur, nds) \<leftarrow> read_distinct table cur (unat network_descriptors_length + cur) (network_descriptors s);
         v \<leftarrow> rd16 table cur;
         let transport_stream_loop_length = ntohs v AND 0x03FF;
         tsl \<leftarrow> rd_n table cur 2;
         let cur = cur + 2;
         (cur, sts) \<leftarrow> read_streams table cur (unat transport_stream_loop_length + cur) (nit_streams s);
         Some (\<lparr>nit_hdr = h @ [id] @ sl @ ids @ ndl @ tsl, nit_CRC_32 = ntohl crc,
           network_descriptors = nds, nit_streams = sts\<rparr>, True)
       }
     })"


section \<open>The section of the standard\<close>

definition wf_stream :: "nit_stream \<Rightarrow> bool" where
  "wf_stream st \<longleftrightarrow> list_all wf_descriptor (transport_descriptors st) \<and> length (dbytes (transport_descriptors st)) < 1024"

definition sbytes :: "nit_stream list \<Rightarrow> bytes" where
  "sbytes sts = concat (map (\<lambda>st. let len = word_of_nat (length (dbytes (transport_descriptors st))) :: u16 in
     [hi8 (transport_stream_id st), lo8 (transport_stream_id st), hi8 (original_network_id st),
      lo8 (original_network_id st), hi8 len OR 0xF0, lo8 len] @ dbytes (transport_descriptors st)) sts)"

text \<open>A length behind four reserved bits.\<close>

definition len_field :: "nat \<Rightarrow> bytes" where
  "len_field n = [hi8 (word_of_nat n) OR 0xF0, lo8 (word_of_nat n)]"

definition nit_fixed :: "nat \<Rightarrow> bytes \<Rightarrow> nat \<Rightarrow> bytes" where
  "nit_fixed len ids ndl = [0, 0x40] @ len_field len @ ids @ len_field ndl"

definition nit_len :: "descriptor list \<Rightarrow> nit_stream list \<Rightarrow> nat" where
  "nit_len nds sts = 13 + length (dbytes nds) + length (sbytes sts)"

definition nit_section :: "bytes \<Rightarrow> descriptor list \<Rightarrow> nit_stream list \<Rightarrow> u32 \<Rightarrow> bytes" where
  "nit_section ids nds sts c =
     nit_fixed (nit_len nds sts) ids (length (dbytes nds)) @ dbytes nds @ len_field (length (sbytes sts)) @
     sbytes sts @ bytes_be32 c"

lemma sbytes_Nil [simp]: "sbytes [] = []"
  by (simp add: sbytes_def)

lemma sbytes_Cons: "sbytes (st # sts) = sbytes [st] @ sbytes sts"
  by (simp add: sbytes_def)

lemma length_sbytes_one: "length (sbytes [st]) = 6 + length (dbytes (transport_descriptors st))"
  by (simp add: sbytes_def Let_def)

lemma read_all_wf:
  "list_all wf_descriptor ds \<Longrightarrow>
   read_all (pre @ dbytes ds @ post) (length pre) (length pre + length (dbytes ds)) acc =
     Some (length pre + length (dbytes ds), acc @ ds)"
proof (induction ds arbitrary: pre acc)
  case Nil
  then show ?case by (subst read_all.simps) simp
next
  case (Cons d ds)
  have r: "read_descriptor (pre @ dbytes (d # ds) @ post) (length pre) = Some (d, length pre + length (dbytes [d]))"
    using read_descriptor_wf [of d pre "dbytes ds @ post"] Cons.prems by simp
  show ?case
    using r Cons.IH [of "pre @ dbytes [d]" "acc @ [d]"] Cons.prems
    by (subst read_all.simps) (simp add: add.assoc)
qed

lemma read_len_field:
  assumes "n < 1024"
  shows "rd16 (pre @ len_field n @ post) (length pre) = Some (le16 (hi8 (word_of_nat n) OR 0xF0) (lo8 (word_of_nat n)))"
    and "rd_n (pre @ len_field n @ post) (length pre) 2 = Some (len_field n)"
    and "unat (be16 (hi8 (word_of_nat n) OR 0xF0) (lo8 (word_of_nat n)) AND 0x3FF) = n"
proof -
  have "(word_of_nat n :: u16) < 0x400" "unat (word_of_nat n :: u16) = n"
    using assms by (simp_all add: word_less_nat_alt)
  then show "unat (be16 (hi8 (word_of_nat n) OR 0xF0) (lo8 (word_of_nat n)) AND 0x3FF) = n"
    using length_fields(2) [of "word_of_nat n"] by simp
qed (simp_all add: len_field_def rd16_def rd_append rd_n_def)

lemma read_stream_wf:
  assumes "wf_stream st"
  shows "read_stream (pre @ sbytes [st] @ post) (length pre) = Some (st, length pre + length (sbytes [st]))"
proof -
  let ?ds = "transport_descriptors st" and ?n = "length (dbytes (transport_descriptors st))"
  define h where "h = [hi8 (transport_stream_id st), lo8 (transport_stream_id st), hi8 (original_network_id st),
      lo8 (original_network_id st)]"
  have wf: "list_all wf_descriptor ?ds" "?n < 1024" using assms by (simp_all add: wf_stream_def)
  have raw: "pre @ sbytes [st] @ post = (pre @ h) @ len_field ?n @ dbytes ?ds @ post"
    by (simp add: sbytes_def h_def Let_def len_field_def)
  have l: "length (pre @ h) = length pre + 4" by (simp add: h_def)
  note len = read_len_field(1) [OF wf(2), of "pre @ h", unfolded l]
  have "length ((pre @ h) @ len_field ?n) = length pre + 6" by (simp add: h_def len_field_def)
  then have ds: "read_all ((pre @ h) @ len_field ?n @ dbytes ?ds @ post) (length pre + 6) (?n + (length pre + 6)) [] =
      Some (length pre + 6 + ?n, ?ds)"
    using read_all_wf [OF wf(1), of "(pre @ h) @ len_field ?n" post "[]"] by (simp add: add.commute)
  have ids: "rd16 ((pre @ h) @ len_field ?n @ dbytes ?ds @ post) (length pre) =
        Some (le16 (hi8 (transport_stream_id st)) (lo8 (transport_stream_id st)))"
      "rd16 ((pre @ h) @ len_field ?n @ dbytes ?ds @ post) (length pre + 2) =
        Some (le16 (hi8 (original_network_id st)) (lo8 (original_network_id st)))"
    by (simp_all add: h_def rd16_def rd_append)
  show ?thesis
    unfolding raw read_stream_def length_sbytes_one
    using ids len [of "dbytes ?ds @ post"] ds by (simp add: endian_simps read_len_field(3) [OF wf(2)])
qed

lemma read_streams_wf:
  "list_all wf_stream sts \<Longrightarrow>
   read_streams (pre @ sbytes sts @ post) (length pre) (length pre + length (sbytes sts)) acc =
     Some (length pre + length (sbytes sts), acc @ sts)"
proof (induction sts arbitrary: pre acc)
  case Nil
  then show ?case by (subst read_streams.simps) simp
next
  case (Cons st sts)
  have r: "read_stream (pre @ sbytes (st # sts) @ post) (length pre) = Some (st, length pre + length (sbytes [st]))"
    using read_stream_wf [of st pre "sbytes sts @ post"] Cons.prems by (simp add: sbytes_Cons [of st sts])
  have "length (sbytes (st # sts)) > 0" by (simp add: sbytes_Cons [of st sts] length_sbytes_one)
  then show ?case
    using r Cons.IH [of "pre @ sbytes [st]" "acc @ [st]"] Cons.prems
    by (subst read_streams.simps) (simp add: sbytes_Cons [of st sts] add.assoc)
qed


lemma length_len_field [simp]: "length (len_field n) = 2"
  by (simp add: len_field_def)

lemma read_len_field_at:
  assumes "n < 1024" and "buf = pre @ len_field n @ post" and "length pre = k"
  shows "rd16 buf k = Some (le16 (hi8 (word_of_nat n) OR 0xF0) (lo8 (word_of_nat n)))"
    and "rd_n buf k 2 = Some (len_field n)"
  using read_len_field(1,2) [OF assms(1), of pre post] assms(2,3) by simp_all

lemma length_nit_section:
  "length ids = 5 \<Longrightarrow> length (nit_section ids nds sts c) = nit_len nds sts + 4"
  by (simp add: nit_section_def nit_fixed_def nit_len_def)

text \<open>What \<open>parse\<close> adds to a table that is empty or was filled from a section without pointer field.\<close>

lemma nit_parse_adds:
  assumes "length ids = 5" and "list_all wf_descriptor nds" "list_all wf_stream sts" "nit_len nds sts < 1024"
    and "nit_hdr s = [] \<or> nit_hdr s ! 0 = 0"
  shows "nit_parse (Some (nit_section ids nds sts c @ rest)) s =
    Some (\<lparr>nit_hdr = nit_hdr s @ nit_fixed (nit_len nds sts) ids (length (dbytes nds)) @ len_field (length (sbytes sts)),
      nit_CRC_32 = c, network_descriptors = foldl add_distinct (network_descriptors s) nds,
      nit_streams = nit_streams s @ sts\<rparr>, True)"
proof -
  define len ndl tsl where "len = nit_len nds sts" and "ndl = length (dbytes nds)" and "tsl = length (sbytes sts)"
  define tail where "tail = sbytes sts @ bytes_be32 c @ rest"
  define buf where "buf = nit_section ids nds sts c @ rest"
  have lt: "len < 1024" "ndl < 1024" "tsl < 1024" and len: "len = 13 + ndl + tsl"
    using assms(4) by (simp_all add: len_def ndl_def tsl_def nit_len_def)
  have buf: "buf = [0, 0x40] @ len_field len @ ids @ len_field ndl @ dbytes nds @ len_field tsl @ tail"
    by (simp add: buf_def nit_section_def nit_fixed_def len_def ndl_def tsl_def tail_def)
  have buf2: "buf = ([0, 0x40] @ len_field len @ ids) @ len_field ndl @ dbytes nds @ len_field tsl @ tail"
      "buf = ([0, 0x40] @ len_field len @ ids @ len_field ndl @ dbytes nds) @ len_field tsl @ tail"
      "buf = ([0, 0x40] @ len_field len) @ ids @ len_field ndl @ dbytes nds @ len_field tsl @ tail"
      "buf = ([0, 0x40] @ len_field len @ ids @ len_field ndl) @ dbytes nds @ len_field tsl @ tail"
      "buf = ([0, 0x40] @ len_field len @ ids @ len_field ndl @ dbytes nds @ len_field tsl) @ sbytes sts @ bytes_be32 c @ rest"
      "buf = ([0, 0x40] @ len_field len @ ids @ len_field ndl @ dbytes nds @ len_field tsl @ sbytes sts) @ bytes_be32 c @ rest"
    by (simp_all add: buf tail_def)
  have r0: "rd buf 0 = Some 0" "rd buf 1 = Some 0x40" "rd_n buf 1 0 = Some []" by (simp_all add: buf)
  have rl: "rd16 buf 2 = Some (le16 (hi8 (word_of_nat len) OR 0xF0) (lo8 (word_of_nat len)))"
      "rd_n buf 2 2 = Some (len_field len)"
    by (rule read_len_field_at [OF lt(1) buf]; simp)+
  have rids: "rd_n buf 4 5 = Some ids"
    unfolding buf2(3) by (rule rd_n_at) (simp_all add: assms(1))
  have rn: "rd16 buf 9 = Some (le16 (hi8 (word_of_nat ndl) OR 0xF0) (lo8 (word_of_nat ndl)))"
      "rd_n buf 9 2 = Some (len_field ndl)"
    by (rule read_len_field_at [OF lt(2) buf2(1)]; simp add: assms(1))+
  have rnds: "read_distinct buf 11 (ndl + 11) (network_descriptors s) =
      Some (11 + ndl, foldl add_distinct (network_descriptors s) nds)"
    using read_distinct_wf [OF assms(2), of "[0, 0x40] @ len_field len @ ids @ len_field ndl" "len_field tsl @ tail"]
      assms(1) by (simp add: buf ndl_def add.commute)
  have rt: "rd16 buf (11 + ndl) = Some (le16 (hi8 (word_of_nat tsl) OR 0xF0) (lo8 (word_of_nat tsl)))"
      "rd_n buf (11 + ndl) 2 = Some (len_field tsl)"
    by (rule read_len_field_at [OF lt(3) buf2(2)]; simp add: assms(1) ndl_def)+
  have rs: "read_streams buf (13 + ndl) (tsl + (13 + ndl)) (nit_streams s) = Some (13 + ndl + tsl, nit_streams s @ sts)"
    using read_streams_wf [OF assms(3), of "[0, 0x40] @ len_field len @ ids @ len_field ndl @ dbytes nds @ len_field tsl"
      "bytes_be32 c @ rest"] assms(1) by (simp add: buf tail_def ndl_def tsl_def add.commute add.left_commute)
  have rc: "rd32 buf len = Some (ntohl c)"
    unfolding buf2(6) by (rule rd32_bytes_be32) (simp add: assms(1) len ndl_def tsl_def)
  have h: "(nit_hdr s @ [0]) ! 0 = 0" using assms(5) by (cases "nit_hdr s") auto
  show ?thesis
    unfolding buf_def [symmetric] using r0 rl rids rn rnds rt rs rc h
    by (simp add: nit_parse_def Let_def endian_simps read_len_field(3) [OF lt(1)] read_len_field(3) [OF lt(2)]
        read_len_field(3) [OF lt(3)] add_ac del: One_nat_def add_2_eq_Suc add_2_eq_Suc')
       (simp add: nit_fixed_def len_def ndl_def tsl_def)
qed


lemma nit_accessors:
  assumes "nit_hdr s = nit_fixed len [i0, i1, v, sn, lsn] ndl @ extra"
  shows "nit_pointer_field s = Some 0 \<and> nit_table_id s = Some 0x40 \<and> network_id s = Some (be16 i0 i1) \<and>
    nit_version_number s = Some (drop_bit 1 v AND 0x1F) \<and> nit_current_next_indicator s = Some (bit v 0) \<and>
    nit_section_number s = Some sn \<and> nit_last_section_number s = Some lsn"
proof -
  have "drop_bit 1 (v AND 0x3E) = drop_bit 1 v AND 0x1F"
    by (rule bit_word_eqI) (auto simp: bit_simps word_bits)
  moreover have "(v AND 1 = 1) = bit v 0" by (simp add: and_one_eq odd_iff_mod_2_eq_one bit_0)
  ultimately show ?thesis
    by (simp add: nit_pointer_field_def nit_table_id_def network_id_def nit_version_number_def nit8_def
        nit_current_next_indicator_def nit_section_number_def nit_last_section_number_def assms nit_fixed_def
        len_field_def rd16_def endian_simps)
qed

section \<open>Properties\<close>

text \<open>
  Property C21. What a new table holds of a section of ETSI EN 300 468 below 1024 bytes without pointer field, with any bytes
  behind it. Every transport stream is there with all its descriptors in order, and so are the CRC field and the
  fixed fields, which the accessors return. Of the network descriptors only the first of each tag is kept: the others
  are dropped, although the standard allows repeated tags.
\<close>

theorem nit_parse_section:
  assumes "list_all wf_descriptor nds" "list_all wf_stream sts" "nit_len nds sts < 1024"
  shows "\<exists>s. nit_parse (Some (nit_section [i0, i1, v, sn, lsn] nds sts c @ rest)) new_nit = Some (s, True) \<and>
    nit_streams s = sts \<and> network_descriptors s = dedup nds \<and> nit_CRC_32 s = c \<and>
    nit_table_id s = Some 0x40 \<and> network_id s = Some (be16 i0 i1) \<and>
    nit_version_number s = Some (drop_bit 1 v AND 0x1F) \<and> nit_current_next_indicator s = Some (bit v 0) \<and>
    nit_section_number s = Some sn \<and> nit_last_section_number s = Some lsn"
proof -
  let ?s = "\<lparr>nit_hdr = nit_fixed (nit_len nds sts) [i0, i1, v, sn, lsn] (length (dbytes nds)) @ len_field (length (sbytes sts)),
      nit_CRC_32 = c, network_descriptors = dedup nds, nit_streams = sts\<rparr>"
  have "nit_parse (Some (nit_section [i0, i1, v, sn, lsn] nds sts c @ rest)) new_nit = Some (?s, True)"
    by (subst nit_parse_adds [OF _ assms]) (simp_all add: new_nit_def dedup_def)
  moreover have "nit_hdr ?s = nit_fixed (nit_len nds sts) [i0, i1, v, sn, lsn] (length (dbytes nds)) @ len_field (length (sbytes sts))"
    by simp
  note nit_accessors [OF this]
  ultimately show ?thesis by (intro exI [of _ ?s]) simp
qed

theorem nit_parse_section_witness:
  "\<exists>s. nit_parse (Some (nit_section [0x30, 0x01, 0xC3, 0, 0] [\<lparr>dtag = 0x40, dvalue = [65, 66]\<rparr>]
      [\<lparr>transport_stream_id = 7, original_network_id = 8, transport_descriptors = [\<lparr>dtag = 0x41, dvalue = [0, 1, 1]\<rparr>]\<rparr>] 5 @ [0xFF]))
      new_nit = Some (s, True) \<and> map transport_stream_id (nit_streams s) = [7] \<and> network_id s = Some (be16 0x30 1)"
  using nit_parse_section [of "[\<lparr>dtag = 0x40, dvalue = [65, 66]\<rparr>]"
      "[\<lparr>transport_stream_id = 7, original_network_id = 8, transport_descriptors = [\<lparr>dtag = 0x41, dvalue = [0, 1, 1]\<rparr>]\<rparr>]"
      "0x30" 1 "0xC3" 0 0 5 "[0xFF]"]
  by (auto simp: wf_descriptor_def wf_stream_def nit_len_def sbytes_def)

text \<open>
  Parsing a second section into the same table does not replace the first: the streams of
  both are in the list, network descriptors of the new section are dropped where the old one had their
  tag, and the accessors go on to return the fixed fields of the first section.  Only the CRC is new.
\<close>

lemma nit_reparse_accumulates:
  assumes "list_all wf_descriptor nds" "list_all wf_stream sts" "nit_len nds sts < 1024"
    and "list_all wf_descriptor nds'" "list_all wf_stream sts'" "nit_len nds' sts' < 1024" and "length ids' = 5"
    and "nit_parse (Some (nit_section [i0, i1, v, sn, lsn] nds sts c @ rest)) new_nit = Some (s, True)"
  shows "\<exists>s'. nit_parse (Some (nit_section ids' nds' sts' c' @ rest')) s = Some (s', True) \<and>
    nit_streams s' = sts @ sts' \<and> network_descriptors s' = dedup (nds @ nds') \<and> nit_CRC_32 s' = c' \<and>
    network_id s' = Some (be16 i0 i1) \<and> nit_version_number s' = Some (drop_bit 1 v AND 0x1F)"
proof -
  let ?h = "nit_fixed (nit_len nds sts) [i0, i1, v, sn, lsn] (length (dbytes nds)) @ len_field (length (sbytes sts))"
  have s: "s = \<lparr>nit_hdr = ?h, nit_CRC_32 = c, network_descriptors = dedup nds, nit_streams = sts\<rparr>"
    using assms(8) by (subst (asm) nit_parse_adds [OF _ assms(1-3)]) (simp_all add: new_nit_def dedup_def)
  let ?m = "len_field (length (sbytes sts)) @ nit_fixed (nit_len nds' sts') ids' (length (dbytes nds')) @ len_field (length (sbytes sts'))"
  let ?s' = "\<lparr>nit_hdr = nit_fixed (nit_len nds sts) [i0, i1, v, sn, lsn] (length (dbytes nds)) @ ?m,
      nit_CRC_32 = c', network_descriptors = dedup (nds @ nds'), nit_streams = sts @ sts'\<rparr>"
  have "nit_hdr s ! 0 = 0" by (simp add: s nit_fixed_def)
  then have "nit_parse (Some (nit_section ids' nds' sts' c' @ rest')) s = Some (?s', True)"
    by (subst nit_parse_adds [OF assms(7,4-6)]) (simp_all add: s dedup_def)
  moreover have "nit_hdr ?s' = nit_fixed (nit_len nds sts) [i0, i1, v, sn, lsn] (length (dbytes nds)) @ ?m" by simp
  note nit_accessors [OF this]
  ultimately show ?thesis by (intro exI [of _ ?s']) simp
qed

end
