(* ===== verification/Metadata_AU.thy ===== *)
theory Metadata_AU
  imports Mp2tp_Prelude
begin

text \<open>
  Metadata access units (\<open>tsmetadata.cpp\<close>).  A \<open>MetadataAUCell\<close> is its byte string \<open>sodb_\<close>; a
  \<open>MetadataAUWrapper\<close> is the list of its cells.  The loop of the wrapper need not end, so it is a
  \<open>partial_function (option)\<close>: \<^const>\<open>None\<close> is a run that does not return, or one that reads past the
  bytes it was given.
\<close>

type_synonym au_cell = bytes

section \<open>Cells\<close>

text \<open>The length is a \<open>short\<close>: its conversion to \<open>size_t\<close> extends the sign.\<close>

definition cell_parse :: "bytes \<Rightarrow> u64 \<Rightarrow> au_cell \<Rightarrow> (au_cell \<times> u64) option" where
  "cell_parse sodb len c =
     (if len > 5 then do {
        v \<leftarrow> rd16 sodb 3;
        let nRet = (scast (ntohs v) + 5 :: u64);
        if nRet \<le> len then do { bs \<leftarrow> rd_n sodb 0 (unat nRet); Some (c @ bs, nRet) }
        else Some (c, 0)
      } else Some (c, 0))"

definition cell_copy :: "au_cell \<Rightarrow> au_cell" where
  "cell_copy cp = [] @ cp"

text \<open>\<open>swap\<close> takes the bytes of its argument, which keeps them.\<close>

definition cell_swap :: "au_cell \<Rightarrow> au_cell \<Rightarrow> au_cell \<times> au_cell" where
  "cell_swap c src = (src, src)"

definition cell_assign :: "au_cell \<Rightarrow> au_cell \<Rightarrow> au_cell" where
  "cell_assign c rhs = fst (cell_swap c (cell_copy rhs))"

definition cell_clear :: "au_cell \<Rightarrow> au_cell" where
  "cell_clear c = []"

definition metadata_service_id :: "au_cell \<Rightarrow> u16 option" where
  "metadata_service_id c = do { b \<leftarrow> rd c 0; Some (ucast b) }"

definition sequence_number :: "au_cell \<Rightarrow> u16 option" where
  "sequence_number c = do { b \<leftarrow> rd c 1; Some (ucast b) }"

definition cell_fragmentation_indication :: "au_cell \<Rightarrow> u16 option" where
  "cell_fragmentation_indication c = do { flag \<leftarrow> rd c 2; Some (ucast (drop_bit 6 flag)) }"

definition decoder_config_flag :: "au_cell \<Rightarrow> bool option" where
  "decoder_config_flag c = do { flag \<leftarrow> rd c 2; Some (flag AND 0x20 \<noteq> 0) }"

definition cell_random_access :: "au_cell \<Rightarrow> bool option" where
  "cell_random_access c = do { flag \<leftarrow> rd c 2; Some (flag AND 0x10 \<noteq> 0) }"

definition cell_header :: "au_cell \<Rightarrow> bytes option" where
  "cell_header c = rd_n c 0 5"

definition AU_cell_data_length :: "au_cell \<Rightarrow> u64" where
  "AU_cell_data_length c = word_of_nat (length c) - 5"

definition AU_cell_data_bytes :: "au_cell \<Rightarrow> bytes" where
  "AU_cell_data_bytes c = drop 5 c"

section \<open>The wrapper\<close>

type_synonym au_wrapper = "au_cell list"

definition wrapper_copy :: "au_wrapper \<Rightarrow> au_wrapper" where
  "wrapper_copy other = [] @ map cell_copy other"

text \<open>Assignment copies behind the cells that are there.\<close>

definition wrapper_assign :: "au_wrapper \<Rightarrow> au_wrapper \<Rightarrow> au_wrapper" where
  "wrapper_assign w rhs = w @ map cell_copy rhs"

definition wrapper_length :: "au_wrapper \<Rightarrow> u64" where
  "wrapper_length w = word_of_nat (length w)"

partial_function (option) wrapper_loop ::
  "bytes \<Rightarrow> u64 \<Rightarrow> u64 \<Rightarrow> au_wrapper \<Rightarrow> (au_wrapper \<times> u64) option" where
  "wrapper_loop sodb len pos w =
     (if pos < len then
        Option.bind (cell_parse (drop (unat pos) sodb) len [])
          (\<lambda>(cell, pos). if pos > 0 then wrapper_loop sodb len pos (w @ [cell]) else Some (w, pos))
      else Some (w, wrapper_length w))"

definition wrapper_parse :: "bytes \<Rightarrow> u64 \<Rightarrow> au_wrapper \<Rightarrow> (au_wrapper \<times> u64) option" where
  "wrapper_parse sodb len w = wrapper_loop sodb len 0 w"

section \<open>Cells of the standard\<close>

definition au_cell_bytes :: "u8 \<Rightarrow> u8 \<Rightarrow> u8 \<Rightarrow> bytes \<Rightarrow> bytes" where
  "au_cell_bytes service seq flags data =
     [service, seq, flags, hi8 (word_of_nat (length data)), lo8 (word_of_nat (length data))] @ data"

lemma length_au_cell_bytes [simp]: "length (au_cell_bytes service seq flags data) = 5 + length data"
  by (simp add: au_cell_bytes_def)

lemma cell_size:
  assumes "n < 0x8000"
  shows "scast (word_of_nat n :: u16) = (word_of_nat n :: u64)" "unat (scast (word_of_nat n :: u16) + 5 :: u64) = n + 5"
proof -
  have "sint (word_of_nat n :: u16) = int n"
    using assms by (simp add: signed_of_nat signed_take_bit_int_eq_self)
  then show s: "scast (word_of_nat n :: u16) = (word_of_nat n :: u64)"
    by (metis of_int_sint of_int_of_nat_eq)
  show "unat (scast (word_of_nat n :: u16) + 5 :: u64) = n + 5"
    unfolding s using assms by (simp add: unat_word_ariths)
qed



lemma cell_size_negative:
  assumes "0x8000 \<le> n" "n < 0xFFFB"
  shows "unat (scast (word_of_nat n :: u16) + 5 :: u64) = 2 ^ 64 - 0x10000 + n + 5"
proof -
  have "sint (word_of_nat n :: u16) = signed_take_bit 15 (int n)"
    by (simp add: signed_of_nat)
  also have "\<dots> = (int n + 2 ^ 15) mod 2 ^ 16 - 2 ^ 15"
    by (simp add: signed_take_bit_eq_take_bit_shift take_bit_eq_mod)
  also have "\<dots> = int n - 0x10000"
  proof -
    have "(int n + 2 ^ 15) mod 2 ^ 16 = (int n + 2 ^ 15 - 2 ^ 16) mod 2 ^ 16"
      by (rule minus_mod_self2 [symmetric])
    also have "\<dots> = int n + 2 ^ 15 - 2 ^ 16" using assms by (intro mod_pos_pos_trivial) simp_all
    finally show ?thesis by simp
  qed
  finally have "(scast (word_of_nat n :: u16) :: u64) = word_of_int (int n - 0x10000)"
    by (metis of_int_sint)
  then have "scast (word_of_nat n :: u16) + 5 = (word_of_int (int n - 0x10000 + 5) :: u64)"
    by simp
  also have "\<dots> = word_of_int (int n - 0x10000 + 5 + 2 ^ 64)" by simp
  also have "int n - 0x10000 + 5 + 2 ^ 64 = int (2 ^ 64 - 0x10000 + n + 5)" by simp
  finally have "scast (word_of_nat n :: u16) + 5 = (word_of_nat (2 ^ 64 - 0x10000 + n + 5) :: u64)"
    by (simp only: of_int_of_nat_eq)
  moreover have "unat (word_of_nat (2 ^ 64 - 0x10000 + n + 5) :: u64) = 2 ^ 64 - 0x10000 + n + 5"
    using assms(2) by (intro unat_of_nat_small) simp
  ultimately show ?thesis by simp
qed

lemma cell_parse_inside:
  "cell_parse sodb len c = Some (c', n) \<Longrightarrow> unat n \<le> length sodb \<and> n \<le> len \<and> (n > 0 \<longrightarrow> c' = c @ take (unat n) sodb)"
  by (auto simp: cell_parse_def Let_def rd_n_def split: bind_splits if_splits)

lemma cell_parse_cell:
  assumes "0 < length data" "length data < 0x8000" "length data + 5 \<le> unat len"
  shows "cell_parse (au_cell_bytes service seq flags data @ rest) len c =
    Some (c @ au_cell_bytes service seq flags data, word_of_nat (length data + 5))"
proof -
  have "5 < unat len" using assms(1,3) by linarith
  then have l: "len > 5" by (simp add: word_less_nat_alt)
  have "rd16 (au_cell_bytes service seq flags data @ rest) 3 =
      Some (le16 (hi8 (word_of_nat (length data))) (lo8 (word_of_nat (length data))))"
    by (simp add: au_cell_bytes_def rd16_def)
  moreover have "scast (word_of_nat (length data) :: u16) + 5 = (word_of_nat (length data + 5) :: u64)"
    using cell_size(1) [OF assms(2)] by simp
  moreover have "unat (word_of_nat (length data + 5) :: u64) = length data + 5"
    using assms(2) by (intro unat_of_nat_small) simp
  ultimately show ?thesis
    using l assms(3) by (simp add: cell_parse_def endian_simps word_le_nat_alt rd_n_def del: of_nat_add)
qed

lemma wrapper_loop_inside:
  "wrapper_loop sodb len pos w = Some y \<Longrightarrow>
   length sodb = unat len \<Longrightarrow> 0 < pos \<Longrightarrow> pos < len \<Longrightarrow> snd y = 0"
proof (induction rule: wrapper_loop.raw_induct [rotated 1, consumes 1, case_names step])
  case (step loop sodb len pos w y)
  obtain c n where c: "cell_parse (drop (unat pos) sodb) len [] = Some (c, n)"
      "(if n > 0 then loop sodb len n (w @ [c]) else Some (w, n)) = Some y"
    using step.hyps step.prems(3) by (auto split: bind_splits)
  have "unat n \<le> length sodb - unat pos" using cell_parse_inside [OF c(1)] by simp
  then have "n < len" using step.prems unat_gt_0 [of pos] by (simp add: word_less_nat_alt)
  then show ?case using c(2) step by (cases "n > 0") (auto simp: word_gt_0)
qed


section \<open>Properties\<close>

text \<open>
  A cell whose data have 1 to 32767 bytes is read exactly, whatever follows it, and the
  accessors return its header fields and data.  With 32768 to 65530 bytes the length field is taken as
  negative and the cell is refused although the standard allows it.
\<close>

lemma metadata_cell_parse:
  assumes "cell = au_cell_bytes service seq flags data" and "0 < length data" "length data < 0xFFFB"
    and "length data + 5 \<le> unat len" "unat len < 2 ^ 63"
  shows "cell_parse (cell @ rest) len [] =
      Some (if length data < 0x8000 then (cell, word_of_nat (length data + 5)) else ([], 0)) \<and>
    metadata_service_id cell = Some (ucast service) \<and> sequence_number cell = Some (ucast seq) \<and>
    cell_fragmentation_indication cell = Some (ucast (drop_bit 6 flags)) \<and>
    decoder_config_flag cell = Some (bit flags 5) \<and> cell_random_access cell = Some (bit flags 4) \<and>
    cell_header cell = Some (take 5 cell) \<and> unat (AU_cell_data_length cell) = length data \<and>
    AU_cell_data_bytes cell = data"
proof -
  have "cell_parse (cell @ rest) len [] = Some ([], 0)" if n: "0x8000 \<le> length data"
  proof -
    have "5 < unat len" using assms(2,4) by linarith
    then have l: "len > 5" by (simp add: word_less_nat_alt)
    have r: "rd16 (cell @ rest) 3 = Some (le16 (hi8 (word_of_nat (length data))) (lo8 (word_of_nat (length data))))"
      by (simp add: assms(1) au_cell_bytes_def rd16_def)
    have "unat len < unat (scast (word_of_nat (length data) :: u16) + 5 :: u64)"
      unfolding cell_size_negative [OF n assms(3)] using assms(5) by simp
    then show ?thesis using l r by (simp add: cell_parse_def endian_simps word_le_nat_alt)
  qed
  moreover have "cell_parse (cell @ rest) len [] = Some (cell, word_of_nat (length data + 5))" if "length data < 0x8000"
    using cell_parse_cell [OF assms(2) that assms(4), of service seq flags rest "[]"] by (simp add: assms(1))
  moreover have "unat (AU_cell_data_length cell) = length data"
  proof -
    have "AU_cell_data_length cell = word_of_nat (length data)" by (simp add: AU_cell_data_length_def assms(1))
    then show ?thesis using assms(3) by simp
  qed
  ultimately show ?thesis
    by (auto simp: assms(1) au_cell_bytes_def metadata_service_id_def sequence_number_def decoder_config_flag_def
        cell_fragmentation_indication_def cell_random_access_def cell_header_def AU_cell_data_bytes_def rd_n_def word_bits)
qed

text \<open>
  Property C22. The wrapper takes the size of a cell for its position, so it can only read a buffer that is
  one single cell: whenever it returns a number of cells, that number is 1 and the cell is the whole
  buffer.  Every other buffer is refused, read past its end, or keeps the loop going for ever.
\<close>

theorem metadata_wrapper_single_cell:
  assumes "length sodb = unat len" and "wrapper_parse sodb len [] = Some (w, r)" and "r \<noteq> 0"
  shows "w = [sodb] \<and> r = 1"
proof -
  have loop: "wrapper_loop sodb len 0 [] = Some (w, r)" using assms(2) by (simp add: wrapper_parse_def)
  show ?thesis
  proof (cases "0 < len")
    case True
    have "wrapper_loop sodb len 0 [] = Option.bind (cell_parse sodb len [])
        (\<lambda>(c, n). if n > 0 then wrapper_loop sodb len n [c] else Some ([], n))"
      using True by (subst wrapper_loop.simps) (simp cong: if_cong)
    then obtain c n where c: "cell_parse sodb len [] = Some (c, n)"
        "(if n > 0 then wrapper_loop sodb len n [c] else Some ([], n)) = Some (w, r)"
      using loop by (auto split: bind_splits)
    have n: "n > 0" using c(2) assms(3) by (auto simp: word_gt_0 split: if_splits)
    note inside = cell_parse_inside [OF c(1)]
    have "\<not> n < len" using wrapper_loop_inside [of sodb len n "[c]" "(w, r)"] c(2) n assms(1,3) by auto
    then have "n = len" using inside by auto
    then have "c = sodb" using inside n assms(1) by simp
    moreover have "wrapper_loop sodb len n [c] = Some ([c], 1)"
      using \<open>n = len\<close> by (subst wrapper_loop.simps) (simp add: wrapper_length_def)
    ultimately show ?thesis using c(2) n by simp
  next
    case False
    then show ?thesis using loop assms(3) by (subst (asm) wrapper_loop.simps) (simp add: wrapper_length_def)
  qed
qed

theorem metadata_wrapper_single_cell_witness:
  "wrapper_parse [1, 2, 3, 0, 2, 7, 8] 7 [] = Some ([[1, 2, 3, 0, 2, 7, 8]], 1)"
proof -
  have "wrapper_parse [1, 2, 3, 0, 2, 7, 8] 7 [] = Some ([[1, 2, 3, 0, 2, 7, 8]], wrapper_length [[1, 2, 3, 0, 2, 7, 8]])"
    using cell_parse_cell [of "[7, 8]" 7 1 2 3 "[]" "[]"]
    by (simp add: wrapper_parse_def wrapper_loop.simps au_cell_bytes_def hi8_def lo8_def)
  then show ?thesis
    using metadata_wrapper_single_cell [of "[1, 2, 3, 0, 2, 7, 8]" 7] by (simp add: wrapper_length_def)
qed

text \<open>
  Two cells of equal size: the loop reads the second one again and again and never returns.
\<close>

lemma metadata_equal_cells_diverge:
  assumes "length data = length data'" "0 < length data" "length data < 0x8000"
    and "2 * (length data + 5) \<le> unat len"
  shows "wrapper_parse (au_cell_bytes s q f data @ au_cell_bytes s' q' f' data' @ rest) len w = None"
proof (rule ccontr)
  let ?sodb = "au_cell_bytes s q f data @ au_cell_bytes s' q' f' data' @ rest"
  let ?n = "word_of_nat (length data + 5) :: u64"
  have n: "unat ?n = length data + 5" using assms(3) by (intro unat_of_nat_small) simp
  have pos: "0 < ?n" "?n < len" "0 < len" using assms(4) by (simp_all only: word_less_nat_alt n) simp_all
  have first: "cell_parse ?sodb len [] = Some (au_cell_bytes s q f data, ?n)"
    using assms cell_parse_cell [of data len s q f _ "[]"] by simp
  have second: "cell_parse (drop (unat ?n) ?sodb) len [] = Some (au_cell_bytes s' q' f' data', ?n)"
    unfolding n using assms cell_parse_cell [of data' len s' q' f' rest "[]"] by simp
  have stuck: "pos = ?n \<Longrightarrow> sodb = ?sodb \<Longrightarrow> l = len \<Longrightarrow> False"
    if "wrapper_loop sodb l pos v = Some y" for sodb l pos v y
    using that
  proof (induction rule: wrapper_loop.raw_induct [rotated 1, consumes 1, case_names step])
    case (step loop sodb l pos v y)
    have "loop ?sodb len ?n (v @ [au_cell_bytes s' q' f' data']) = Some y"
      using step.hyps step.prems second pos by simp
    then show False using step.IH by blast
  qed
  assume "wrapper_parse ?sodb len w \<noteq> None"
  then obtain y where "wrapper_loop ?sodb len 0 w = Some y" by (auto simp: wrapper_parse_def)
  then have "wrapper_loop ?sodb len ?n (w @ [au_cell_bytes s q f data]) = Some y"
    using first pos by (subst (asm) wrapper_loop.simps) simp
  then show False using stuck by blast
qed

end
