(* ===== verification/Output_Text.thy ===== *)
theory Output_Text
  imports Mp2tp_Prelude
begin

text \<open>
  What \<open>TsWriter.cpp\<close> uses of the C and C++ formatting functions: decimal and hexadecimal numbers of
  \<open>operator<<\<close>, the conversions \<open>%#4.2x\<close> and \<open>%2.2x\<close> of \<open>sprintf\<close>, the character classes of the C
  locale, and floating-point numbers. Text is a list of characters.
\<close>

definition tabs :: "nat \<Rightarrow> string" where
  "tabs n = replicate n (CHR 0x09)"

text \<open>\<open>ostrm << a << b << endl\<close>\<close>

definition line :: "string list \<Rightarrow> string" where
  "line xs = concat xs @ [CHR 0x0A]"

definition quote :: string where
  "quote = [CHR 0x22]"

definition yes_no :: "bool \<Rightarrow> string" where
  "yes_no b = (if b then ''true'' else ''false'')"

definition bit01 :: "bool \<Rightarrow> string" where
  "bit01 b = (if b then ''1'' else ''0'')"

section \<open>Numbers\<close>

fun digits_in :: "string \<Rightarrow> nat \<Rightarrow> nat \<Rightarrow> string" where
  "digits_in ds b n = (if n < b \<or> b < 2 then [ds ! n] else digits_in ds b (n div b) @ [ds ! (n mod b)])"

declare digits_in.simps [simp del]

definition dec :: "nat \<Rightarrow> string" where
  "dec n = digits_in ''0123456789'' 10 n"

definition hex :: "nat \<Rightarrow> string" where
  "hex n = digits_in ''0123456789abcdef'' 16 n"

definition hex_upper :: "nat \<Rightarrow> string" where
  "hex_upper n = digits_in ''0123456789ABCDEF'' 16 n"

definition pad :: "char \<Rightarrow> nat \<Rightarrow> string \<Rightarrow> string" where
  "pad ch w s = replicate (w - length s) ch @ s"

text \<open>\<open>hex << setfill('0') << setw(2)\<close>, which \<open>%2.2x\<close> prints as well.\<close>

definition hex2 :: "u8 \<Rightarrow> string" where
  "hex2 b = pad (CHR ''0'') 2 (hex (unat b))"

text \<open>\<open>%#4.2x\<close>: the prefix is left out for the value 0, and the width is filled with spaces.\<close>

definition x42 :: "u8 \<Rightarrow> string" where
  "x42 b = pad (CHR '' '') 4 ((if b = 0 then [] else ''0x'') @ hex2 b)"

definition decw :: "'a::len word \<Rightarrow> string" where
  "decw w = dec (unat w)"

section \<open>Characters\<close>

definition chr :: "u8 \<Rightarrow> char" where
  "chr b = char_of (unat b)"

definition isprint :: "u8 \<Rightarrow> bool" where
  "isprint b \<longleftrightarrow> 0x20 \<le> b \<and> b \<le> 0x7E"

definition isalnum :: "u8 \<Rightarrow> bool" where
  "isalnum b \<longleftrightarrow> 0x30 \<le> b \<and> b \<le> 0x39 \<or> 0x41 \<le> b \<and> b \<le> 0x5A \<or> 0x61 \<le> b \<and> b \<le> 0x7A"

text \<open>Inserting a \<open>char*\<close> into a stream ends at the first character 0.\<close>

definition c_str :: "string \<Rightarrow> string" where
  "c_str s = takeWhile (\<lambda>ch. ch \<noteq> CHR 0x00) s"

section \<open>Floating point\<close>

text \<open>
  The numbers are not negative and given as fractions \<open>n / d\<close>. A quotient is rounded to the nearest
  \<open>double\<close> (53 bits, ties to even) and printed as \<open>%g\<close> with a precision, which \<open>TsWriter\<close> sets to 12.
\<close>

definition round_div :: "nat \<Rightarrow> nat \<Rightarrow> nat" where
  "round_div n d =
     (let q = n div d; r = n mod d in if 2 * r < d \<or> 2 * r = d \<and> even q then q else q + 1)"

fun length_in :: "nat \<Rightarrow> nat \<Rightarrow> nat" where
  "length_in b n = (if n < b \<or> b < 2 then 1 else 1 + length_in b (n div b))"

declare length_in.simps [simp del]

function scale_up :: "nat \<Rightarrow> nat \<Rightarrow> nat \<Rightarrow> nat" where
  "scale_up b n d = (if n = 0 \<or> b < 2 \<or> d \<le> n then 0 else 1 + scale_up b (b * n) d)"
  by pat_completeness auto
termination
proof (relation "measure (\<lambda>(b, n, d). d - n)")
  fix b n d :: nat
  assume a: "\<not> (n = 0 \<or> b < 2 \<or> d \<le> n)"
  then have "2 * n \<le> b * n" by (intro mult_le_mono1) simp
  with a have "d - b * n < d - n" by linarith
  then show "((b, b * n, d), b, n, d) \<in> measure (\<lambda>(b, n, d). d - n)" by simp
qed simp

declare scale_up.simps [simp del]

text \<open>The exponent of \<open>n / d\<close> in base \<open>b\<close>.\<close>

definition exponent :: "nat \<Rightarrow> nat \<Rightarrow> nat \<Rightarrow> int" where
  "exponent b n d = (if d \<le> n then int (length_in b (n div d)) - 1 else - int (scale_up b n d))"

definition to_double :: "nat \<Rightarrow> nat \<Rightarrow> nat \<times> nat" where
  "to_double n d =
     (if n = 0 then (0, 1)
      else let k = 52 - exponent 2 n d
           in if 0 \<le> k then (round_div (n * 2 ^ nat k) d, 2 ^ nat k)
              else (round_div n (d * 2 ^ nat (- k)) * 2 ^ nat (- k), 1))"

definition strip_zeros :: "string \<Rightarrow> string" where
  "strip_zeros s = rev (dropWhile (\<lambda>ch. ch = CHR ''0'') (rev s))"

definition point :: "string \<Rightarrow> string" where
  "point s = (if s = [] then [] else CHR ''.'' # s)"

definition general_format :: "nat \<Rightarrow> nat \<times> nat \<Rightarrow> string" where
  "general_format prec v =
     (let (n, d) = v in
      if n = 0 then ''0''
      else let x = exponent 10 n d;
               k = int prec - 1;
               m = round_div (n * 10 ^ nat (k - x)) (d * 10 ^ nat (x - k));
               (m, x) = (if m = 10 ^ prec then (10 ^ nat k, x + 1) else (m, x));
               ds = dec m
           in if 0 \<le> x \<and> x < int prec then take (nat x + 1) ds @ point (strip_zeros (drop (nat x + 1) ds))
              else if - 4 \<le> x \<and> x < 0 then ''0.'' @ replicate (nat (- x) - 1) (CHR ''0'') @ strip_zeros ds
              else take 1 ds @ point (strip_zeros (drop 1 ds)) @ ''e'' @ (if x < 0 then ''-'' else ''+'')
                   @ pad (CHR ''0'') 2 (dec (nat \<bar>x\<bar>)))"

definition g12 :: "nat \<times> nat \<Rightarrow> string" where
  "g12 v = general_format 12 v"

text \<open>The precision of a stream that was not changed.\<close>

definition g6 :: "nat \<times> nat \<Rightarrow> string" where
  "g6 v = general_format 6 v"

end
