(* ===== verification/Description_Tables.thy ===== *)
theory Description_Tables
  imports Output_Text
begin

text \<open>
  The three tables of names in \<open>TsWriter.cpp\<close>, in the order of the tests of the code.
\<close>

definition getDescriptorText :: "u32 \<Rightarrow> string" where
  "getDescriptorText tag =
     (if tag = 2 then ''video_stream_descriptor''
     else if tag = 3 then ''audio_stream_descriptor''
     else if tag = 4 then ''hierarchy_descriptor''
     else if tag = 5 then ''registration_descriptor''
     else if tag = 6 then ''data_stream_alignment_descriptor''
     else if tag = 7 then ''target_background_grid_descriptor''
     else if tag = 8 then ''Video_window_descriptor''
     else if tag = 9 then ''CA_descriptor''
     else if tag = 10 then ''ISO_639_language_descriptor''
     else if tag = 11 then ''System_clock_descriptor''
     else if tag = 12 then ''Multiplex_buffer_utilization_descriptor''
     else if tag = 13 then ''Copyright_descriptor''
     else if tag = 14 then ''Maximum_bitrate_descriptor''
     else if tag = 15 then ''Private_data_indicator_descriptor''
     else if tag = 16 then ''Smoothing_buffer_descriptor''
     else if tag = 17 then ''STD_descriptor''
     else if tag = 18 then ''IBP_descriptor''
     else if 19 \<le> tag \<and> tag \<le> 26 then ''Defined in ISO/IEC 13818-6''
     else if tag = 27 then ''MPEG-4_video_descriptor''
     else if tag = 28 then ''MPEG-4_audio_descriptor''
     else if tag = 29 then ''IOD_descriptor''
     else if tag = 30 then ''SL_descriptor''
     else if tag = 31 then ''FMC_descriptor''
     else if tag = 32 then ''external_ES_ID_descriptor''
     else if tag = 33 then ''MuxCode_descriptor''
     else if tag = 34 then ''FmxBufferSize_descriptor''
     else if tag = 35 then ''multiplexBuffer_descriptor''
     else if tag = 36 then ''content_labeling_descriptor''
     else if tag = 37 then ''metadata_pointer_descriptor''
     else if tag = 38 then ''metadata_descriptor''
     else if tag = 39 then ''metadata_STD_descriptor''
     else if tag = 40 then ''AVC video descriptor''
     else if tag = 41 then ''IPMP_descriptor''
     else if tag = 42 then ''AVC timing and HRD descriptor''
     else if tag = 43 then ''MPEG-2_AAC_audio_descriptor''
     else if tag = 44 then ''FlexMuxTiming_descriptor''
     else if tag = 45 then ''MPEG-4_text_descriptor''
     else if tag = 46 then ''MPEG-4_audio_extension_descriptor''
     else if tag = 47 then ''auxiliary_video_stream_descriptor''
     else if tag = 48 then ''SVC extension descriptor''
     else if tag = 49 then ''MVC extension descriptor''
     else if tag = 50 then ''J2K video descriptor''
     else if tag = 51 then ''MVC operation point descriptor''
     else if tag = 52 then ''MPEG2_stereoscopic_video_format_descriptor''
     else if tag = 53 then ''Stereoscopic_program_info_descriptor''
     else if tag = 54 then ''Stereoscopic_video_info_descriptor''
     else if 55 \<le> tag \<and> tag \<le> 63 then ''Rec. ITU-T H.222.0 | ISO/IEC 13818-1 Reserved''
     else if tag = 64 then ''network_name_descriptor''
     else if 64 < tag \<and> tag \<le> 255 then ''User Private''
     else [])"

definition getStreamTypeDescription :: "u32 \<Rightarrow> string" where
  "getStreamTypeDescription type =
     (if type = 0x00 then ''ITU-T | ISO/IEC Reserved''
     else if type = 0x01 then ''ISO/IEC 11172 Video''
     else if type = 0x02 then ''ITU-T Rec. H.262 | ISO/IEC 13818-2 Video or ISO/IEC 11172-2 constrained parameter video stream''
     else if type = 0x03 then ''ISO/IEC 11172 Audio''
     else if type = 0x04 then ''ISO/IEC 13818-3 Audio''
     else if type = 0x05 then ''Rec. ITU-T H.222.0 | ISO/IEC 13818-1 private_sections''
     else if type = 0x06 then ''Rec. ITU-T H.222.0 | ISO/IEC 13818-1 PES packets containing private data''
     else if type = 0x07 then ''ISO/IEC 13522 MHEG''
     else if type = 0x08 then ''Rec. ITU-T H.222.0 | ISO/IEC 13818-1 Annex A DSM-CC''
     else if type = 0x09 then ''Rec. ITU-T H.222.1''
     else if type = 0x0A then ''ISO/IEC 13818-6 type A''
     else if type = 0x0B then ''ISO/IEC 13818-6 type B''
     else if type = 0x0C then ''ISO/IEC 13818-6 type C''
     else if type = 0x0D then ''ISO/IEC 13818-6 type D''
     else if type = 0x0E then ''ITU-T Rec. H.222.0 | ISO/IEC 13818-1 auxiliary''
     else if type = 0x0F then ''ISO/IEC 13818-7 Audio with ADTS transport syntax''
     else if type = 0x10 then ''ISO/IEC 14496-2 Visual''
     else if type = 0x11 then ''ISO/IEC 14496-3 Audio with the LATM transport syntax as defined in ISO/IEC 14496-3 / AMD 1''
     else if type = 0x12 then ''ISO/IEC 14496-1 SL-packetized stream or FlexMux stream carried in PES packets''
     else if type = 0x13 then ''ISO/IEC 14496-1 SL-packetized stream or FlexMux stream carried in ISO/IEC14496_sections''
     else if type = 0x14 then ''ISO/IEC 13818-6 Synchronized Download Protocol''
     else if type = 0x15 then ''Metadata carried in PES packets''
     else if type = 0x16 then ''Metadata carried in metadata sections''
     else if type = 0x17 then ''Metadata carried in ISO/IEC 13818-6 Data Carousel''
     else if type = 0x18 then ''Metadata carried in ISO/IEC 13818-6 Object Carousel''
     else if type = 0x19 then ''Metadata carried in ISO/IEC 13818-6 Synchronized Download Protocol''
     else if type = 0x1A then ''IPMP stream (defined in ISO/IEC 13818-11, MPEG-2 IPMP''
     else if type = 0x1B then ''AVC video stream conforming to one or more profiles defined in Annex A of Rec. ITU-T H.264|ISO/IEC 14496-10 or AVC video sub-bitstream of SVC as defined in 2.1.78 or MVC base view sub-bitstream, as defined in 2.1.85, or AVC video sub-bitstream of MVC, as defined in 2.1.88''
     else if type = 0x1C then ''ISO/IEC 14496-3 Audio, without using any additional transport syntax, such as DST, ALS and SLS''
     else if type = 0x1D then ''ISO/IEC 14496-17 Text''
     else if type = 0x1E then ''Auxiliary video stream as defined in ISO/IEC 23002-3''
     else if type = 0x1F then ''SVC video sub-bitstream of an AVC video stream conforming to one or more profiles defined in Annex G of Rec. ITU-T H.264|ISO/IEC 14496-10''
     else if type = 0x20 then ''MVC video sub-bitstream of an AVC video stream conforming to one or more profiles defined in Annex H of Rec. ITU-T H.264|ISO/IEC 14496-10''
     else if type = 0x21 then ''Video stream conforming to one or more profiles as defined in Rec. ITU-T T.800|ISO/IEC 15444-1''
     else if type = 0x22 then ''Additional view Rec. ITU-T H.262|ISO/IEC 13818-2 video stream for service-compatible stereoscopic 3D services''
     else if type = 0x23 then ''Additional view Rec. ITU-T H.264|ISO/IEC 14496-10 video stream conforming to one or more profiles defined in Annex A for service-compatible stereoscopic 3D services''
     else if 0x24 \<le> type \<or> type \<le> 0x7e then ''Rec. ITU-T H.222.0 | ISO/IEC 13818-1 Reserved''
     else if type = 0x7f then ''IPMP''
     else if 0x80 \<le> type \<or> type \<le> 0xFF then ''User Private''
     else [])"

definition getStreamIdDescription :: "u8 \<Rightarrow> string" where
  "getStreamIdDescription streamId =
     (if streamId = 188 then ''program_stream_map''
     else if streamId = 189 then ''private_stream_1''
     else if streamId = 190 then ''padding_stream''
     else if streamId = 191 then ''private_stream_2''
     else if 192 \<le> streamId \<and> streamId \<le> 223 then ''ISO/IEC 13818-3 or ISO/IEC 11172-3 or ISO/IEC 13818-7 or ISO/IEC 14496-3 audio stream number x xxxx''
     else if 224 \<le> streamId \<and> streamId \<le> 239 then ''ITU-T Rec. H.262 | ISO/IEC 13818-2, ISO/IEC 11172-2, ISO/IEC 14496-2 or Rec. ITU-T H.264 | ISO/IEC 14496-10 video stream number xxxx''
     else if streamId = 240 then ''ECM_stream''
     else if streamId = 241 then ''EMM_stream''
     else if streamId = 242 then ''Rec. ITU-T H.222.0 | ISO/IEC 13818-1 Annex A or ISO/IEC 13818-6_DSMCC_stream''
     else if streamId = 243 then ''ISO/IEC_13522_stream''
     else if streamId = 244 then ''Rec. ITU-T H.222.1 type A''
     else if streamId = 245 then ''Rec. ITU-T H.222.1 type B''
     else if streamId = 246 then ''Rec. ITU-T H.222.1 type C''
     else if streamId = 247 then ''Rec. ITU-T H.222.1 type D''
     else if streamId = 248 then ''Rec. ITU-T H.222.1 type E''
     else if streamId = 249 then ''ancillary_stream''
     else if streamId = 250 then ''ISO/IEC14496-1_SL-packetized_stream''
     else if streamId = 251 then ''ISO/IEC14496-1_FlexMux_stream''
     else if streamId = 252 then ''(0xFC) metadata stream''
     else if streamId = 253 then ''extended_stream_id''
     else if streamId = 254 then ''reserved data stream''
     else if streamId = 255 then ''program_stream_directory''
     else ''ERROR UNKNOWN STREAM ID'')"

end
