(* ===== verification/Descriptor_Printer.thy ===== *)
theory Descriptor_Printer
  imports Description_Tables Psi_Descriptors
begin

text \<open>
  The printers of \<open>TsWriter.cpp\<close> for one descriptor. Each copies the value into an array of \<open>BUFSIZ\<close>
  zeros and runs a loop \<open>while (cur < desc.length())\<close> whose body asks for the position \<open>cur\<close>. A body that
  finds no case for its position changes nothing, and the loop does not end.

  A body gives \<^const>\<open>None\<close> when it reads outside the array, and the loop gives \<^const>\<open>None\<close> also when it
  does not end; \<open>stuck\<close> tells the two apart.
\<close>

section \<open>The loop over a descriptor\<close>

text \<open>The variables of the loops: \<open>cur\<close>, \<open>metadata_format\<close>, the flags, and what was written.\<close>

record cursor =
  at :: nat
  metadata_format :: u8
  carriage :: u8
  written :: string

definition new_cursor :: cursor where
  "new_cursor = \<lparr>at = 0, metadata_format = 0, carriage = 0, written = []\<rparr>"

definition put :: "string \<Rightarrow> cursor \<Rightarrow> cursor" where
  "put t s = s\<lparr>written := written s @ t\<rparr>"

definition move :: "nat \<Rightarrow> cursor \<Rightarrow> cursor" where
  "move n s = s\<lparr>at := at s + n\<rparr>"

lemma at_simps [simp]:
  "at (put t s) = at s" "at (move n s) = at s + n" "metadata_format (put t s) = metadata_format s"
  "metadata_format (move n s) = metadata_format s" "carriage (put t s) = carriage s"
  "carriage (move n s) = carriage s" "at new_cursor = 0" "metadata_format new_cursor = 0"
  by (simp_all add: put_def move_def new_cursor_def)

partial_function (option) desc_loop :: "(cursor \<Rightarrow> cursor option) \<Rightarrow> nat \<Rightarrow> cursor \<Rightarrow> cursor option" where
  "desc_loop body len s =
     (if at s < len then do { s' \<leftarrow> body s; desc_loop body len s' } else Some s)"

text \<open>\<open>desc.value(val)\<close> on the zeroed array.\<close>

definition desc_val :: "descriptor \<Rightarrow> bytes option" where
  "desc_val d = descriptor_value d (replicate BUFSIZ 0)"

definition desc_len :: "descriptor \<Rightarrow> nat" where
  "desc_len d = unat (descriptor_length d)"

definition tag_text :: "descriptor \<Rightarrow> string" where
  "tag_text d = ''0x'' @ hex2 (dtag d)"

definition name_text :: "descriptor \<Rightarrow> string" where
  "name_text d = getDescriptorText (ucast (dtag d))"

text \<open>The first two lines of most descriptors.\<close>

definition desc_head :: "string \<Rightarrow> descriptor \<Rightarrow> string" where
  "desc_head indent d =
     line [indent, ''tag: '', tag_text d, '' ('', name_text d, '')''] @
     line [indent, ''length: '', decw (descriptor_length d)]"

text \<open>\<open>sprintf(buf, "%c%c%c%c (%#4.2x %#4.2x %#4.2x %#4.2x)", ...)\<close>, inserted as a C string.\<close>

definition four_chars :: "bytes \<Rightarrow> nat \<Rightarrow> string option" where
  "four_chars val cur = do {
     b \<leftarrow> rd_n val cur 4;
     Some (c_str (map chr b @ '' ('' @ x42 (b ! 0) @ '' '' @ x42 (b ! 1) @ '' '' @ x42 (b ! 2) @ '' '' @ x42 (b ! 3) @ '')'')) }"

text \<open>One byte in a run of printable text.\<close>

definition print_char :: "u8 \<Rightarrow> string" where
  "print_char b =
     (if b \<noteq> 0 then if isprint b then [chr b] else ''('' @ x42 b @ '')'' else ''(0x00)'')"

section \<open>Registration descriptor\<close>

text \<open>The characters of \<open>info\<close>, which is written behind the loop, are kept apart from \<open>written\<close>.\<close>

definition registration_step :: "string \<Rightarrow> bytes \<Rightarrow> cursor \<times> string \<Rightarrow> (cursor \<times> string) option" where
  "registration_step indent val s = (let (s, info) = s in
     if at s = 0 then do {
       t \<leftarrow> four_chars val (at s);
       Some (put (line [indent, ''format_identifier: '', t]) (move 4 s), info)
     }
     else do {
       c \<leftarrow> rd val (at s);
       Some (move 1 s, info @ (if isprint c then [chr c] else ''(0x'' @ hex2 c @ '')''))
     })"

text \<open>Every turn moves on, so this loop ends.\<close>

function registration_loop :: "string \<Rightarrow> bytes \<Rightarrow> nat \<Rightarrow> cursor \<times> string \<Rightarrow> (cursor \<times> string) option" where
  "registration_loop indent val len s =
     (if at (fst s) < len then do {
        s' \<leftarrow> registration_step indent val s;
        registration_loop indent val len s'
      } else Some s)"
  by pat_completeness auto
termination
  by (relation "measure (\<lambda>(indent, val, len, s). len - at (fst s))")
     (auto simp: registration_step_def put_def move_def Let_def split: bind_splits if_splits)

declare registration_loop.simps [simp del]

definition printRegistrationDescriptor :: "descriptor \<Rightarrow> nat \<Rightarrow> string option" where
  "printRegistrationDescriptor d depth = do {
     val \<leftarrow> desc_val d;
     let indent = tabs depth;
     (s, info) \<leftarrow> registration_loop indent val (desc_len d) (put (desc_head indent d) new_cursor, []);
     Some (written s @ (if length info > 0 then line [indent, ''additional_identification_info: '', info] else [])) }"

section \<open>Metadata pointer descriptor\<close>

definition pointer_application_format :: "bytes \<Rightarrow> string option" where
  "pointer_application_format val = do {
     f \<leftarrow> rd16 val 0; a \<leftarrow> rd val 0; b \<leftarrow> rd val 1;
     let f = ntohs f;
     let bytes22 = '' 0x'' @ hex2 a @ '' 0x'' @ hex2 b;
     Some (if f \<le> 0x000F then ''Reserved'' @ bytes22
       else if f = 0x0010 then ''ISO 15706 (ISAN) encoded in its binary form 0x00 0x10''
       else if f = 0x0011 then ''ISO 15706-2 (V-ISAN) encoded in its binary form 0x00 0x11''
       else if 0x0012 \<le> f \<and> f \<le> 0x00FF then ''Reserved'' @ bytes22
       else if 0x0100 \<le> f \<and> f \<le> 0xFFFE then ''User defined'' @ bytes22
       else ''Defined by the metadata_application_format_identifier field '' @ x42 a @ '' '' @ x42 b) }"

text \<open>The text of a metadata format, with the quotation marks of the caller.\<close>

definition metadata_format_text :: "string \<Rightarrow> u8 \<Rightarrow> string" where
  "metadata_format_text q f =
     (if f \<le> 0x0F then q @ ''Reserved '' @ x42 f @ q
      else if f = 0x10 then q @ ''ISO/IEC 15938-1 TeM '' @ x42 f @ q
      else if f = 0x11 then q @ ''ISO/IEC 15938-1 BiM '' @ x42 f @ q
      else if 0x12 \<le> f \<and> f \<le> 0x3E then q @ ''Reserved '' @ x42 f @ q
      else if f = 0x3F then ''Defined by metadata application format 0x3F''
      else if 0x40 \<le> f \<and> f \<le> 0xFE then q @ ''Private use '' @ x42 f @ q
      else ''Defined by metadata_format_identifer field 0xFF'')"

definition carriage_text :: "u8 \<Rightarrow> string" where
  "carriage_text f =
     (if f = 0x00 then ''Carriage in the same transport stream where this metadata pointer descriptor is carried. 0''
      else if f = 0x20 then quote @ ''Carriage in a different transport stream from where this metadata pointer descriptor is carried. 1''
      else if f = 0x40 then quote @ ''Carriage in a program stream.  This may or may not be the same program stream in which this metadata pointer descriptor is carried. 2''
      else [])"

definition private_char :: "u8 \<Rightarrow> string" where
  "private_char b =
     (if b \<noteq> 0 then if isalnum b then x42 b @ '' ('' @ [chr b] @ '') '' else x42 b @ '' '' else ''0x00 '')"

definition pointer_step :: "bytes \<Rightarrow> nat \<Rightarrow> cursor \<Rightarrow> cursor option" where
  "pointer_step val len s =
     (let indent = tabs 4; cur = at s; all = metadata_format s = 0xFF in
      if cur = 0 then do {
        t \<leftarrow> pointer_application_format val;
        Some (put (line [indent, ''metadata_application_format: '', t]) (move 2 s))
      }
      else if cur = 2 then do {
        f \<leftarrow> rd val 2;
        Some (put (line [indent, ''metadata_format: '', metadata_format_text [] f]) (move 1 (s\<lparr>metadata_format := f\<rparr>)))
      }
      else if cur = 3 then
        if all then do {
          t \<leftarrow> four_chars val cur;
          Some (put (line [indent, ''metadata_format_identifier: '', t]) (move 4 s))
        }
        else Some (move 1 s)
      else if cur = 4 \<and> \<not> all \<or> cur = 7 then do {
        b \<leftarrow> rd val cur;
        Some (put (line [indent, ''metadata_service_id: '', decw b]) (move 1 s))
      }
      else if cur = 5 \<and> \<not> all \<or> cur = 8 then do {
        flag \<leftarrow> rd val cur;
        let f = flag AND 0x60;
        Some (put (line [indent, ''metadata_locator_record_flag: '', yes_no (flag AND 0x80 \<noteq> 0)] @
                   line [indent, ''MPEG_carriage_flags: '', carriage_text f] @
                   line [indent, ''reserved: '', ''11111'']) (move 1 (s\<lparr>carriage := f\<rparr>)))
      }
      else if cur = 6 \<and> \<not> all \<or> cur = 9 then
        if carriage s = 0x00 \<or> carriage s = 0x20 \<or> carriage s = 0x40 then do {
          v \<leftarrow> rd16 val cur; a \<leftarrow> rd val cur; b \<leftarrow> rd val (cur + 1);
          Some (put (line [indent, ''program_number: '', decw (ntohs v), '' (0x'', hex2 a, '' 0x'', hex2 b, '')'']) (move 2 s))
        }
        else Some (move 2 s)
      else if cur = 7 \<and> \<not> all \<or> cur = 11 then
        if carriage s = 0x20 then do {
          l \<leftarrow> rd16 val cur; i \<leftarrow> rd16 val (cur + 2);
          b \<leftarrow> rd_n val cur 4;
          Some (put (line [indent, ''transport_stream_location: '', quote, decw l, '' '', x42 (b ! 0), '' '', x42 (b ! 1), quote, '','']
              @ line [indent, ''transport_stream_id: '', quote, decw i, '' '', x42 (b ! 2), '' '', x42 (b ! 3), quote]) (move 4 s))
        }
        else Some s
      else if cur > 7 \<and> \<not> all \<or> cur > 11 then do {
        bs \<leftarrow> rd_n val cur (len - cur);
        Some (put (line [indent, ''private_data: '', concat (map private_char bs)]) (move (len - cur) s))
      }
      else Some s)"

definition printMetadataPointerDescriptor :: "descriptor \<Rightarrow> string option" where
  "printMetadataPointerDescriptor d = do {
     val \<leftarrow> desc_val d;
     let head = line [tabs 3, name_text d, ''() {''] @ line [tabs 4, ''tag: '', tag_text d] @
       line [tabs 4, ''length: '', decw (descriptor_length d)];
     s \<leftarrow> desc_loop (pointer_step val (desc_len d)) (desc_len d) (put head new_cursor);
     Some (written s @ line [tabs 3, ''}'']) }"

section \<open>Metadata descriptor\<close>

definition metadata_application_format :: "bytes \<Rightarrow> string option" where
  "metadata_application_format val = do {
     f \<leftarrow> rd16 val 0; a \<leftarrow> rd val 0; b \<leftarrow> rd val 1;
     let f = ntohs f;
     let both = x42 a @ '' '' @ x42 b;
     Some (if f \<le> 0x000F then ''Reserved '' @ both
       else if f = 0x0010 then ''ISO 15706 (ISAN) encoded in its binary form 0x00 0x10''
       else if f = 0x0011 then ''ISO 15706-2 (V-ISAN) encoded in its binary form 0x00 0x11''
       else if 0x0012 \<le> f \<and> f \<le> 0x00FF then ''Reserved '' @ both
       else if f = 0x0100 then ''MISB ST 1402 Table 4, General, 0x0100 (default)''
       else if f = 0x0101 then ''MISB ST 1402 Table 4, Geographic Metadata, 0x0101''
       else if f = 0x0102 then ''MISB ST 1402 Table 4, Annotation Metadata, 0x0102''
       else if f = 0x0103 then ''MISB ST 1402 Table 4, Still Image on Demand, 0x0103''
       else if 0x0103 < f \<and> f \<le> 0xFFFE then ''User defined '' @ both
       else ''Defined by the metadata_application_format_identifier field '' @ both) }"

text \<open>
  The byte of the decoder configuration flags, at \<open>cur\<close>. Only the values \<open>000\<close> and \<open>001\<close> are printed; for the
  others the code prepares a text and drops it.
\<close>

definition dsm_cc_lines :: "string \<Rightarrow> u8 \<Rightarrow> string" where
  "dsm_cc_lines indent flag =
     line [indent, ''DSM-CC_flag: '', yes_no (flag AND 0x10 \<noteq> 0)] @ line [indent, ''reserved: '', ''1111'']"

definition decoder_config_step :: "string \<Rightarrow> bytes \<Rightarrow> cursor \<Rightarrow> cursor option" where
  "decoder_config_step indent val s = do {
     flag \<leftarrow> rd val (at s);
     let s = move 1 s;
     let decoder_config_flags = flag AND 0xE0;
     if decoder_config_flags = 0x00 then
       Some (put (line [indent, ''decoder_config_flags: '', ''No decoder configuration is needed. 000''] @
         dsm_cc_lines indent flag) s)
     else if decoder_config_flags = 0x20 then do {
       n \<leftarrow> rd val (at s);
       let s = move 1 s;
       bs \<leftarrow> rd_n val (at s) (unat n);
       Some (put (line [indent, ''decoder_config_flags'',
           ''The decoder configuration is carried in this descriptor in the decoder_config_byte field. 001''] @
         dsm_cc_lines indent flag @ line [indent, ''decoder_config_length: '', decw n] @
         line [indent, ''decoder_config_byte: '', concat (map print_char bs)]) (move (unat n) s))
     }
     else Some s }"

definition metadata_step :: "string \<Rightarrow> bytes \<Rightarrow> cursor \<Rightarrow> cursor option" where
  "metadata_step indent val s =
     (let cur = at s; all = metadata_format s = 0xFF in
      if cur = 0 then do {
        t \<leftarrow> metadata_application_format val;
        Some (put (line [indent, ''metadata_application_format: '', t]) (move 2 s))
      }
      else if cur = 2 then do {
        f \<leftarrow> rd val 2;
        Some (put (line [indent, ''metadata_format: '', metadata_format_text quote f]) (move 1 (s\<lparr>metadata_format := f\<rparr>)))
      }
      else if cur = 3 then
        if all then do {
          t \<leftarrow> four_chars val cur;
          Some (put (line [indent, ''metadata_format_identifier: '', t]) (move 4 s))
        }
        else Some (move 1 s)
      else if cur = 4 \<and> \<not> all \<or> cur = 7 then do {
        b \<leftarrow> rd val cur;
        Some (put (line [indent, ''metadata_service_id: '', decw b]) (move 1 s))
      }
      else if cur = 5 \<and> \<not> all \<or> cur = 8 then decoder_config_step indent val s
      else Some s)"

definition printMetadataDescriptor :: "descriptor \<Rightarrow> nat \<Rightarrow> string option" where
  "printMetadataDescriptor d depth = do {
     val \<leftarrow> desc_val d;
     let indent = tabs depth;
     s \<leftarrow> desc_loop (metadata_step indent val) (desc_len d) (put (desc_head indent d) new_cursor);
     Some (written s) }"

section \<open>Metadata STD descriptor\<close>

text \<open>Three bytes at \<open>cur\<close>, the two reserved bits flipped; the value is below \<open>2^24\<close> and so the \<open>int\<close> is positive.\<close>

definition rate_line :: "string \<Rightarrow> bytes \<Rightarrow> string \<Rightarrow> cursor \<Rightarrow> cursor option" where
  "rate_line indent val label s = do {
     b \<leftarrow> rd_n val (at s) 3;
     let n = ntohl (le32 0 (b ! 0 XOR 0xC0) (b ! 1) (b ! 2));
     Some (put (line [indent, label, decw n]) (move 3 s)) }"

definition std_step :: "string \<Rightarrow> bytes \<Rightarrow> cursor \<Rightarrow> cursor option" where
  "std_step indent val s =
     (if at s = 0 then rate_line indent val ''metadata_input_leak_rate: '' s
      else if at s = 3 then rate_line indent val ''metadata_buffer_size: '' s
      else if at s = 6 then rate_line indent val ''metadata_output_leak_rate: '' s
      else Some s)"

definition printMetadataSTDDescriptor :: "descriptor \<Rightarrow> nat \<Rightarrow> string option" where
  "printMetadataSTDDescriptor d depth = do {
     val \<leftarrow> desc_val d;
     let indent = tabs depth;
     s \<leftarrow> desc_loop (std_step indent val) (desc_len d) (put (desc_head indent d) new_cursor);
     Some (written s) }"

section \<open>Any descriptor\<close>

definition printDescriptorValue :: "descriptor \<Rightarrow> nat \<Rightarrow> string option" where
  "printDescriptorValue d depth = do {
     val \<leftarrow> desc_val d;
     let indent = tabs depth;
     if dtag d = 0x05 then printRegistrationDescriptor d depth
     else if dtag d = 0x25 then printMetadataPointerDescriptor d
     else if dtag d = 0x26 then printMetadataDescriptor d depth
     else if dtag d = 0x27 then printMetadataSTDDescriptor d depth
     else do {
       bs \<leftarrow> rd_n val 0 (desc_len d);
       Some (desc_head indent d @ line [indent, ''value: '', concat (map print_char bs)])
     } }"

section \<open>Loops that end and loops that do not\<close>

text \<open>The state after \<open>n\<close> turns, as long as the condition of the loop holds.\<close>

fun turns :: "(cursor \<Rightarrow> cursor option) \<Rightarrow> nat \<Rightarrow> nat \<Rightarrow> cursor \<Rightarrow> cursor option" where
  "turns body len 0 s = Some s"
| "turns body len (Suc n) s =
     (if at s < len then do { s' \<leftarrow> body s; turns body len n s' } else None)"

text \<open>The loop has come to a position at which its body does nothing.\<close>

definition stuck :: "(cursor \<Rightarrow> cursor option) \<Rightarrow> nat \<Rightarrow> cursor \<Rightarrow> bool" where
  "stuck body len s \<longleftrightarrow> (\<exists>n t. turns body len n s = Some t \<and> at t < len \<and> body t = Some t)"

lemma desc_loop_end: "len \<le> at s \<Longrightarrow> desc_loop body len s = Some s"
  by (subst desc_loop.simps) simp

lemma desc_loop_turn: "at s < len \<Longrightarrow> body s = Some s' \<Longrightarrow> desc_loop body len s = desc_loop body len s'"
  by (subst desc_loop.simps) simp

lemma stuck_iff:
  "stuck body len s \<longleftrightarrow> at s < len \<and> (\<exists>t. body s = Some t \<and> (t = s \<or> stuck body len t))"
proof
  assume "stuck body len s"
  then obtain n t where n: "turns body len n s = Some t" "at t < len" "body t = Some t"
    unfolding stuck_def by blast
  then show "at s < len \<and> (\<exists>t. body s = Some t \<and> (t = s \<or> stuck body len t))"
    by (cases n) (auto simp: stuck_def split: if_splits bind_splits)
next
  assume r: "at s < len \<and> (\<exists>t. body s = Some t \<and> (t = s \<or> stuck body len t))"
  then obtain t where t: "body s = Some t" "t = s \<or> stuck body len t" by blast
  show "stuck body len s"
  proof (cases "t = s")
    case True
    then show ?thesis unfolding stuck_def using r t by (intro exI [of _ 0] exI [of _ s]) simp
  next
    case False
    then obtain n t' where "turns body len n t = Some t'" "at t' < len" "body t' = Some t'"
      using t(2) unfolding stuck_def by blast
    then show ?thesis unfolding stuck_def using r t(1) by (intro exI [of _ "Suc n"] exI [of _ t']) simp
  qed
qed

lemma not_stuck_end: "len \<le> at s \<Longrightarrow> \<not> stuck body len s"
  by (subst stuck_iff) simp

text \<open>A loop that is stuck has no result.\<close>

lemma desc_loop_not_stuck: "desc_loop body len s = Some t \<Longrightarrow> \<not> stuck body len s"
proof (induction body len s t rule: desc_loop.raw_induct [rotated 1, consumes 1, case_names step])
  case (step f body len s t)
  show ?case
  proof
    assume st: "stuck body len s"
    then obtain u where u: "at s < len" "body s = Some u" "u = s \<or> stuck body len u"
      using stuck_iff [of body len s] by blast
    then have "f body len u = Some t" using step.hyps by simp
    from step.IH [OF this] u(3) st show False by blast
  qed
qed

lemma stuck_loop: "stuck body len s \<Longrightarrow> desc_loop body len s = None"
  using desc_loop_not_stuck by (cases "desc_loop body len s") auto

text \<open>
  What the loops over metadata descriptors rely on: a body that reads within the array as long as the
  position is below 255, and moves on or leaves the state alone.
\<close>

locale cursor_loop =
  fixes body :: "bytes \<Rightarrow> nat \<Rightarrow> cursor \<Rightarrow> cursor option"
  assumes forward: "body val len s = Some t \<Longrightarrow> at s < len \<Longrightarrow> t = s \<or> at s < at t"
    and total: "length val = BUFSIZ \<Longrightarrow> len < 256 \<Longrightarrow> at s < len \<Longrightarrow> \<exists>t. body val len s = Some t"
begin

lemma ends_or_stuck:
  assumes "length val = BUFSIZ" "len < 256"
  shows "(\<exists>t. desc_loop (body val len) len s = Some t) \<or> stuck (body val len) len s"
proof (induction "len - at s" arbitrary: s rule: less_induct)
  case less
  show ?case
  proof (cases "at s < len")
    case True
    then obtain t where t: "body val len s = Some t" using total assms by blast
    show ?thesis
    proof (cases "t = s")
      case True
      then show ?thesis using t \<open>at s < len\<close> stuck_iff [of "body val len" len s] by blast
    next
      case False
      then have "len - at t < len - at s" using forward [OF t True] True by simp
      from less [OF this] show ?thesis
        using desc_loop_turn [OF True, of "body val len", OF t] t True stuck_iff [of "body val len" len s] by auto
    qed
  next
    case False
    then show ?thesis using desc_loop_end [of len s "body val len"] by simp
  qed
qed

text \<open>So such a loop has a result exactly when it is not stuck.\<close>

lemma no_result_iff:
  assumes "length val = BUFSIZ" "len < 256"
  shows "desc_loop (body val len) len s = None \<longleftrightarrow> stuck (body val len) len s"
  using ends_or_stuck [OF assms, of s] stuck_loop [of "body val len" len s] by auto

end

lemmas step_simps = put_def move_def Let_def

text \<open>A body is defined when the reads in it are.\<close>

lemma defined_bind:
  "\<exists>x. m = Some x \<Longrightarrow> (\<And>x. m = Some x \<Longrightarrow> \<exists>t. f x = Some t) \<Longrightarrow> \<exists>t. m \<bind> f = Some t"
  by auto

lemma defined_if:
  "(c \<Longrightarrow> \<exists>t. a = Some t) \<Longrightarrow> (\<not> c \<Longrightarrow> \<exists>t. b = Some t) \<Longrightarrow> \<exists>t. (if c then a else b) = Some t"
  by simp

lemma defined_Some: "\<exists>t. Some a = Some t"
  by simp

text \<open>A body moves on, or leaves the state alone.\<close>

definition advances :: "cursor \<Rightarrow> cursor option \<Rightarrow> bool" where
  "advances s m \<longleftrightarrow> (\<forall>t. m = Some t \<longrightarrow> t = s \<or> at s < at t)"

lemma advances_bind: "(\<And>x. m = Some x \<Longrightarrow> advances s (f x)) \<Longrightarrow> advances s (m \<bind> f)"
  by (auto simp: advances_def split: bind_splits)

lemma advances_if: "(c \<Longrightarrow> advances s a) \<Longrightarrow> (\<not> c \<Longrightarrow> advances s b) \<Longrightarrow> advances s (if c then a else b)"
  by simp

lemma advances_stay: "advances s (Some s)"
  by (simp add: advances_def)

lemma advances_Some: "at s < at t \<Longrightarrow> advances s (Some t)"
  by (simp add: advances_def)

lemma advancesD: "advances s m \<Longrightarrow> m = Some t \<Longrightarrow> t = s \<or> at s < at t"
  by (simp add: advances_def)

lemmas advances = advances_bind advances_if advances_stay advances_Some

lemmas defined = defined_bind defined_if defined_Some

lemma reads_defined:
  "i < length xs \<Longrightarrow> \<exists>x. rd xs i = Some x" "i + 1 < length bs \<Longrightarrow> \<exists>x. rd16 bs i = Some x"
  "i + n \<le> length xs \<Longrightarrow> \<exists>x. rd_n xs i n = Some x"
  by (simp_all add: rd_def rd16_def rd_n_def)

lemma four_chars_defined: "i + 4 \<le> length bs \<Longrightarrow> \<exists>x. four_chars bs i = Some x"
  by (simp add: four_chars_def rd_n_def)

interpretation pointer: cursor_loop pointer_step
proof
  fix val len s t
  assume t: "pointer_step val len s = Some t" and l: "at s < len"
  have "advances s (pointer_step val len s)"
    unfolding pointer_step_def Let_def by (intro advances) (use l in simp_all)
  then show "t = s \<or> at s < at t" using t by (rule advancesD)
next
  fix val :: bytes and len :: nat and s :: cursor
  assume a: "length val = BUFSIZ" "len < 256" "at s < len"
  have "\<exists>t. pointer_application_format val = Some t"
    unfolding pointer_application_format_def Let_def
    by (intro defined reads_defined) (simp_all add: a BUFSIZ_def)
  then show "\<exists>t. pointer_step val len s = Some t"
    unfolding pointer_step_def Let_def
    by (intro defined reads_defined four_chars_defined) (use a in \<open>simp_all add: BUFSIZ_def\<close>)
qed

interpretation metadata: cursor_loop "\<lambda>val len. metadata_step indent val" for indent
proof
  fix val len s t
  assume t: "metadata_step indent val s = Some t" and "at s < len"
  have "advances s (metadata_step indent val s)"
    unfolding metadata_step_def decoder_config_step_def Let_def by (intro advances) simp_all
  then show "t = s \<or> at s < at t" using t by (rule advancesD)
next
  fix val :: bytes and len :: nat and s :: cursor
  assume a: "length val = BUFSIZ" "len < 256" "at s < len"
  have "\<exists>t. metadata_application_format val = Some t"
    unfolding metadata_application_format_def Let_def
    by (intro defined reads_defined) (simp_all add: a BUFSIZ_def)
  moreover have fits: "k + unat n \<le> 8190" if "k < 255" for k and n :: u8
    using unsigned_less [of n, where 'a = nat] that by simp
  have "\<exists>t. decoder_config_step indent val s = Some t"
    unfolding decoder_config_step_def Let_def
    by (intro defined reads_defined) (use a in \<open>simp_all add: BUFSIZ_def move_def fits\<close>)
  ultimately show "\<exists>t. metadata_step indent val s = Some t"
    unfolding metadata_step_def Let_def
    by (intro defined reads_defined four_chars_defined) (use a in \<open>simp_all add: BUFSIZ_def\<close>)
qed

interpretation metadata_std: cursor_loop "\<lambda>val len. std_step indent val" for indent
proof
  fix val len s t
  assume "std_step indent val s = Some t" "at s < len"
  then show "t = s \<or> at s < at t"
    by (auto simp: std_step_def rate_line_def step_simps split: if_splits bind_splits)
next
  fix val :: bytes and len :: nat and s :: cursor
  assume "length val = BUFSIZ" "len < 256" "at s < len"
  then show "\<exists>t. std_step indent val s = Some t"
    by (auto simp: std_step_def rate_line_def rd_n_def BUFSIZ_def Let_def)
qed

section \<open>Which descriptors are printed\<close>

lemma stuck_step:
  "at s < len \<Longrightarrow> body s = Some t \<Longrightarrow> at s < at t \<Longrightarrow> stuck body len s \<longleftrightarrow> stuck body len t"
  using stuck_iff [of body len s] by auto

lemma stuck_stay: "body s = Some s \<Longrightarrow> stuck body len s \<longleftrightarrow> at s < len"
  using stuck_iff [of body len s] by auto

lemma std_stuck:
  assumes "length val = BUFSIZ" "at s = 0"
  shows "stuck (std_step indent val) len s \<longleftrightarrow> 9 < len"
proof -
  have step: "\<exists>t. std_step indent val u = Some t \<and> at t = at u + 3" if "at u \<in> {0, 3, 6}" for u
    using that assms(1) by (auto simp: std_step_def rate_line_def rd_n_def BUFSIZ_def Let_def)
  obtain t3 where t3: "std_step indent val s = Some t3" "at t3 = 3" using step [of s] assms(2) by auto
  obtain t6 where t6: "std_step indent val t3 = Some t6" "at t6 = 6" using step [of t3] t3 by auto
  obtain t9 where t9: "std_step indent val t6 = Some t9" "at t9 = 9" using step [of t6] t6 by auto
  have "std_step indent val t9 = Some t9" using t9 by (simp add: std_step_def)
  then have "stuck (std_step indent val) len t9 \<longleftrightarrow> 9 < len" using stuck_stay t9(2) by metis
  then have 6: "stuck (std_step indent val) len t6 \<longleftrightarrow> 9 < len"
    using stuck_step [of t6 len "std_step indent val" t9] t6 t9 not_stuck_end [of len t6] by (cases "6 < len") auto
  then have 3: "stuck (std_step indent val) len t3 \<longleftrightarrow> 9 < len"
    using stuck_step [of t3 len "std_step indent val" t6] t3 t6 not_stuck_end [of len t3] by (cases "3 < len") auto
  then show ?thesis
    using stuck_step [of s len "std_step indent val" t3] t3 assms(2) not_stuck_end [of len s] by (cases "0 < len") auto
qed

text \<open>Where the decoder configuration whose flags are at \<open>p\<close> ends.\<close>

definition config_end :: "bytes \<Rightarrow> nat \<Rightarrow> nat" where
  "config_end val p = (if val ! p AND 0xE0 = 0x20 then p + 2 + unat (val ! (p + 1)) else p + 1)"

text \<open>The last position that the loop over a metadata descriptor has a case for.\<close>

definition metadata_end :: "bytes \<Rightarrow> nat" where
  "metadata_end val =
     (if val ! 2 = 0xFF then config_end val 8
      else if config_end val 5 \<in> {7, 8} then config_end val 8 else config_end val 5)"

lemma config_stuck:
  assumes "length val = BUFSIZ" "at s = 8 \<or> at s = 5 \<and> metadata_format s \<noteq> 0xFF" "at s < len" "len < 256"
  shows "\<exists>t. metadata_step indent val s = Some t \<and> at t = config_end val (at s) \<and> metadata_format t = metadata_format s"
proof -
  have fits: "k + unat n \<le> 8190" if "k < 255" for k and n :: u8
    using unsigned_less [of n, where 'a = nat] that by simp
  have "metadata_step indent val s = decoder_config_step indent val s"
    using assms(2) by (auto simp: metadata_step_def Let_def)
  moreover have "\<exists>t. decoder_config_step indent val s = Some t \<and> at t = config_end val (at s) \<and> metadata_format t = metadata_format s"
    using assms by (auto simp: decoder_config_step_def rd_def rd_n_def BUFSIZ_def Let_def fits config_end_def)
  ultimately show ?thesis by simp
qed

text \<open>One turn back from a position whose fate is known.\<close>

lemma stuck_via:
  assumes "at s < q" "at s \<le> e"
    and "at s < len \<Longrightarrow> \<exists>t. body s = Some t \<and> at t = q \<and> Q t"
    and "\<And>t. at t = q \<Longrightarrow> Q t \<Longrightarrow> stuck body len t \<longleftrightarrow> e < len"
  shows "stuck body len s \<longleftrightarrow> e < len"
proof (cases "at s < len")
  case True
  then obtain t where "body s = Some t" "at t = q" "Q t" using assms(3) by blast
  then show ?thesis using stuck_step [OF True] assms(1,4) by auto
next
  case False
  then show ?thesis using not_stuck_end [of len s body] assms(2) by auto
qed

lemma stuck_back:
  assumes "\<exists>t. body s = Some t \<and> at t = q" "at s < q" "at s \<le> e"
    and "\<And>t. at t = q \<Longrightarrow> stuck body len t \<longleftrightarrow> e < len"
  shows "stuck body len s \<longleftrightarrow> e < len"
proof (rule stuck_via [where q = q and Q = "\<lambda>_. True"])
  show "\<exists>t. body s = Some t \<and> at t = q \<and> True" using assms(1) by simp
  show "stuck body len t \<longleftrightarrow> e < len" if "at t = q" for t using that by (rule assms(4))
qed (rule assms(2,3))+

lemma stuck_back_with:
  assumes "\<exists>t. body s = Some t \<and> at t = q \<and> Q t" "at s < q" "at s \<le> e"
    and "\<And>t. Q t \<Longrightarrow> at t = q \<Longrightarrow> stuck body len t \<longleftrightarrow> e < len"
  shows "stuck body len s \<longleftrightarrow> e < len"
proof (rule stuck_via [where q = q and Q = Q])
  show "\<exists>t. body s = Some t \<and> at t = q \<and> Q t" using assms(1) .
  show "stuck body len t \<longleftrightarrow> e < len" if "at t = q" "Q t" for t using that(2,1) by (rule assms(4))
qed (rule assms(2,3))+

lemma metadata_stuck_end:
  "9 \<le> at s \<or> at s = 6 \<Longrightarrow> stuck (metadata_step indent val) len s \<longleftrightarrow> at s < len"
  by (rule stuck_stay) (auto simp: metadata_step_def Let_def)

lemma config_end_bounds: "p < config_end val p"
  by (simp add: config_end_def)

lemma metadata_stuck:
  assumes val: "length val = BUFSIZ" and len: "len < 256" and s: "at s = 0"
  shows "stuck (metadata_step indent val) len s \<longleftrightarrow> metadata_end val < len"
proof -
  let ?stuck = "stuck (metadata_step indent val) len"
  have at8: "?stuck t \<longleftrightarrow> config_end val 8 < len" if "at t = 8" for t
  proof (rule stuck_via [where q = "config_end val 8" and Q = "\<lambda>_. True"])
    show "at t < config_end val 8" "at t \<le> config_end val 8" using that config_end_bounds [of 8 val] by simp_all
    show "\<exists>u. metadata_step indent val t = Some u \<and> at u = config_end val 8 \<and> True" if "at t < len"
      using config_stuck [OF val _ that len, of indent] \<open>at t = 8\<close> by auto
    show "?stuck u \<longleftrightarrow> config_end val 8 < len" if "at u = config_end val 8" for u
      using metadata_stuck_end [of u indent val len] that config_end_bounds [of 8 val] by simp
  qed
  have r: "rd val k = Some (val ! k)" if "k < 20" for k
    using that val by (simp add: rd_def BUFSIZ_def)
  have at7: "?stuck t \<longleftrightarrow> config_end val 8 < len" if "at t = 7" for t
  proof (rule stuck_back [OF _ _ _ at8])
    show "\<exists>u. metadata_step indent val t = Some u \<and> at u = 8"
      using that by (simp add: metadata_step_def Let_def r)
  qed (use that config_end_bounds [of 8 val] in simp_all)
  let ?plain = "\<lambda>t :: cursor. metadata_format t \<noteq> 0xFF"
  let ?e = "if config_end val 5 \<in> {7, 8} then config_end val 8 else config_end val 5"
  have e: "5 < ?e" using config_end_bounds [of 5 val] config_end_bounds [of 8 val] by simp
  have at5: "?stuck t \<longleftrightarrow> ?e < len" if "?plain t" "at t = 5" for t
  proof (rule stuck_via [where q = "config_end val 5" and Q = "\<lambda>_. True"])
    show "at t < config_end val 5" "at t \<le> ?e" using that e config_end_bounds [of 5 val] by simp_all
    show "\<exists>u. metadata_step indent val t = Some u \<and> at u = config_end val 5 \<and> True" if "at t < len"
      using config_stuck [OF val _ that len, of indent] \<open>at t = 5\<close> \<open>?plain t\<close> by auto
    fix u :: cursor assume u: "at u = config_end val 5"
    consider "config_end val 5 = 7" | "config_end val 5 = 8" | "config_end val 5 = 6 \<or> 9 \<le> config_end val 5"
      using config_end_bounds [of 5 val] by linarith
    then show "?stuck u \<longleftrightarrow> ?e < len"
      using u at7 at8 metadata_stuck_end [of u indent val len] by cases auto
  qed
  have at4: "?stuck t \<longleftrightarrow> ?e < len" if "?plain t" "at t = 4" for t
  proof (rule stuck_back_with [where Q = ?plain, OF _ _ _ at5])
    show "\<exists>u. metadata_step indent val t = Some u \<and> at u = 5 \<and> ?plain u"
      using that by (simp add: metadata_step_def Let_def r)
  qed (use that e in simp_all)
  have m: "5 < metadata_end val" using e config_end_bounds [of 8 val] by (simp add: metadata_end_def)
  let ?formatted = "\<lambda>t :: cursor. metadata_format t = val ! 2"
  have at3: "?stuck t \<longleftrightarrow> metadata_end val < len" if "?formatted t" "at t = 3" for t
  proof (cases "val ! 2 = 0xFF")
    case True
    then have e8: "metadata_end val = config_end val 8" by (simp add: metadata_end_def)
    show ?thesis unfolding e8
    proof (rule stuck_back [OF _ _ _ at7])
      show "\<exists>u. metadata_step indent val t = Some u \<and> at u = 7"
        using True that four_chars_defined [of 3 val] val by (auto simp: metadata_step_def Let_def BUFSIZ_def)
    qed (use that config_end_bounds [of 8 val] in simp_all)
  next
    case False
    then have e4: "metadata_end val = ?e" by (simp add: metadata_end_def)
    show ?thesis unfolding e4
    proof (rule stuck_back_with [where Q = ?plain, OF _ _ _ at4])
      show "\<exists>u. metadata_step indent val t = Some u \<and> at u = 4 \<and> ?plain u"
        using False that by (simp add: metadata_step_def Let_def)
    qed (use that e in simp_all)
  qed
  have at2: "?stuck t \<longleftrightarrow> metadata_end val < len" if "at t = 2" for t
  proof (rule stuck_back_with [where Q = ?formatted, OF _ _ _ at3])
    show "\<exists>u. metadata_step indent val t = Some u \<and> at u = 3 \<and> ?formatted u"
      using that by (simp add: metadata_step_def Let_def r put_def move_def)
  qed (use that m in simp_all)
  have "\<exists>x. metadata_application_format val = Some x"
    unfolding metadata_application_format_def Let_def
    by (intro defined reads_defined) (simp_all add: val BUFSIZ_def)
  then have "\<exists>u. metadata_step indent val s = Some u \<and> at u = 2"
    using s by (auto simp: metadata_step_def Let_def)
  then show ?thesis
    by (rule stuck_back [OF _ _ _ at2]) (use s m in simp_all)
qed

text \<open>
  The pointer descriptor: whatever the format, the loop comes to position 8, where it takes the carriage
  flags, and from there to 11, where it goes on only when these say another transport stream.
\<close>

definition pointer_end :: "bytes \<Rightarrow> nat" where
  "pointer_end val = (if val ! 8 AND 0x60 = 0x20 then 255 else 11)"

lemma pointer_end_bounds: "11 \<le> pointer_end val"
  by (simp add: pointer_end_def)

lemma pointer_not_stuck_private:
  assumes "length val = BUFSIZ" "len < 256" "11 < at s"
  shows "\<not> stuck (pointer_step val len) len s"
proof (cases "at s < len")
  case True
  obtain bs where "rd_n val (at s) (len - at s) = Some bs"
    using assms(1,2) True by (simp add: rd_n_def BUFSIZ_def)
  then have "\<exists>t. pointer_step val len s = Some t \<and> at t = len"
    using True assms(3) by (simp add: pointer_step_def Let_def)
  then show ?thesis using stuck_step [OF True] not_stuck_end [of len] True by fastforce
qed (simp add: not_stuck_end)

lemma pointer_step_at:
  assumes val: "length val = BUFSIZ"
  shows "at s = 8 \<Longrightarrow> \<exists>t. pointer_step val len s = Some t \<and> at t = 9 \<and> carriage t = val ! 8 AND 0x60"
    "at s = 9 \<Longrightarrow> \<exists>t. pointer_step val len s = Some t \<and> at t = 11 \<and> carriage t = carriage s"
    "at s = 7 \<Longrightarrow> \<exists>t. pointer_step val len s = Some t \<and> at t = 8"
    "metadata_format s \<noteq> 0xFF \<Longrightarrow> at s = 6 \<Longrightarrow> \<exists>t. pointer_step val len s = Some t \<and> at t = 8"
    "metadata_format s \<noteq> 0xFF \<Longrightarrow> at s = 5 \<Longrightarrow>
       \<exists>t. pointer_step val len s = Some t \<and> at t = 6 \<and> metadata_format t \<noteq> 0xFF"
    "metadata_format s \<noteq> 0xFF \<Longrightarrow> at s = 4 \<Longrightarrow>
       \<exists>t. pointer_step val len s = Some t \<and> at t = 5 \<and> metadata_format t \<noteq> 0xFF"
proof -
  have r: "rd val k = Some (val ! k)" "rd16 val k = Some (le16 (val ! k) (val ! (k + 1)))" if "k < 20" for k
    using that val by (simp_all add: rd_def rd16_def BUFSIZ_def)
  show "at s = 8 \<Longrightarrow> \<exists>t. pointer_step val len s = Some t \<and> at t = 9 \<and> carriage t = val ! 8 AND 0x60"
    by (simp add: pointer_step_def Let_def r put_def move_def)
  show "at s = 9 \<Longrightarrow> \<exists>t. pointer_step val len s = Some t \<and> at t = 11 \<and> carriage t = carriage s"
    by (simp add: pointer_step_def Let_def r)
  show "at s = 7 \<Longrightarrow> \<exists>t. pointer_step val len s = Some t \<and> at t = 8"
    by (simp add: pointer_step_def Let_def r)
  show "metadata_format s \<noteq> 0xFF \<Longrightarrow> at s = 6 \<Longrightarrow> \<exists>t. pointer_step val len s = Some t \<and> at t = 8"
    by (simp add: pointer_step_def Let_def r)
  show "metadata_format s \<noteq> 0xFF \<Longrightarrow> at s = 5 \<Longrightarrow>
      \<exists>t. pointer_step val len s = Some t \<and> at t = 6 \<and> metadata_format t \<noteq> 0xFF"
    by (simp add: pointer_step_def Let_def r put_def move_def)
  show "metadata_format s \<noteq> 0xFF \<Longrightarrow> at s = 4 \<Longrightarrow>
      \<exists>t. pointer_step val len s = Some t \<and> at t = 5 \<and> metadata_format t \<noteq> 0xFF"
    by (simp add: pointer_step_def Let_def r)
qed

lemma pointer_stuck:
  assumes val: "length val = BUFSIZ" and len: "len < 256" and s: "at s = 0"
  shows "stuck (pointer_step val len) len s \<longleftrightarrow> pointer_end val < len"
proof -
  let ?stuck = "stuck (pointer_step val len) len"
  note step = pointer_step_at [OF val, of _ len]
  have e: "11 \<le> pointer_end val" by (rule pointer_end_bounds)
  let ?flags = "\<lambda>t :: cursor. carriage t = val ! 8 AND 0x60"
  have at11: "?stuck t \<longleftrightarrow> pointer_end val < len" if "?flags t" "at t = 11" for t
  proof (cases "carriage t = 0x20")
    case True
    have "\<exists>u. pointer_step val len t = Some u \<and> at u = 15"
      using True that(2) val by (simp add: pointer_step_def Let_def rd16_def rd_def rd_n_def BUFSIZ_def)
    then obtain u where u: "pointer_step val len t = Some u" "at u = 15" by blast
    have "\<not> ?stuck u" using pointer_not_stuck_private [OF val len, of u] u(2) by simp
    then have "\<not> ?stuck t"
      using stuck_step [of t len "pointer_step val len" u] u not_stuck_end [of len t] that(2) by (cases "at t < len") auto
    moreover have "val ! 8 AND 0x60 = 0x20" using True that(1) by simp
    ultimately show ?thesis using len by (simp add: pointer_end_def)
  next
    case False
    then have "pointer_step val len t = Some t" using that(2) by (simp add: pointer_step_def Let_def)
    moreover have "val ! 8 AND 0x60 \<noteq> 0x20" using False that(1) by simp
    ultimately show ?thesis using stuck_stay [of "pointer_step val len" t len] that(2) by (simp add: pointer_end_def)
  qed
  have at9: "?stuck t \<longleftrightarrow> pointer_end val < len" if "?flags t" "at t = 9" for t
  proof (rule stuck_back_with [where Q = ?flags, OF _ _ _ at11])
    show "\<exists>u. pointer_step val len t = Some u \<and> at u = 11 \<and> ?flags u"
      using step(2) [OF that(2)] unfolding that(1) .
  qed (use that(2) e in simp_all)
  have at8: "?stuck t \<longleftrightarrow> pointer_end val < len" if "at t = 8" for t
    by (rule stuck_back_with [where Q = ?flags, OF step(1) [OF that] _ _ at9]) (use that e in simp_all)
  have at7: "?stuck t \<longleftrightarrow> pointer_end val < len" if "at t = 7" for t
    by (rule stuck_back [OF step(3) [OF that] _ _ at8]) (use that e in simp_all)
  let ?plain = "\<lambda>t :: cursor. metadata_format t \<noteq> 0xFF"
  have at6: "?stuck t \<longleftrightarrow> pointer_end val < len" if "?plain t" "at t = 6" for t
    by (rule stuck_back [OF step(4) [OF that] _ _ at8]) (use that e in simp_all)
  have at5: "?stuck t \<longleftrightarrow> pointer_end val < len" if "?plain t" "at t = 5" for t
    by (rule stuck_back_with [where Q = ?plain, OF step(5) [OF that] _ _ at6]) (use that e in simp_all)
  have at4: "?stuck t \<longleftrightarrow> pointer_end val < len" if "?plain t" "at t = 4" for t
    by (rule stuck_back_with [where Q = ?plain, OF step(6) [OF that] _ _ at5]) (use that e in simp_all)
  have at3: "?stuck t \<longleftrightarrow> pointer_end val < len" if "at t = 3" for t
  proof (cases "?plain t")
    case True
    then have "\<exists>u. pointer_step val len t = Some u \<and> at u = 4 \<and> ?plain u"
      using that by (simp add: pointer_step_def Let_def)
    then show ?thesis by (rule stuck_back_with [where Q = ?plain, OF _ _ _ at4]) (use that e in simp_all)
  next
    case False
    then have "\<exists>u. pointer_step val len t = Some u \<and> at u = 7"
      using that four_chars_defined [of 3 val] val by (auto simp: pointer_step_def Let_def BUFSIZ_def)
    then show ?thesis by (rule stuck_back [OF _ _ _ at7]) (use that e in simp_all)
  qed
  have at2: "?stuck t \<longleftrightarrow> pointer_end val < len" if "at t = 2" for t
  proof (rule stuck_back [OF _ _ _ at3])
    show "\<exists>u. pointer_step val len t = Some u \<and> at u = 3"
      using that val by (simp add: pointer_step_def Let_def rd_def BUFSIZ_def move_def put_def)
  qed (use that e in simp_all)
  have "\<exists>x. pointer_application_format val = Some x"
    unfolding pointer_application_format_def Let_def
    by (intro defined reads_defined) (simp_all add: val BUFSIZ_def)
  then have "\<exists>u. pointer_step val len s = Some u \<and> at u = 2"
    using s by (auto simp: pointer_step_def Let_def)
  then show ?thesis by (rule stuck_back [OF _ _ _ at2]) (use s e in simp_all)
qed

text \<open>Both together, for any descriptor: the last position its loop has a case for, and its body.\<close>

definition padded :: "descriptor \<Rightarrow> bytes" where
  "padded d = dvalue d @ replicate (BUFSIZ - length (dvalue d)) 0"

definition last_position :: "descriptor \<Rightarrow> nat" where
  "last_position d =
     (if dtag d = 0x25 then pointer_end (padded d)
      else if dtag d = 0x26 then metadata_end (padded d)
      else if dtag d = 0x27 then 9
      else 255)"

definition desc_body :: "descriptor \<Rightarrow> nat \<Rightarrow> cursor \<Rightarrow> cursor option" where
  "desc_body d depth =
     (if dtag d = 0x25 then pointer_step (padded d) (length (dvalue d))
      else if dtag d = 0x26 then metadata_step (tabs depth) (padded d)
      else std_step (tabs depth) (padded d))"

lemma desc_val_eq:
  assumes "length (dvalue d) < 256"
  shows "desc_val d = Some (padded d)" "length (padded d) = BUFSIZ" "desc_len d = length (dvalue d)"
  using assms
  by (simp_all add: desc_val_def descriptor_value_def padded_def BUFSIZ_def desc_len_def descriptor_length_def)

lemma registration_loop_defined:
  "length val = BUFSIZ \<Longrightarrow> len < 256 \<Longrightarrow> \<exists>t. registration_loop indent val len s = Some t"
proof (induction "len - at (fst s)" arbitrary: s rule: less_induct)
  case less
  show ?case
  proof (cases "at (fst s) < len")
    case True
    have "\<exists>t. registration_step indent val s = Some t \<and> at (fst s) < at (fst t)"
    proof (cases "at (fst s) = 0")
      case True
      then obtain t where "four_chars val 0 = Some t"
        using four_chars_defined [of 0 val] less.prems(1) by (auto simp: BUFSIZ_def)
      then show ?thesis using True by (simp add: registration_step_def Let_def case_prod_beta)
    next
      case False
      then show ?thesis
        using less.prems \<open>at (fst s) < len\<close> by (simp add: registration_step_def Let_def case_prod_beta rd_def BUFSIZ_def)
    qed
    then obtain t where t: "registration_step indent val s = Some t" "at (fst s) < at (fst t)" by blast
    then have "len - at (fst t) < len - at (fst s)" using True by simp
    from less.hyps [OF this less.prems] show ?thesis
      using True t(1) by (subst registration_loop.simps) simp
  next
    case False
    then show ?thesis by (subst registration_loop.simps) simp
  qed
qed

text \<open>A descriptor is printed exactly when its value ends at or before that position.\<close>

lemma printDescriptorValue_iff:
  assumes len: "length (dvalue d) < 256"
  shows "printDescriptorValue d depth = None \<longleftrightarrow> last_position d < length (dvalue d)"
    and "at s = 0 \<Longrightarrow> dtag d \<in> {0x25, 0x26, 0x27} \<Longrightarrow>
      stuck (desc_body d depth) (length (dvalue d)) s \<longleftrightarrow> last_position d < length (dvalue d)"
proof -
  note val = desc_val_eq [OF len]
  let ?n = "length (dvalue d)"
  have p: "desc_loop (pointer_step (padded d) ?n) ?n s = None \<longleftrightarrow> pointer_end (padded d) < ?n" if "at s = 0" for s
    using pointer.no_result_iff [OF val(2) len] pointer_stuck [OF val(2) len that] by simp
  have m: "desc_loop (metadata_step i (padded d)) ?n s = None \<longleftrightarrow> metadata_end (padded d) < ?n" if "at s = 0" for s i
    using metadata.no_result_iff [OF val(2) len] metadata_stuck [OF val(2) len that] by simp
  have t: "desc_loop (std_step i (padded d)) ?n s = None \<longleftrightarrow> 9 < ?n" if "at s = 0" for s i
    using metadata_std.no_result_iff [OF val(2) len] std_stuck [OF val(2) that] by simp
  have other: "rd_n (padded d) 0 ?n = Some (dvalue d)"
    by (simp add: padded_def rd_n_def)
  obtain r where r: "registration_loop (tabs depth) (padded d) ?n (put (desc_head (tabs depth) d) new_cursor, []) = Some r"
    using registration_loop_defined [OF val(2) len] by blast
  show "printDescriptorValue d depth = None \<longleftrightarrow> last_position d < ?n"
  proof -
    consider "dtag d = 0x05" | "dtag d = 0x25" | "dtag d = 0x26" | "dtag d = 0x27"
      | "dtag d \<notin> {0x05, 0x25, 0x26, 0x27}" by blast
    then show ?thesis
    proof cases
      case 1
      then have "printDescriptorValue d depth \<noteq> None"
        using r by (simp add: printDescriptorValue_def printRegistrationDescriptor_def val Let_def case_prod_beta)
      moreover have "\<not> last_position d < ?n" using 1 len by (simp add: last_position_def)
      ultimately show ?thesis by blast
    next
      case 2
      then show ?thesis
        using p by (simp add: printDescriptorValue_def printMetadataPointerDescriptor_def val Let_def last_position_def
            bind_eq_None_conv)
    next
      case 3
      then show ?thesis
        using m by (simp add: printDescriptorValue_def printMetadataDescriptor_def val Let_def last_position_def
            bind_eq_None_conv)
    next
      case 4
      then show ?thesis
        using t by (simp add: printDescriptorValue_def printMetadataSTDDescriptor_def val Let_def last_position_def
            bind_eq_None_conv)
    next
      case 5
      then have "printDescriptorValue d depth \<noteq> None"
        using other by (simp add: printDescriptorValue_def val Let_def)
      moreover have "\<not> last_position d < ?n" using 5 len by (simp add: last_position_def)
      ultimately show ?thesis by blast
    qed
  qed
  show "stuck (desc_body d depth) ?n s \<longleftrightarrow> last_position d < ?n" if "at s = 0" "dtag d \<in> {0x25, 0x26, 0x27}"
    using pointer_stuck [OF val(2) len that(1)] metadata_stuck [OF val(2) len that(1)] std_stuck [OF val(2) that(1)] that(2)
    by (auto simp: desc_body_def last_position_def)
qed

section \<open>Properties\<close>

lemma long_descriptor_stuck:
  assumes "wf_descriptor d" "last_position d < length (dvalue d)"
  shows "printDescriptorValue d depth = None \<and> stuck (desc_body d depth) (length (dvalue d)) new_cursor"
proof -
  have len: "length (dvalue d) < 256" using assms(1) by (simp add: wf_descriptor_def)
  then have "dtag d \<in> {0x25, 0x26, 0x27}" using assms(2) by (auto simp: last_position_def split: if_splits)
  then show ?thesis
    using printDescriptorValue_iff(1) [OF len, of depth] printDescriptorValue_iff(2) [OF len, of new_cursor depth] assms(2)
    by (simp add: new_cursor_def)
qed

text \<open>
  Property C12. Printing a descriptor of at most 255 bytes ends, with a text, exactly when its value is no
  longer than the part the printer has cases for. All reads are within the array, so when it does not
  end, the loop has come to a position at which its body changes nothing: a metadata descriptor with
  anything behind the decoder configuration (private data, for instance), a metadata pointer descriptor
  with more than 11 bytes that does not name another transport stream, and a metadata STD descriptor
  with more than 9 bytes make the program hang.
\<close>

theorem descriptor_printed_iff_ends:
  assumes "length (dvalue d) < 256" and "dtag d \<in> {0x25, 0x26, 0x27}"
  shows "if length (dvalue d) \<le> last_position d then \<exists>t. printDescriptorValue d depth = Some t
    else printDescriptorValue d depth = None \<and> stuck (desc_body d depth) (length (dvalue d)) new_cursor"
  using printDescriptorValue_iff(1) [OF assms(1), of depth]
    printDescriptorValue_iff(2) [OF assms(1) _ assms(2), of new_cursor depth] by auto

theorem descriptor_printed_iff_ends_witness:
  "printDescriptorValue \<lparr>dtag = 0x26, dvalue = [1, 0, 0x10, 0, 7, 0x0F, 0xAA]\<rparr> 6 = None"
  using descriptor_printed_iff_ends [of "\<lparr>dtag = 0x26, dvalue = [1, 0, 0x10, 0, 7, 0x0F, 0xAA]\<rparr>" 6]
  by (simp add: last_position_def metadata_end_def config_end_def padded_def)

end
