(* ===== verification/Ts_Writer.thy ===== *)
theory Ts_Writer
  imports Descriptor_Printer Decoder
begin

text \<open>
  \<open>TsWriter\<close> (\<open>TsWriter.cpp\<close>): the text that the command writes for a packet header, a table and a PES
  packet, and with it the text of everything the decoder has written.
\<close>

section \<open>Packet header and adaptation field\<close>

definition field :: "nat \<Rightarrow> string \<Rightarrow> string \<Rightarrow> string" where
  "field depth name value = line [tabs depth, name, '': '', value]"

text \<open>
  \<open>printPCR\<close>: the base is taken from four bytes only, and \<open>pcr[4] & 0x01 << 9\<close> is \<open>pcr[4] & 0x200\<close>.
  \<open>dpcr\<close> is below \<open>2^53\<close>, so the double is the exact number.
\<close>

definition pcr_base :: "bytes \<Rightarrow> u64" where
  "pcr_base pcr =
     push_bit (33 - 8) (ucast (pcr ! 0)) OR push_bit (33 - 16) (ucast (pcr ! 1)) OR
     push_bit (33 - 24) (ucast (pcr ! 2)) OR push_bit (33 - 32) (ucast (pcr ! 3))"

definition pcr_ext :: "bytes \<Rightarrow> u16" where
  "pcr_ext pcr = ucast (ucast (pcr ! 4) AND push_bit 9 0x01 :: u32) OR ucast (pcr ! 5)"

definition pcr_text :: "nat \<Rightarrow> nat \<Rightarrow> string" where
  "pcr_text base ext =
     (let dpcr = base * 300 + ext
      in ''base('' @ dec base @ '') * 300 + ext('' @ dec ext @ '') = '' @ g12 (to_double dpcr 1) @
         '', pcr/27-MHz = '' @ g12 (to_double dpcr 27000000) @ '' seconds'')"

definition printPCR :: "adaptation_field \<Rightarrow> string option" where
  "printPCR adf = do {
     f \<leftarrow> PCR_flag adf;
     len \<leftarrow> af_length adf;
     if f \<and> len > 0 then do {
       (ok, pcr) \<leftarrow> getPCR adf (replicate 6 0);
       Some (if ok then pcr_text (unat (pcr_base pcr)) (unat (pcr_ext pcr)) else [])
     } else Some [] }"

definition printAdaptationField :: "adaptation_field \<Rightarrow> string option" where
  "printAdaptationField adf = do {
     len \<leftarrow> af_length adf;
     a \<leftarrow> discontinuity_indicator adf;
     b \<leftarrow> random_access_indicator adf;
     c \<leftarrow> elementary_stream_priority_indicator adf;
     d \<leftarrow> PCR_flag adf;
     e \<leftarrow> OPCR_flag adf;
     f \<leftarrow> splicing_point_flag adf;
     g \<leftarrow> transport_private_data_flag adf;
     h \<leftarrow> adaptation_field_extension_flag adf;
     pcr \<leftarrow> (if d \<and> len > 0 then do { t \<leftarrow> printPCR adf; Some (field 3 ''PCR'' t) } else Some []);
     Some (line [tabs 2, ''adaptation_field() {''] @
       field 3 ''adaptation_field_length'' (decw len) @
       field 3 ''discontinuity_indicator'' (bit01 a) @
       field 3 ''random_access_indicator'' (bit01 b) @
       field 3 ''elementary_stream_priority_indicator'' (bit01 c) @
       field 3 ''PCR_flag'' (bit01 d) @
       field 3 ''OPCR_flag'' (bit01 e) @
       field 3 ''splicing_point_flag'' (bit01 f) @
       field 3 ''transport_private_data_flag'' (bit01 g) @
       field 3 ''adaptation_field_extension_flag'' (bit01 h) @
       pcr @ line [tabs 2, ''}'']) }"

definition afe_text :: "u8 \<Rightarrow> string" where
  "afe_text afe =
     (if afe = 0 then ''00 Reserved of future use by ISO/IEC''
      else if afe = 1 then ''01 No Adaptation_field, payload only''
      else if afe = 2 then ''10 Adaptation_field only, no payload''
      else if afe = 3 then ''11 Adaptation_field followed by payload''
      else ''Unknown value'')"

text \<open>The pointer to the adaptation field is dereferenced when the control bits are 2 or 3.\<close>

definition printHeader :: "ts_packet \<Rightarrow> string option" where
  "printHeader p = do {
     let afe = adaptationFieldExist p;
     adf \<leftarrow> (if afe = 2 \<or> afe = 3 then do { a \<leftarrow> getAdaptationField p; printAdaptationField a } else Some []);
     db \<leftarrow> data_byte p;
     Some (line [tabs 1, ''transport_packet() {''] @
       line [tabs 2, ''sync_byte: 0x47''] @
       field 2 ''transport_error_indicator'' (bit01 (TEI p)) @
       field 2 ''payload_unit_start_indicator'' (bit01 (payloadUnitStart p)) @
       field 2 ''transport_priority'' (bit01 (transportPriority p)) @
       field 2 ''PID'' (decw (PID p)) @
       field 2 ''transport_scrambling_control'' (decw (scramblingControl p)) @
       field 2 ''adaptation_field_control'' (afe_text afe) @
       field 2 ''continuity_counter'' (decw (cc p)) @
       adf @
       (if db \<noteq> 0 then field 2 ''data_byte'' (decw db) else [])) }"

section \<open>Tables\<close>

definition program_text :: "u16 \<times> u16 \<Rightarrow> string" where
  "program_text e = field 4 ''program_number'' (decw (snd e)) @ field 4 ''PID'' (decw (fst e))"

definition printPAT :: "pat \<Rightarrow> string" where
  "printPAT t =
     line [tabs 2, ''program_association_section() {''] @
     field 3 ''pointer_field'' (decw (pat_pointer_field t)) @
     line [tabs 3, ''table_id: 0 (Program Association Section)''] @
     field 3 ''section_length'' (decw (pat_section_length t)) @
     field 3 ''transport_stream_id'' (decw (pat_transport_stream_id t)) @
     field 3 ''version_number'' (decw (pat_version_number t)) @
     field 3 ''current_next_indicator'' (bit01 (pat_current_next_indicator t)) @
     field 3 ''section_number'' (decw (pat_section_number t)) @
     field 3 ''last_section_number'' (decw (pat_last_section_number t)) @
     line [tabs 3, ''programs() {''] @
     concat (map program_text (pid_to_program t)) @
     line [tabs 3, ''}''] @
     field 3 ''CRC_32'' (''0x'' @ hex (unat (pat_CRC_32 t))) @
     line [tabs 2, ''}'']"

text \<open>\<open>descriptor() { ... }\<close> at depth \<open>n\<close>, for each descriptor of a list.\<close>

fun printDescriptors :: "nat \<Rightarrow> descriptor list \<Rightarrow> string option" where
  "printDescriptors n [] = Some []"
| "printDescriptors n (d # ds) = do {
     t \<leftarrow> printDescriptorValue d (n + 1);
     rest \<leftarrow> printDescriptors n ds;
     Some (line [tabs n, ''descriptor() {''] @ t @ line [tabs n, ''}''] @ rest) }"

definition printElement :: "program_element \<Rightarrow> string option" where
  "printElement pe = do {
     ds \<leftarrow> printDescriptors 5 (descriptors pe);
     Some (line [tabs 4, ''{''] @
       field 5 ''stream_type'' (''0x'' @ hex2 (stream_type pe) @ '' ('' @ getStreamTypeDescription (ucast (stream_type pe)) @ '')'') @
       field 5 ''telementary_PID'' (decw (elementary_PID pe)) @
       field 5 ''ES_info_length'' (decw (ES_info_length pe)) @
       ds @ line [tabs 4, ''}'']) }"

fun printElements :: "program_element list \<Rightarrow> string option" where
  "printElements [] = Some []"
| "printElements (pe # pes) = do { t \<leftarrow> printElement pe; rest \<leftarrow> printElements pes; Some (t @ rest) }"

definition printPMT :: "pmt \<Rightarrow> string option" where
  "printPMT s = do {
     pf \<leftarrow> pmt_pointer_field s;
     ti \<leftarrow> pmt_table_id s;
     ss \<leftarrow> section_syntax_indicator s;
     sl \<leftarrow> pmt_section_length s;
     pn \<leftarrow> program_number s;
     vn \<leftarrow> pmt_version_number s;
     cn \<leftarrow> pmt_current_next_indicator s;
     sn \<leftarrow> pmt_section_number s;
     ls \<leftarrow> pmt_last_section_number s;
     pcr \<leftarrow> PCR_PID s;
     pil \<leftarrow> programInfoLength s;
     infos \<leftarrow> (if pil > 0 then printDescriptors 4 (program_info s) else Some []);
     elements \<leftarrow> printElements (program_elmts s);
     Some (line [tabs 2, ''TS_program_map_section() {''] @
       field 3 ''pointer_field'' (decw pf) @
       field 3 ''table_id'' (decw ti) @
       field 3 ''section_syntax_indicator'' (bit01 ss) @
       field 3 ''section_length'' (decw sl) @
       field 3 ''program_number'' (decw pn) @
       field 3 ''version_number'' (decw vn) @
       field 3 ''current_next_indicator'' (bit01 cn) @
       field 3 ''section_number'' (decw sn) @
       field 3 ''last_section_number'' (decw ls) @
       field 3 ''PCR_PID'' (decw pcr) @
       field 3 ''program_info_length'' (decw pil) @
       line [tabs 3, ''program_info() {''] @ infos @ line [tabs 3, ''}''] @
       line [tabs 3, ''program_elements() {''] @ elements @ line [tabs 3, ''}''] @
       field 3 ''CRC_32'' (''0x'' @ hex (unat (pmt_CRC_32 s))) @
       line [tabs 2, ''}'']) }"

section \<open>PES packet\<close>

text \<open>\<open>PESPacket::ptsInSeconds\<close> and \<open>dtsInSeconds\<close>: the double nearest to the quotient.\<close>

definition ptsInSeconds :: "pes \<Rightarrow> nat \<times> nat" where
  "ptsInSeconds p =
     (let value = pes_flags2 p AND 0xC0 in
      if value = 0xC0 \<or> value = 0x80 then to_double (unat (pts p)) 90000 else (0, 1))"

definition dtsInSeconds :: "pes \<Rightarrow> nat \<times> nat" where
  "dtsInSeconds p =
     (let value = pes_flags2 p AND 0xC0 in
      if value = 0xC0 then to_double (unat (dts p)) 90000 else (0, 1))"

definition stamp_text :: "u64 \<Rightarrow> nat \<times> nat \<Rightarrow> string" where
  "stamp_text t v = decw t @ ''/90-kHz = '' @ g12 v @ '' seconds''"

definition printPES :: "pes \<Rightarrow> string" where
  "printPES p =
     (let f1 = pes_flags1 p; f2 = pes_flags2 p; pts_dts_flag = f2 AND 0xC0 in
      line [tabs 2, ''PES_packet() {''] @
      field 3 ''packet_start_code_prefix'' ''0x000001'' @
      field 3 ''stream_id'' (''0x'' @ hex_upper (unat (pes_stream_id p)) @ '' ('' @ getStreamIdDescription (pes_stream_id p) @ '')'') @
      field 3 ''PES_packet_length'' (decw (PES_packet_length p)) @
      field 3 ''PES_scrambling_control'' (yes_no (f1 AND 0x30 \<noteq> 0)) @
      field 3 ''PES_priority'' (yes_no (f1 AND 0x08 \<noteq> 0)) @
      field 3 ''data_alignment_indicator'' (yes_no (f1 AND 0x04 \<noteq> 0)) @
      field 3 ''copyright'' (yes_no (f1 AND 0x02 \<noteq> 0)) @
      field 3 ''original_or_copy'' (yes_no (f1 AND 0x01 \<noteq> 0)) @
      field 3 ''PTS_DTS_flags'' (''0x'' @ hex (unat pts_dts_flag)) @
      field 3 ''ESCR_flag'' (yes_no (f2 AND 0x20 \<noteq> 0)) @
      field 3 ''ES_rate_flag'' (yes_no (f2 AND 0x10 \<noteq> 0)) @
      field 3 ''DSM_trick_mode_flag'' (yes_no (f2 AND 0x08 \<noteq> 0)) @
      field 3 ''additional_copy_info_flag'' (yes_no (f2 AND 0x04 \<noteq> 0)) @
      field 3 ''PES_CRC_flag'' (yes_no (f2 AND 0x02 \<noteq> 0)) @
      field 3 ''PES_extension_flag'' (yes_no (f2 AND 0x01 \<noteq> 0)) @
      field 3 ''PES_header_data_length'' (decw (PES_header_data_length p)) @
      (if pts_dts_flag > 0 then
         if pts_dts_flag = 0xC0 then
           field 3 ''PTS'' (stamp_text (pts p) (ptsInSeconds p)) @ field 3 ''DTS'' (stamp_text (dts p) (dtsInSeconds p))
         else if pts_dts_flag = 0x80 then field 3 ''PTS'' (stamp_text (pts p) (ptsInSeconds p))
         else []
       else []) @
      line [tabs 2, ''}''])"

section \<open>The output of the decoder\<close>

fun event_text :: "dec_event \<Rightarrow> string option" where
  "event_text Open = Some (line [''MPEG_transport_stream() {''])"
| "event_text (Header p) = printHeader p"
| "event_text (PAT t) = Some (printPAT t)"
| "event_text NIT = Some (line [tabs 2, ''Network_information_table() { }''])"
| "event_text (PMT s) = printPMT s"
| "event_text (PES p) = Some (printPES p)"
| "event_text Close_packet = Some (line [tabs 1, ''}''])"

fun events_text :: "dec_event list \<Rightarrow> string option" where
  "events_text [] = Some []"
| "events_text (x # xs) = do { t \<leftarrow> event_text x; rest \<leftarrow> events_text xs; Some (t @ rest) }"

text \<open>The destructor of the decoder writes the last line.\<close>

definition output_text :: "decoder \<Rightarrow> string option" where
  "output_text d = do { t \<leftarrow> events_text (dec_out d); Some (t @ line [''}'']) }"

section \<open>What is always printed\<close>

lemma printPCR_defined:
  "12 \<le> length d \<Longrightarrow> \<exists>t. printPCR (af_of d) = Some t"
  by (simp add: printPCR_def PCR_flag_def af_flag_of af_length_of getPCR_of)

lemma printAdaptationField_defined:
  assumes "12 \<le> length d"
  shows "\<exists>t. printAdaptationField (af_of d) = Some t"
proof -
  obtain t where "printPCR (af_of d) = Some t" using printPCR_defined [OF assms] by blast
  then show ?thesis using assms
    by (simp add: printAdaptationField_def af_flag_defs af_flag_of af_length_of)
qed

lemma printHeader_defined:
  assumes "wf_packet p"
  shows "\<exists>t. printHeader p = Some t"
proof -
  obtain a where "printAdaptationField (af_of (pk_data p)) = Some a"
    using printAdaptationField_defined [of "pk_data p"] assms by (auto simp: wf_packet_def)
  moreover obtain b where "data_byte p = Some b" using data_byte_ex [OF assms] by blast
  ultimately show ?thesis
    by (simp add: printHeader_def getAdaptationField_def af_parse_eq Let_def)
qed

section \<open>Program map tables\<close>

definition unprintable :: "descriptor \<Rightarrow> bool" where
  "unprintable d \<longleftrightarrow> last_position d < length (dvalue d)"

definition all_descriptors :: "pmt \<Rightarrow> descriptor list" where
  "all_descriptors s = program_info s @ concat (map descriptors (program_elmts s))"

lemma printDescriptors_iff:
  "list_all wf_descriptor ds \<Longrightarrow> printDescriptors n ds = None \<longleftrightarrow> list_ex unprintable ds"
proof (induction ds)
  case (Cons d ds)
  then have "printDescriptorValue d (n + 1) = None \<longleftrightarrow> unprintable d"
    by (simp add: printDescriptorValue_iff(1) wf_descriptor_def unprintable_def)
  then show ?case using Cons by (auto simp: bind_eq_None_conv)
qed simp

lemma printElements_iff:
  "list_all fits_element pes \<Longrightarrow> printElements pes = None \<longleftrightarrow> list_ex unprintable (concat (map descriptors pes))"
proof (induction pes)
  case (Cons pe pes)
  then have "list_all wf_descriptor (descriptors pe)" by (simp add: fits_element_def)
  then have "printElement pe = None \<longleftrightarrow> list_ex unprintable (descriptors pe)"
    by (simp add: printElement_def bind_eq_None_conv printDescriptors_iff)
  then show ?case using Cons by (auto simp: bind_eq_None_conv)
qed simp

text \<open>The fields of the fixed part can be read, whatever the buffer holds.\<close>

lemma printPMT_fields:
  assumes "wf_pmt s"
  shows "printPMT (s\<lparr>pmt_buffer := buf\<rparr>) = None \<longleftrightarrow>
    program_info s \<noteq> [] \<and> printDescriptors 4 (program_info s) = None \<or> printElements (program_elmts s) = None"
proof -
  note w = wf_pmt_parts [OF assms]
  let ?s = "s\<lparr>pmt_buffer := buf\<rparr>"
  obtain n1 n2 v sn lsn p1 p2 where mid: "pmt_mid s = [n1, n2, v, sn, lsn, p1, p2]"
    using w(3) by (auto simp: length_Suc_conv eval_nat_numeral)
  have hdr: "pmt_hdr ?s = [0, 2, hi8 (word_of_nat (pmt_len s)) OR 0xB0, lo8 (word_of_nat (pmt_len s)), n1, n2, v, sn, lsn,
      p1, p2, hi8 (word_of_nat (length (dbytes (program_info s)))) OR 0xF0, lo8 (word_of_nat (length (dbytes (program_info s))))]"
    using w(4) mid by (simp add: pmt_fixed_def)
  have small: "length (dbytes (program_info s)) < 1024" using fits_pmt_info [OF w(1)] by simp
  have "pmt_hdr ?s = pmt_fixed (pmt_len s) (pmt_mid s) (length (dbytes (program_info s)))" using w(4) by simp
  from programInfoLength_fixed [OF this w(3) small]
  have pil: "programInfoLength ?s = Some (word_of_nat (length (dbytes (program_info s))))" .
  have "unat (word_of_nat (length (dbytes (program_info s))) :: u16) = length (dbytes (program_info s))"
    using small by (intro unat_of_nat_small) simp
  then have "(0 :: u16) < word_of_nat (length (dbytes (program_info s))) \<longleftrightarrow> dbytes (program_info s) \<noteq> []"
    by (simp add: word_less_nat_alt)
  moreover have "dbytes (program_info s) \<noteq> [] \<longleftrightarrow> program_info s \<noteq> []"
    by (cases "program_info s") (simp_all add: dbytes_def)
  ultimately have pos: "(0 :: u16) < word_of_nat (length (dbytes (program_info s))) \<longleftrightarrow> program_info s \<noteq> []" by simp
  have "\<exists>l. pmt_section_length ?s = Some l"
    by (simp add: pmt_section_length_def hdr rd16_def)
  then obtain l where "pmt_section_length ?s = Some l" by blast
  then show ?thesis
    by (auto simp: printPMT_def pil pos bind_eq_None_conv pmt_pointer_field_def pmt_table_id_def
        section_syntax_indicator_def program_number_def pmt_version_number_def pmt_current_next_indicator_def
        pmt_section_number_def pmt_last_section_number_def PCR_PID_def hdr8_def hdr16_def hdr rd16_def Let_def)
qed

lemma wf_pmt_descriptors: "wf_pmt s \<Longrightarrow> x \<in> set (all_descriptors s) \<Longrightarrow> wf_descriptor x"
  using wf_pmt_parts(1) [of s] by (auto simp: all_descriptors_def fits_pmt_def fits_element_def list_all_iff)

lemma printPMT_iff:
  assumes "wf_pmt s"
  shows "printPMT (s\<lparr>pmt_buffer := buf\<rparr>) = None \<longleftrightarrow> list_ex unprintable (all_descriptors s)"
proof -
  have "list_all wf_descriptor (program_info s)" "list_all fits_element (program_elmts s)"
    using wf_pmt_parts(1) [OF assms] by (simp_all add: fits_pmt_def)
  then have "printDescriptors 4 (program_info s) = None \<longleftrightarrow> list_ex unprintable (program_info s)"
    and "printElements (program_elmts s) = None \<longleftrightarrow> list_ex unprintable (concat (map descriptors (program_elmts s)))"
    by (simp_all only: printDescriptors_iff printElements_iff)
  moreover have "program_info s = [] \<longrightarrow> \<not> list_ex unprintable (program_info s)" by simp
  ultimately show ?thesis
    unfolding printPMT_fields [OF assms] all_descriptors_def list_ex_append by argo
qed

section \<open>The output as a whole\<close>

fun header_wf :: "dec_event \<Rightarrow> bool" where
  "header_wf (Header p) = wf_packet p"
| "header_wf _ = True"

definition headers_wf :: "decoder \<Rightarrow> bool" where
  "headers_wf d \<longleftrightarrow> list_all header_wf (dec_out d)"

lemma headers_wf_simps [simp]:
  "headers_wf (emit x d) \<longleftrightarrow> headers_wf d \<and> header_wf x"
  "headers_wf (d\<lparr>dec_pmt := s\<rparr>) = headers_wf d" "headers_wf (d\<lparr>dec_pat := t\<rparr>) = headers_wf d"
  "headers_wf new_decoder"
  by (auto simp: headers_wf_def emit_def new_decoder_def)

lemma onPacket_headers: "onPacket d p = Some d' \<Longrightarrow> wf_packet p \<Longrightarrow> headers_wf d \<Longrightarrow> headers_wf d'"
  by (auto simp: onPacket_def Let_def split: bind_splits if_splits option.splits)

lemma feed_headers:
  "list_all is_ts ps \<Longrightarrow> feed onPacket ps d = Some d' \<Longrightarrow> headers_wf d \<Longrightarrow> headers_wf d'"
proof (induction ps arbitrary: d)
  case (Cons b ps)
  then obtain d1 where d1: "onPacket d (pkt b) = Some d1" "feed onPacket ps d1 = Some d'"
    by (auto split: bind_splits)
  have "wf_packet (pkt b)" using Cons.prems(1) by (simp add: is_ts_def wf_packet_def)
  then show ?case using Cons.IH [OF _ d1(2)] onPacket_headers [OF d1(1)] Cons.prems by simp
qed simp

lemma events_text_iff:
  "list_all header_wf evs \<Longrightarrow> events_text evs = None \<longleftrightarrow> (\<exists>s. PMT s \<in> set evs \<and> printPMT s = None)"
proof (induction evs)
  case (Cons e evs)
  show ?case
  proof (cases e)
    case (Header p)
    then obtain t where "printHeader p = Some t" using Cons.prems printHeader_defined by auto
    then show ?thesis using Cons Header by (auto simp: bind_eq_None_conv)
  qed (use Cons in \<open>auto simp: bind_eq_None_conv\<close>)
qed simp

lemma output_text_iff:
  assumes "headers_wf d"
  shows "output_text d = None \<longleftrightarrow> (\<exists>s. PMT s \<in> set (tables d) \<and> printPMT s = None)"
  using events_text_iff [of "dec_out d"] assms
  by (auto simp: output_text_def headers_wf_def tables_def bind_eq_None_conv)

section \<open>Properties\<close>

lemma pcr_base_ext:
  assumes "b = [b0, b1, b2, b3, b4, b5]"
  shows "unat (pcr_value b) = unat (pcr_base b) * 300 + unat (pcr_ext b) +
    (if bit b4 7 then 300 else 0) + (if bit b4 0 then 256 else 0)"
proof -
  define hi lo :: u64 where "hi = drop_bit 7 (ucast b4)" and "lo = push_bit 8 (ucast b4 AND 1)"
  have hi: "hi = (if bit b4 7 then 1 else 0)"
  proof (rule bit_word_eqI)
    fix n
    show "bit hi n \<longleftrightarrow> bit (if bit b4 7 then 1 else 0 :: u64) n"
      by (cases n) (auto simp: hi_def bit_simps bit_1_iff)
  qed
  have lo: "lo = (if bit b4 0 then 256 else 0)"
    unfolding lo_def by (rule bit_word_eqI) (auto simp: bit_simps word_bits bit_1_iff)
  have base: "bit (pcr_base b) n \<Longrightarrow> 0 < n \<and> n < 33" for n
    by (auto simp: pcr_base_def assms bit_simps bit_u64_double dest: bit_imp_le_length)
  have "take_bit 33 (unat (pcr_base b)) = unat (pcr_base b)"
    by (rule bit_eqI) (auto simp: bit_simps bit_unsigned_iff dest: base)
  then have small: "unat (pcr_base b) < 2 ^ 33" by (metis take_bit_nat_eq_self_iff)
  have ext: "ucast (pcr_ext b) = (ucast b5 :: u64)" "unat (pcr_ext b) = unat b5"
  proof -
    have e: "bit (2 ^ k :: int) n \<longleftrightarrow> n = k" for k n by (auto simp: bit_exp_iff)
    have "bit (512 :: int) n \<longleftrightarrow> n = 9" for n using e [of 9 n] by simp
    then have "pcr_ext b = ucast b5"
      by (intro bit_word_eqI) (auto simp: pcr_ext_def assms bit_simps)
    then show "unat (pcr_ext b) = unat b5" by (simp add: unat_ucast_u8_u16)
    show "ucast (pcr_ext b) = (ucast b5 :: u64)"
      unfolding \<open>pcr_ext b = ucast b5\<close> by (rule bit_word_eqI) (auto simp: bit_simps dest: bit_imp_le_length)
  qed
  have "pcr_value b = (pcr_base b OR hi) * 300 + (lo OR ucast b5)"
    by (simp add: pcr_value_def pcr_base_def assms hi_def lo_def or.assoc)
  also have "pcr_base b OR hi = pcr_base b + hi"
    using base by (intro disjunctive_add [symmetric]) (auto simp: hi bit_1_iff)
  also have "lo OR ucast b5 = lo + (ucast b5 :: u64)"
    by (intro disjunctive_add [symmetric]) (auto simp: lo bit_simps word_bits)
  finally have v: "pcr_value b = (pcr_base b + hi) * 300 + (lo + ucast b5)" .
  have b5: "unat (ucast b5 :: u64) = unat b5" "unat b5 < 256"
    using unsigned_less [of b5, where 'a = nat]
    by (simp_all, intro bit_eqI) (auto simp: bit_simps bit_unsigned_iff dest: bit_imp_le_length)
  define m where "m = (unat (pcr_base b) + unat hi) * 300 + (unat lo + unat b5)"
  have "pcr_value b = word_of_nat m"
    unfolding v m_def by (simp add: b5(1) [symmetric])
  moreover have "m < 2 ^ 64" using small b5(2) by (auto simp: m_def hi lo)
  ultimately have "unat (pcr_value b) = m" by (simp only: unat_of_nat_small len_of_numeral_defs) simp
  then show ?thesis by (auto simp: m_def hi lo ext(2))
qed

text \<open>
  Property C40. The PCR that the command prints is not the one in the packet: \<open>printPCR\<close> leaves out the lowest
  bit of the base and the highest bit of the extension. It prints a value that is too small by 300 when
  the first is set and by 256 more when the second is.
\<close>

theorem printed_pcr_too_small:
  assumes "12 \<le> length d" "d ! 5 AND 0x10 \<noteq> 0" "d ! 4 \<noteq> 0"
  shows "\<exists>base ext. printPCR (af_of d) = Some (pcr_text base ext) \<and>
    unat (pcr_value (take 6 (drop 6 d))) =
      base * 300 + ext + (if bit (d ! 10) 7 then 300 else 0) + (if bit (d ! 10) 0 then 256 else 0)"
proof -
  define b where "b = take 6 (drop 6 d)"
  have "length b = 6" using assms(1) by (simp add: b_def)
  then obtain b0 b1 b2 b3 b4 b5 where b: "b = [b0, b1, b2, b3, b4, b5]"
    by (auto simp: length_Suc_conv eval_nat_numeral)
  have "b4 = b ! 4" by (simp add: b)
  then have b4: "b4 = d ! 10" using assms(1) by (simp add: b_def)
  have "(0 :: u16) < ucast (d ! 4)"
    using assms(3) by (simp add: word_less_nat_alt unat_ucast_u8_u16 unat_gt_0)
  then have "printPCR (af_of d) = Some (pcr_text (unat (pcr_base b)) (unat (pcr_ext b)))"
    using assms by (simp add: printPCR_def PCR_flag_def af_flag_of af_length_of getPCR_of b_def)
  then show ?thesis using pcr_base_ext [OF b] unfolding b4 b_def by blast
qed

theorem printed_pcr_too_small_witness:
  "\<exists>base ext. printPCR (af_of [0x47, 0, 0, 0x30, 7, 0x10, 0, 0, 0, 1, 0xFF, 0x2B]) = Some (pcr_text base ext) \<and>
    unat (pcr_value [0, 0, 0, 1, 0xFF, 0x2B]) = base * 300 + ext + 300 + 256"
  using printed_pcr_too_small [of "[0x47, 0, 0, 0x30, 7, 0x10, 0, 0, 0, 1, 0xFF, 0x2B]"]
  by (simp add: bit_iff_odd_drop_bit drop_bit_eq_div)

end
