(* ===== verification/Command.thy ===== *)
theory Command
  imports Ts_Writer
begin

text \<open>
  The command as a whole (\<open>main.cpp\<close>): its options, the streams it opens, the read loop with the limit on
  the number of packets, and what it writes to the console, to the error stream and to the output file.

  An argument is the list of its characters. The file system is a parameter: \<open>open_in\<close> gives the bytes of a
  file that can be opened for reading, \<open>can_write\<close> says which can be opened for writing. The output file
  is not the input file.
\<close>

section \<open>std::stoi\<close>

datatype stoi_error = Invalid_argument | Out_of_range

definition isspace :: "char \<Rightarrow> bool" where
  "isspace ch \<longleftrightarrow> ch = CHR '' '' \<or> of_char ch \<in> {9..(13 :: nat)}"

definition isdigit :: "char \<Rightarrow> bool" where
  "isdigit ch \<longleftrightarrow> of_char ch \<in> {48..(57 :: nat)}"

definition digits_value :: "string \<Rightarrow> nat" where
  "digits_value ds = foldl (\<lambda>n ch. 10 * n + (of_char ch - 48)) 0 ds"

text \<open>White space, a sign, digits; what follows is ignored.\<close>

definition stoi :: "string \<Rightarrow> stoi_error + int" where
  "stoi s =
     (let s = dropWhile isspace s;
          neg = (take 1 s = ''-'');
          s = (if take 1 s = ''-'' \<or> take 1 s = ''+'' then drop 1 s else s);
          ds = takeWhile isdigit s;
          n = (if neg then - int (digits_value ds) else int (digits_value ds))
      in if ds = [] then Inl Invalid_argument
         else if n < - (2 ^ 31) \<or> 2 ^ 31 \<le> n then Inl Out_of_range
         else Inr n)"

section \<open>Options\<close>

record options =
  ifile :: string
  ofile :: string
  limit :: int
  packet_size :: int

definition default_options :: options where
  "default_options = \<lparr>ifile = [], ofile = [], limit = 1000, packet_size = 188\<rparr>"

text \<open>How the loop over the arguments ends: going on, after \<open>-?\<close>, at an unknown option, in an exception.\<close>

datatype parsed =
    Run options
  | Usage
  | Illegal char
  | Uncaught stoi_error

fun parse_args :: "options \<Rightarrow> string list \<Rightarrow> parsed" where
  "parse_args opts [] = Run opts"
| "parse_args opts (arg # args) =
     (if take 1 arg = ''-'' then
        let c = (if length arg = 1 then CHR 0x00 else arg ! 1);
            rest = drop 2 arg
        in if c = CHR ''i'' then parse_args (opts\<lparr>ifile := rest\<rparr>) args
           else if c = CHR ''o'' then parse_args (opts\<lparr>ofile := rest\<rparr>) args
           else if c = CHR ''n'' then
             (case stoi rest of Inr n \<Rightarrow> parse_args (opts\<lparr>limit := n\<rparr>) args | Inl e \<Rightarrow> Uncaught e)
           else if c = CHR ''s'' then
             (case stoi rest of Inr n \<Rightarrow> parse_args (opts\<lparr>packet_size := n\<rparr>) args | Inl e \<Rightarrow> Uncaught e)
           else if c = CHR ''?'' then Usage
           else Illegal c
      else Run opts)"

definition usage :: string where
  "usage = ''Usage: mp2tp -i<MPEG_transport_stream_file> -n<Count> -o<Output_file> -s<TS_packet_size>''"

definition opts_text :: string where
  "opts_text =
     ''  -i'' @ tabs 1 @ ''Input MPEG transport stream file path or standard console in (default: console).'' @ [CHR 0x0A] @
     ''  -n'' @ tabs 1 @ ''The minimum number of TS packets to read from the input file before exiting.'' @ [CHR 0x0A] @
     ''    '' @ tabs 1 @ ''Set to zero to read all. (default: 1000).'' @ [CHR 0x0A] @
     ''  -o'' @ tabs 1 @ ''Optional output file name (default: console).'' @ [CHR 0x0A] @
     ''  -s'' @ tabs 1 @ ''TS Packet Size (default: 188).'' @ [CHR 0x0A] @
     ''  -?'' @ tabs 1 @ ''Print this message.''"

section \<open>main\<close>

text \<open>Exit code, console, error stream, and the output file with what was written to it.\<close>

datatype outcome =
    Exit int string string "(string \<times> string) option"
  | Exception stoi_error

definition show_int :: "int \<Rightarrow> string" where
  "show_int n = (if n < 0 then ''-'' @ dec (nat (- n)) else dec (nat n))"

fun diagnostic_text :: "string \<Rightarrow> diagnostic \<Rightarrow> string" where
  "diagnostic_text path Not_a_TS_file =
     line [''Error: '', getFilename path, '' is not a valid MPEG-2 TS file.'']"
| "diagnostic_text path (Parsing_error bytesRead) =
     line [''Error: '', ''Parsing error in file, '', getFilename path, '', when '', show_int bytesRead, '' bytes were read'']"

text \<open>\<open>createDecoder\<close>: where the decoder writes. A file that cannot be opened is replaced by the console.\<close>

definition createDecoder :: "(string \<Rightarrow> bool) \<Rightarrow> string \<Rightarrow> string option" where
  "createDecoder can_write outputFilename =
     (if outputFilename = [] then None
      else if can_write outputFilename then Some outputFilename
      else None)"

text \<open>\<open>main\<close> behind the options: \<open>cin\<close> is the standard input, \<open>mem\<close> what the array \<open>memblock\<close> holds at first.\<close>

definition run ::
  "(string \<Rightarrow> bytes option) \<Rightarrow> (string \<Rightarrow> bool) \<Rightarrow> bytes \<Rightarrow> bytes \<Rightarrow> options \<Rightarrow> outcome option" where
  "run open_in can_write cin mem opts =
     (case (if ifile opts = [] then Some cin else open_in (ifile opts)) of
        None \<Rightarrow> Some (Exit (-1) [] (line [''Error: Fail to open input file, '', getFilename (ifile opts), ''.'']) None)
      | Some input \<Rightarrow> do {
          let parser = setPacketSize new_parser (word_of_int (packet_size opts));
          (ds, code, parser, decoder) \<leftarrow> read_loop onPacket (limit opts) input mem 0 parser new_decoder;
          text \<leftarrow> output_text decoder;
          let cerr = concat (map (diagnostic_text (ifile opts)) ds) @
            (if code = 0 then line [''TS Packets Read: '', decw (packetCount parser)] else []);
          Some (case createDecoder can_write (ofile opts) of
              None \<Rightarrow> Exit code text cerr None
            | Some out \<Rightarrow> Exit code [] cerr (Some (out, text)))
        })"

definition main ::
  "(string \<Rightarrow> bytes option) \<Rightarrow> (string \<Rightarrow> bool) \<Rightarrow> bytes \<Rightarrow> bytes \<Rightarrow> string list \<Rightarrow> outcome option" where
  "main open_in can_write cin mem args =
     (case parse_args default_options args of
        Run opts \<Rightarrow> run open_in can_write cin mem opts
      | Usage \<Rightarrow> Some (Exit 0 (line [usage] @ line [] @ line [''Options: ''] @ line [opts_text]) [] None)
      | Illegal c \<Rightarrow> Some (Exit (-1) (line [''mp2tp: illegal option '', [c]]) [] None)
      | Uncaught e \<Rightarrow> Some (Exception e))"

section \<open>Decimal numbers\<close>

lemma digits_value_snoc: "digits_value (ds @ [ch]) = 10 * digits_value ds + (of_char ch - 48)"
  by (simp add: digits_value_def)

lemma digit_char:
  assumes "k < 10"
  shows "of_char (''0123456789'' ! k) = (48 + k :: nat)" and "isdigit (''0123456789'' ! k)"
proof -
  have "k \<in> {0, 1, 2, 3, 4, 5, 6, 7, 8, 9}" using assms by auto
  then show "of_char (''0123456789'' ! k) = (48 + k :: nat)" by auto
  then show "isdigit (''0123456789'' ! k)" using assms by (simp add: isdigit_def)
qed

lemma dec_digits: "list_all isdigit (dec n) \<and> dec n \<noteq> [] \<and> digits_value (dec n) = n"
  unfolding dec_def
proof (induction n rule: less_induct)
  case (less n)
  show ?case
  proof (cases "n < 10")
    case True
    then show ?thesis
      by (subst (1 2 3) digits_in.simps) (simp add: digit_char digits_value_def del: nth_Cons_numeral)
  next
    case False
    then have "n div 10 < n" "n mod 10 < 10" by simp_all
    with less.IH [of "n div 10"] digit_char [of "n mod 10"] False show ?thesis
      by (subst (1 2 3) digits_in.simps) (simp add: digits_value_snoc del: nth_Cons_numeral)
  qed
qed

lemma takeWhile_digits: "takeWhile isdigit (dec n) = dec n"
  using dec_digits [of n] by (simp add: list_all_iff)

lemma dec_first:
  obtains ch ds where "dec n = ch # ds" "isdigit ch"
  using dec_digits [of n] by (cases "dec n") auto

lemma stoi_show_int:
  assumes "- (2 ^ 31) \<le> n" "n < 2 ^ 31"
  shows "stoi (show_int n) = Inr n"
proof -
  obtain ch ds where d: "dec (nat \<bar>n\<bar>) = ch # ds" "isdigit ch" by (rule dec_first)
  have plain: "\<not> isspace ch" "ch \<noteq> CHR ''-''" "ch \<noteq> CHR ''+''" "\<not> isspace (CHR ''-'')"
    using d(2) by (auto simp: isdigit_def isspace_def)
  have v: "takeWhile isdigit (ch # ds) = ch # ds" "digits_value (ch # ds) = nat \<bar>n\<bar>"
    using takeWhile_digits [of "nat \<bar>n\<bar>"] dec_digits [of "nat \<bar>n\<bar>"] d(1) by simp_all
  show ?thesis
  proof (cases "n < 0")
    case True
    then show ?thesis using plain v d(1) assms
      by (simp add: stoi_def show_int_def Let_def del: takeWhile.simps takeWhile_eq_all_conv)
  next
    case False
    then show ?thesis using plain v d(1) assms
      by (simp add: stoi_def show_int_def Let_def del: takeWhile.simps takeWhile_eq_all_conv)
  qed
qed

section \<open>Command lines\<close>

text \<open>What a user can ask for, and how it is written.\<close>

datatype setting =
    Input string
  | Output string
  | Count int
  | Size int

fun arg_of :: "setting \<Rightarrow> string" where
  "arg_of (Input path) = ''-i'' @ path"
| "arg_of (Output path) = ''-o'' @ path"
| "arg_of (Count n) = ''-n'' @ show_int n"
| "arg_of (Size n) = ''-s'' @ show_int n"

fun is_int :: "setting \<Rightarrow> bool" where
  "is_int (Count n) = (- (2 ^ 31) \<le> n \<and> n < 2 ^ 31)"
| "is_int (Size n) = (- (2 ^ 31) \<le> n \<and> n < 2 ^ 31)"
| "is_int _ = True"

fun set_option :: "setting \<Rightarrow> options \<Rightarrow> options" where
  "set_option (Input path) opts = opts\<lparr>ifile := path\<rparr>"
| "set_option (Output path) opts = opts\<lparr>ofile := path\<rparr>"
| "set_option (Count n) opts = opts\<lparr>limit := n\<rparr>"
| "set_option (Size n) opts = opts\<lparr>packet_size := n\<rparr>"

lemma parse_args_settings:
  "list_all is_int settings \<Longrightarrow>
   parse_args opts (map arg_of settings @ args) = parse_args (fold set_option settings opts) args"
proof (induction settings arbitrary: opts)
  case (Cons x settings)
  then show ?case by (cases x) (simp_all add: stoi_show_int Let_def)
qed simp

section \<open>The limit on the number of packets\<close>

text \<open>
  How many more packets are read when \<open>m\<close> were read: whole blocks of seven, until their number is above the
  limit. A negative limit ends the loop after the first block.
\<close>

definition wanted :: "int \<Rightarrow> nat \<Rightarrow> nat" where
  "wanted n m = (if n < int m then 7 else 7 * (nat (n - int m) div 7 + 1))"

lemma wanted_step:
  "wanted n m = (if n < int (m + 7) then 7 else 7 + wanted n (m + 7))"
proof (cases "n < int (m + 7)")
  case True
  then show ?thesis by (auto simp: wanted_def)
next
  case False
  define k where "k = nat (n - int (m + 7))"
  have "nat (n - int m) = k + 7" using False by (simp add: k_def)
  moreover have "(k + 7) div 7 = k div 7 + 1" by simp
  ultimately show ?thesis using False by (simp add: wanted_def k_def [symmetric] del: of_nat_add)
qed

lemma sint_count: "k < 2 ^ 31 \<Longrightarrow> sint (ucast (word_of_nat k :: u64) :: u32) = int k"
  by (simp add: unsigned_of_nat take_bit_nat_eq_self signed_of_nat signed_take_bit_int_eq_self)

text \<open>The loop stops there, or goes on to the end of the input as if there were no limit.\<close>

lemma read_loop_limit:
  assumes "list_all is_ts ps" and "feed f ps c = Some c'" and "length mem = read_size"
    and "n \<noteq> 0" "n < 2 ^ 31 - 7" "int m \<le> max n 0"
  shows "\<exists>c1. feed f (take (wanted n m) ps) c = Some c1 \<and>
    read_loop f n (concat ps) mem b (std_parser (word_of_nat m) []) c =
      (if wanted n m \<le> length ps then Some ([], 0, std_parser (word_of_nat (m + wanted n m)) [], c1)
       else read_loop f 0 (concat ps) mem b (std_parser (word_of_nat m) []) c)"
  using assms
proof (induction "length ps" arbitrary: ps mem b m c rule: less_induct)
  case less
  have sz: "read_size = 188 * 7" by (simp add: read_size_def TS_SIZE_def)
  have some: "\<exists>c1. feed f (take j ps) c = Some c1" for j
    using less.prems(2) feed_append [of f "take j ps" "drop j ps" c] by (auto split: bind_splits)
  obtain c1 where c1: "feed f (take 7 ps) c = Some c1" "feed f (drop 7 ps) c1 = Some c'"
    using less.prems(2) feed_append [of f "take 7 ps" "drop 7 ps" c] by (auto split: bind_splits)
  have w: "7 \<le> wanted n m" by (simp add: wanted_def)
  consider "ps = []" | "ps \<noteq> []" "length ps < 7" | "7 \<le> length ps" by linarith
  then show ?case
  proof cases
    case 1
    have "read_loop f n [] mem b (std_parser (word_of_nat m) []) c =
        read_loop f 0 [] mem b (std_parser (word_of_nat m) []) c"
      using parse_empty_chunk [of f mem "word_of_nat m" c] by (subst (1 2) read_loop.simps) (simp add: sz)
    then show ?thesis using 1 w by simp
  next
    case 2
    note block = read_block [OF less.prems(1) 2(1) c1(1) less.prems(3)]
    show ?thesis using 2(2) w some [of "wanted n m"] block [of n b] block [of 0 b] by simp
  next
    case 3
    define qs where "qs = drop 7 ps"
    have ps: "ps \<noteq> []" "length qs < length ps" "length ps = 7 + length qs" using 3 by (auto simp: qs_def)
    have ts: "list_all is_ts qs" "length (concat (take 7 ps)) = read_size"
      using less.prems(1) length_concat_is_ts [of "take 7 ps"] 3
      by (auto simp: qs_def list_all_iff sz dest: in_set_dropD in_set_takeD)
    have m7: "word_of_nat m + 7 = (word_of_nat (m + 7) :: u64)"
      and k7: "word_of_nat m + word_of_nat (min 7 (length ps)) = (word_of_nat (m + 7) :: u64)"
      using 3 by simp_all
    have count: "sint (ucast (word_of_nat (m + 7) :: u64) :: u32) = int (m + 7)"
      using sint_count [of "m + 7"] less.prems(5,6) by (auto simp: max_def split: if_splits)
    have block: "read_loop f l (concat ps) mem b (std_parser (word_of_nat m) []) c =
        (if canStop (int (m + 7)) l then Some ([], 0, std_parser (word_of_nat (m + 7)) [], c1)
         else read_loop f l (concat qs) (concat (take 7 ps)) (b + int read_size) (std_parser (word_of_nat (m + 7)) []) c1)" for l
      using read_block [OF less.prems(1) ps(1) c1(1) less.prems(3), of l b "word_of_nat m"] 3
      unfolding k7 m7 count qs_def by simp
    have stop: "canStop (int (m + 7)) n \<longleftrightarrow> n < int (m + 7)" "\<not> canStop (int (m + 7)) 0"
      using less.prems(4) by (simp_all add: canStop_def)
    show ?thesis
    proof (cases "n < int (m + 7)")
      case True
      then have "wanted n m = 7" by (simp add: wanted_step [of n m])
      then show ?thesis using 3 c1(1) block [of n] stop(1) True by simp
    next
      case False
      then have next_m: "int (m + 7) \<le> max n 0" and w7: "wanted n m = 7 + wanted n (m + 7)"
        by (simp_all add: wanted_step [of n m])
      obtain c2 where c2: "feed f (take (wanted n (m + 7)) qs) c1 = Some c2"
        "read_loop f n (concat qs) (concat (take 7 ps)) (b + int read_size) (std_parser (word_of_nat (m + 7)) []) c1 =
          (if wanted n (m + 7) \<le> length qs then Some ([], 0, std_parser (word_of_nat (m + 7 + wanted n (m + 7))) [], c2)
           else read_loop f 0 (concat qs) (concat (take 7 ps)) (b + int read_size) (std_parser (word_of_nat (m + 7)) []) c1)"
        using less.hyps [OF ps(2) ts(1) c1(2) [folded qs_def] ts(2) less.prems(4,5) next_m] by blast
      have "take (7 + wanted n (m + 7)) ps = take 7 ps @ take (wanted n (m + 7)) qs" by (simp add: take_add qs_def)
      then have "feed f (take (wanted n m) ps) c = Some c2" using c1(1) c2(1) by (simp add: w7 feed_append)
      then show ?thesis
        using block [of n] block [of 0] stop False c2(2) unfolding w7 ps(3)
        by (simp add: add.assoc del: of_nat_add)
    qed
  qed
qed

section \<open>The command on a file of whole packets\<close>

lemma default_parser: "setPacketSize new_parser (word_of_int 188) = std_parser 0 []"
  by (simp add: setPacketSize_def new_parser_def std_parser_def)

definition packets_read :: "nat \<Rightarrow> string" where
  "packets_read k = line [''TS Packets Read: '', dec k]"

lemma packets_read_count: "k < 2 ^ 64 \<Longrightarrow> line [''TS Packets Read: '', decw (packetCount (std_parser (word_of_nat k) []))] = packets_read k"
  by (simp add: packets_read_def decw_def packetCount_def take_bit_nat_eq_self)

definition sent_to :: "string option \<Rightarrow> int \<Rightarrow> string \<Rightarrow> string \<Rightarrow> outcome" where
  "sent_to file code text cerr =
     (case file of None \<Rightarrow> Exit code text cerr None | Some path \<Rightarrow> Exit code [] cerr (Some (path, text)))"

lemma run_read_loop:
  assumes "(if ifile opts = [] then Some cin else open_in (ifile opts)) = Some input" and "packet_size opts = 188"
    and "read_loop onPacket (limit opts) input mem 0 (std_parser 0 []) new_decoder =
      Some (ds, code, std_parser (word_of_nat k) [], d)" "k < 2 ^ 64"
  shows "run open_in can_write cin mem opts = do {
    text \<leftarrow> output_text d;
    Some (sent_to (createDecoder can_write (ofile opts)) code text
      (concat (map (diagnostic_text (ifile opts)) ds) @ (if code = 0 then packets_read k else []))) }"
  using assms(1)
  unfolding run_def assms(2) default_parser Let_def sent_to_def packets_read_count [OF assms(4), symmetric]
  by (simp add: assms(3))

lemma main_file:
  assumes "open_in path = Some input" "path \<noteq> []" and "- (2 ^ 31) \<le> n" "n < 2 ^ 31"
    and "read_loop onPacket n input mem 0 (std_parser 0 []) new_decoder = Some ([], 0, std_parser (word_of_nat k) [], d)"
    and "k < 2 ^ 64"
  shows "main open_in can_write cin mem [''-i'' @ path, ''-n'' @ show_int n] =
    do { text \<leftarrow> output_text d; Some (Exit 0 text (packets_read k) None) }"
proof -
  define opts where "opts = fold set_option [Input path, Count n] default_options"
  have opts: "ifile opts = path" "packet_size opts = 188" "limit opts = n" "ofile opts = []"
    by (simp_all add: opts_def default_options_def)
  have "main open_in can_write cin mem [''-i'' @ path, ''-n'' @ show_int n] = run open_in can_write cin mem opts"
    using parse_args_settings [of "[Input path, Count n]" default_options "[]"] assms(3,4)
    by (simp add: main_def opts_def)
  then show ?thesis
    using run_read_loop [of opts cin open_in input mem "[]" 0 k d can_write] assms
    by (simp add: opts sent_to_def createDecoder_def)
qed

section \<open>Properties\<close>

text \<open>
  Property C33. The options of the command are read back as they were meant: a list of settings, written one
  behind the other, sets every option to the last value given for it, numbers over the whole range of
  \<open>int\<close>; the first argument without a dash ends the options. A value for \<open>-n\<close> or \<open>-s\<close> that is not a number, or
  not an \<open>int\<close>, ends the command in an exception that nothing catches.
\<close>

theorem command_line_read:
  assumes "list_all is_int settings" and "args = [] \<or> take 1 (hd args) \<noteq> ''-''"
    and "stoi v = Inl e" "ch \<in> {CHR ''n'', CHR ''s''}"
  shows "main open_in can_write cin mem (map arg_of settings @ args) =
      run open_in can_write cin mem (fold set_option settings default_options) \<and>
    main open_in can_write cin mem (map arg_of settings @ (CHR ''-'' # ch # v) # rest) = Some (Exception e)"
proof -
  note parsed = parse_args_settings [OF assms(1), of default_options]
  have "parse_args opts args = Run opts" for opts
    using assms(2) by (cases args) (simp_all add: Let_def)
  moreover have "parse_args opts ((CHR ''-'' # ch # v) # rest) = Uncaught e" for opts
    using assms(3,4) by auto
  ultimately show ?thesis by (simp only: main_def parsed parsed.simps)
qed

theorem command_line_read_witness:
  "main (\<lambda>_. None) (\<lambda>_. False) [] [] [''-ia.ts'', ''-n-5'', ''-n7''] =
    run (\<lambda>_. None) (\<lambda>_. False) [] [] (default_options\<lparr>ifile := ''a.ts'', limit := 7\<rparr>) \<and>
   main (\<lambda>_. None) (\<lambda>_. False) [] [] [''-ia.ts'', ''-n-5'', ''-n7'', ''-s2147483648''] = Some (Exception Out_of_range)"
  using command_line_read [of "[Input ''a.ts'', Count (- 5), Count 7]" "[]" "''2147483648''" Out_of_range "CHR ''s''"
      "\<lambda>_. None" "\<lambda>_. False" "[]" "[]" "[]"]
  by (simp add: show_int_def dec_def digits_in.simps stoi_def isspace_def isdigit_def digits_value_def)

text \<open>
  Property C18. With \<open>-n\<close> and a number \<open>n\<close> other than 0, the command reads seven packets at a time until it has
  more than \<open>n\<close> of them: \<open>7 * (n div 7 + 1)\<close>, at least one more than the number asked for, and seven when \<open>n\<close> is
  negative. If the file holds that many, it prints exactly these packets, and how many they are.
\<close>

theorem command_stops_at_limit:
  assumes "list_all is_ts ps" and "feed onPacket ps new_decoder = Some d" and "length mem = read_size"
    and "open_in path = Some (concat ps)" "path \<noteq> []" and "n \<noteq> 0" "- (2 ^ 31) \<le> n" "n < 2 ^ 31 - 7"
    and "k = 7 * (nat n div 7 + 1)" "k \<le> length ps"
  shows "\<exists>d'. feed onPacket (take k ps) new_decoder = Some d' \<and>
    main open_in can_write cin mem [''-i'' @ path, ''-n'' @ show_int n] =
      do { text \<leftarrow> output_text d'; Some (Exit 0 text (packets_read k) None) }"
proof -
  have k: "wanted n 0 = k" using assms(9) by (simp add: wanted_def)
  have "nat n < 2147483648" using assms(8) by auto
  then have "nat n div 7 < 2147483648" by (rule le_less_trans [OF div_le_dividend])
  then have small: "k < 2 ^ 64" unfolding assms(9) by simp
  obtain d' where d': "feed onPacket (take k ps) new_decoder = Some d'"
    "read_loop onPacket n (concat ps) mem 0 (std_parser 0 []) new_decoder = Some ([], 0, std_parser (word_of_nat k) [], d')"
    using read_loop_limit [OF assms(1-3,6,8), of 0 0] assms(10) unfolding k by auto
  show ?thesis using d'(1) main_file [of open_in path, OF assms(4,5,7) _ d'(2) small] assms(8) by auto
qed

text \<open>Null packets, which the decoder only prints the headers of.\<close>

definition null_packet :: bytes where
  "null_packet = [0x47, 0x1F, 0xFF, 0x10] @ replicate 184 0"

lemma feed_null_packets:
  "dec_pat d = new_pat \<Longrightarrow> \<exists>d'. feed onPacket (replicate k null_packet) d = Some d'"
proof (induction k arbitrary: d)
  case (Suc k)
  have p: "wf_packet (pkt null_packet)" "\<not> payloadUnitStart (pkt null_packet)"
    by (simp_all add: null_packet_def wf_packet_def payloadUnitStart_def)
  have "pat_find (dec_pat d) (PID (pkt null_packet)) = None"
    using Suc.prems by (simp add: pat_find_def map_find_def new_pat_def)
  then obtain d1 where "onPacket d (pkt null_packet) = Some d1" "dec_pat d1 = new_pat"
    using p(2) getData_wf [OF p(1)] Suc.prems by (simp add: onPacket_def)
  then show ?case using Suc.IH [of d1] by simp
qed simp

theorem command_stops_at_limit_witness:
  "\<exists>d'. feed onPacket (replicate 7 null_packet) new_decoder = Some d' \<and>
    main (\<lambda>_. Some (concat (replicate 9 null_packet))) (\<lambda>_. False) [] (replicate read_size 0) [''-ia.ts'', ''-n5''] =
      do { text \<leftarrow> output_text d'; Some (Exit 0 text (packets_read 7) None) }"
proof -
  have ts: "list_all is_ts (replicate 9 null_packet)" by (simp add: list_all_iff is_ts_def null_packet_def)
  have "dec_pat new_decoder = new_pat" by (simp add: new_decoder_def)
  then obtain d where d: "feed onPacket (replicate 9 null_packet) new_decoder = Some d"
    using feed_null_packets by blast
  have "show_int 5 = ''5''" by (simp add: show_int_def dec_def digits_in.simps)
  then show ?thesis
    using command_stops_at_limit [OF ts d length_replicate, of "\<lambda>_. Some (concat (replicate 9 null_packet))" "''a.ts''" 5 7
        "\<lambda>_. False" "[]" 0]
    by (simp del: feed.simps concat_replicate_trivial replicate.simps)
qed

end
