(* ===== verification/File_Demux.thy ===== *)
theory File_Demux
  imports Mux_Demux Metadata_AU Command
begin

text \<open>
  The demultiplexer \<open>mp2tdmux\<close> (\<open>src/tests/mp2tdmux\<close>): a client of the parser that writes each elementary
  stream to the file of its kind. \<open>AccessUnit\<close> of this program is the record \<open>sample\<close>, the members of
  \<open>MP2TFileDemux\<close> are those of the record \<open>demux\<close>; an output file is the bytes that were written to it.
  The streams do not fail once they are open.
\<close>

section \<open>AccessUnit\<close>

record sample =
  smp_sodb :: bytes
  isKey :: bool
  smp_pts :: u64
  smp_dts :: u64

definition new_sample :: sample where
  "new_sample = \<lparr>smp_sodb = [], isKey = False, smp_pts = 0, smp_dts = 0\<rparr>"

definition sample_insert :: "bytes \<Rightarrow> u32 \<Rightarrow> sample \<Rightarrow> sample option" where
  "sample_insert p len s = do { bs \<leftarrow> rd_n p 0 (unat len); Some (s\<lparr>smp_sodb := smp_sodb s @ bs\<rparr>) }"

definition sample_of :: "bytes \<Rightarrow> u32 \<Rightarrow> sample option" where
  "sample_of p len = do { bs \<leftarrow> rd_n p 0 (unat len); Some (new_sample\<lparr>smp_sodb := bs\<rparr>) }"

definition sample_copy :: "sample \<Rightarrow> sample" where
  "sample_copy cp = \<lparr>smp_sodb = [] @ smp_sodb cp, isKey = isKey cp, smp_pts = smp_pts cp, smp_dts = smp_dts cp\<rparr>"

definition sample_swap :: "sample \<Rightarrow> sample \<Rightarrow> sample \<times> sample" where
  "sample_swap s src =
     (s\<lparr>isKey := isKey src, smp_pts := smp_pts src, smp_dts := smp_dts src, smp_sodb := smp_sodb src\<rparr>,
      src\<lparr>isKey := isKey s, smp_pts := smp_pts s, smp_dts := smp_dts s, smp_sodb := smp_sodb s\<rparr>)"

definition sample_assign :: "sample \<Rightarrow> sample \<Rightarrow> sample" where
  "sample_assign s rhs = fst (sample_swap s (sample_copy rhs))"

definition sample_clear :: "sample \<Rightarrow> sample" where
  "sample_clear s = s\<lparr>smp_sodb := [], isKey := False, smp_pts := 0, smp_dts := 0\<rparr>"

definition sample_length :: "sample \<Rightarrow> nat" where
  "sample_length s = length (smp_sodb s)"

definition toogleKey :: "sample \<Rightarrow> sample" where
  "toogleKey s = s\<lparr>isKey := (if isKey s then False else True)\<rparr>"

section \<open>MP2TFileDemux\<close>

datatype STREAM_TYPE = UNKNOWN | H264 | HDMV | VIDEO | AUDIO | KLVA | EXI

record demux =
  dm_pat :: pat
  dm_pmt :: pmt
  pid2type :: "(u16 \<times> STREAM_TYPE) list"
  ofileH264 :: bytes
  ofileKLV :: bytes
  ofileAudio :: bytes
  ofileEXI :: bytes
  curVideoSample :: "sample option"
  curAudioSample :: "sample option"
  curKlvSample :: "sample option"
  curExiSample :: "sample option"

definition new_demux :: demux where
  "new_demux = \<lparr>dm_pat = new_pat, dm_pmt = new_pmt, pid2type = [],
     ofileH264 = [], ofileKLV = [], ofileAudio = [], ofileEXI = [],
     curVideoSample = None, curAudioSample = None, curKlvSample = None, curExiSample = None\<rparr>"

subsection \<open>The kinds of the streams\<close>

definition TAG_HDMV :: bytes where
  "TAG_HDMV = [0x48, 0x44, 0x4D, 0x56, 0xFF, 0x1B, 0x44, 0x3F, 0]"

definition TAG_HDPR :: bytes where
  "TAG_HDPR = [0x48, 0x44, 0x50, 0x52, 0xFF, 0x1B, 0x67, 0x3F, 0]"

text \<open>Strings of C in arrays of bytes; \<open>strcmp_eq\<close> is \<open>strcmp(s, t) == 0\<close>.\<close>

definition c_string :: "bytes \<Rightarrow> bytes" where
  "c_string s = takeWhile (\<lambda>b. b \<noteq> 0) s"

definition strcmp_eq :: "bytes \<Rightarrow> bytes \<Rightarrow> bool" where
  "strcmp_eq s t \<longleftrightarrow> c_string s = c_string t"

definition strncpy :: "bytes \<Rightarrow> bytes \<Rightarrow> nat \<Rightarrow> bytes" where
  "strncpy dest src n =
     (let s = take n (c_string src) in s @ replicate (n - length s) 0 @ drop n dest)"

definition literal :: "string \<Rightarrow> bytes" where
  "literal s = map of_char s @ [0]"

text \<open>The loops over the descriptors of an element: the first with one of the tags ends them.\<close>

fun find_format :: "descriptor list \<Rightarrow> bytes \<Rightarrow> bytes \<Rightarrow> bytes option" where
  "find_format [] value format_identifier = Some format_identifier"
| "find_format (desc # descs) value format_identifier =
     (if dtag desc = 0x05 then do {
        value \<leftarrow> descriptor_value desc value;
        Some (strncpy format_identifier value 4)
      }
      else if dtag desc = 0x26 then do {
        value \<leftarrow> descriptor_value desc value;
        Some (strncpy format_identifier (drop 3 value) 4)
      }
      else find_format descs value format_identifier)"

fun find_registration :: "descriptor list \<Rightarrow> bytes \<Rightarrow> bytes option" where
  "find_registration [] value = Some value"
| "find_registration (desc # descs) value =
     (if dtag desc = 0x05 then descriptor_value desc value else find_registration descs value)"

text \<open>The body of the loop in \<open>initTypeMap\<close>: the kind that is inserted for an element, if any.\<close>

definition element_type :: "program_element \<Rightarrow> STREAM_TYPE option option" where
  "element_type pe =
     (if stream_type pe = 0x06 \<or> stream_type pe = 0x15 then do {
        format_identifier \<leftarrow> find_format (descriptors pe) (replicate 255 0) (replicate 5 0);
        Some (if strcmp_eq format_identifier (literal ''KLVA'') then Some KLVA
              else if strcmp_eq format_identifier (literal ''$EXI'') then Some EXI
              else None)
      }
      else if stream_type pe = 0x1B then do {
        value \<leftarrow> find_registration (descriptors pe) (replicate 255 0);
        Some (Some (if strcmp_eq value TAG_HDMV \<or> strcmp_eq value TAG_HDPR then HDMV else H264))
      }
      else if stream_type pe = 0x02 then Some (Some VIDEO)
      else if stream_type pe \<in> {0x03, 0x04, 0x0F} then Some (Some AUDIO)
      else Some None)"

fun initTypeMap :: "program_element list \<Rightarrow> (u16 \<times> STREAM_TYPE) list \<Rightarrow> (u16 \<times> STREAM_TYPE) list option" where
  "initTypeMap [] types = Some types"
| "initTypeMap (pe # pes) types = do {
     t \<leftarrow> element_type pe;
     initTypeMap pes (case t of None \<Rightarrow> types | Some t \<Rightarrow> fst (map_insert (elementary_PID pe) t types)) }"

definition packetType :: "demux \<Rightarrow> u16 \<Rightarrow> STREAM_TYPE" where
  "packetType d pid = (case map_find (pid2type d) pid of Some t \<Rightarrow> t | None \<Rightarrow> UNKNOWN)"

subsection \<open>onPacket\<close>

text \<open>\<open>if (cur.get() != nullptr && cur->length() > 0) file.write(cur->data(), cur->length());\<close>\<close>

definition write_sample :: "sample option \<Rightarrow> bytes \<Rightarrow> bytes" where
  "write_sample cur file =
     (case cur of Some s \<Rightarrow> (if sample_length s > 0 then file @ smp_sodb s else file) | None \<Rightarrow> file)"

text \<open>The data of all cells of a wrapper; the length is that of the cell less 5, which may wrap.\<close>

fun write_cells :: "au_wrapper \<Rightarrow> bytes \<Rightarrow> bytes option" where
  "write_cells [] file = Some file"
| "write_cells (cell # w) file = do {
     bs \<leftarrow> rd_n (AU_cell_data_bytes cell) 0 (unat (AU_cell_data_length cell));
     write_cells w (file @ bs) }"

definition write_klv :: "u8 \<Rightarrow> sample option \<Rightarrow> bytes \<Rightarrow> bytes option" where
  "write_klv stream_id cur file =
     (case cur of
        Some s \<Rightarrow>
          if sample_length s > 0 \<and> stream_id = 0xFC then do {
            (wrapper, n) \<leftarrow> wrapper_parse (smp_sodb s) (word_of_nat (sample_length s)) [];
            write_cells wrapper file
          }
          else Some (write_sample cur file)
      | None \<Rightarrow> Some file)"

definition timed_sample :: "pes \<Rightarrow> bytes \<Rightarrow> u32 \<Rightarrow> sample option" where
  "timed_sample p data len = sample_insert data len (new_sample\<lparr>smp_pts := pts p, smp_dts := dts p\<rparr>)"

text \<open>
  A packet in which a PES packet starts: the sample of its kind is written, a new one begins. \<open>data\<close> and
  \<open>len\<close> are the payload behind the PES header.
\<close>

definition start_unit :: "STREAM_TYPE \<Rightarrow> pes \<Rightarrow> bytes \<Rightarrow> u32 \<Rightarrow> demux \<Rightarrow> demux option" where
  "start_unit type p data len d =
     (if type = H264 \<or> type = HDMV then do {
        let d = d\<lparr>ofileH264 := write_sample (curVideoSample d) (ofileH264 d)\<rparr>;
        s \<leftarrow> timed_sample p data len;
        Some (d\<lparr>curVideoSample := Some s\<rparr>)
      }
      else if type = KLVA then do {
        file \<leftarrow> write_klv (pes_stream_id p) (curKlvSample d) (ofileKLV d);
        let t = (case curVideoSample d of
            Some v \<Rightarrow> if pts p = 0 then smp_pts v else pts p
          | None \<Rightarrow> 0);
        s \<leftarrow> sample_insert data len new_sample;
        Some (d\<lparr>ofileKLV := file, curKlvSample := Some (s\<lparr>smp_pts := t\<rparr>)\<rparr>)
      }
      else if type = EXI then do {
        let d = d\<lparr>ofileEXI := write_sample (curExiSample d) (ofileEXI d)\<rparr>;
        s \<leftarrow> timed_sample p data len;
        Some (d\<lparr>curExiSample := Some s\<rparr>)
      }
      else if type = AUDIO then do {
        let d = d\<lparr>ofileAudio := write_sample (curAudioSample d) (ofileAudio d)\<rparr>;
        s \<leftarrow> timed_sample p data len;
        Some (d\<lparr>curAudioSample := Some s\<rparr>)
      }
      else Some d)"

text \<open>Any other packet of a stream.\<close>

definition extend_sample :: "bytes \<Rightarrow> u32 \<Rightarrow> sample option \<Rightarrow> sample option option" where
  "extend_sample data len cur =
     (case cur of Some s \<Rightarrow> do { s \<leftarrow> sample_insert data len s; Some (Some s) } | None \<Rightarrow> Some None)"

definition continue_unit :: "STREAM_TYPE \<Rightarrow> bytes \<Rightarrow> u32 \<Rightarrow> demux \<Rightarrow> demux option" where
  "continue_unit type data len d =
     (if type = H264 \<or> type = HDMV then
        do { s \<leftarrow> extend_sample data len (curVideoSample d); Some (d\<lparr>curVideoSample := s\<rparr>) }
      else if type = AUDIO then
        do { s \<leftarrow> extend_sample data len (curAudioSample d); Some (d\<lparr>curAudioSample := s\<rparr>) }
      else if type = KLVA then
        do { s \<leftarrow> extend_sample data len (curKlvSample d); Some (d\<lparr>curKlvSample := s\<rparr>) }
      else if type = EXI then
        do { s \<leftarrow> extend_sample data len (curExiSample d); Some (d\<lparr>curExiSample := s\<rparr>) }
      else Some d)"

text \<open>\<open>if (pmt_.parse()) initTypeMap();\<close>\<close>

definition parse_map_table :: "pmt \<Rightarrow> demux \<Rightarrow> demux option" where
  "parse_map_table s d = do {
     (s, ok) \<leftarrow> pmt_parse s;
     let d = d\<lparr>dm_pmt := s\<rparr>;
     if ok then do { types \<leftarrow> initTypeMap (program_elmts s) (pid2type d); Some (d\<lparr>pid2type := types\<rparr>) }
     else Some d }"

definition demux_onPacket :: "demux \<Rightarrow> ts_packet \<Rightarrow> demux option" where
  "demux_onPacket d pckt = do {
     data \<leftarrow> getData pckt;
     if payloadUnitStart pckt then
       if PID pckt = 0 then do {
         bs \<leftarrow> deref data;
         pat \<leftarrow> pat_parse bs (dm_pat d);
         Some (d\<lparr>dm_pat := pat\<rparr>)
       }
       else if pat_find (dm_pat d) (PID pckt) \<noteq> None then do {
         db \<leftarrow> data_byte pckt;
         bs \<leftarrow> deref data;
         pmt \<leftarrow> pmt_of bs (uint db);
         parse_map_table pmt d
       }
       else do {
         bs \<leftarrow> deref data;
         (pes, bytesParsed) \<leftarrow> pes_parse new_pes bs;
         if bytesParsed > 0 then do {
           db \<leftarrow> data_byte pckt;
           start_unit (packetType d (PID pckt)) pes (drop (unat bytesParsed) bs) (ucast db - ucast bytesParsed) d
         } else Some d
       }
     else do {
       db \<leftarrow> data_byte pckt;
       bs \<leftarrow> deref data;
       d \<leftarrow> (case pat_find (dm_pat d) (PID pckt) of
           Some program \<Rightarrow>
             if program > 0 then do { pmt \<leftarrow> pmt_add bs (uint db) (dm_pmt d); parse_map_table pmt d }
             else Some d
         | None \<Rightarrow> Some d);
       continue_unit (packetType d (PID pckt)) bs (ucast db) d
     } }"

section \<open>main\<close>

text \<open>The array \<open>char ofname[_MAX_PATH]\<close> holds a name with its final 0; \<open>sprintf\<close> does not look at its size.\<close>

definition MAX_PATH :: nat where
  "MAX_PATH = 260"

definition createFilename :: "string \<Rightarrow> string \<Rightarrow> string option" where
  "createFilename ifname newext =
     (let name = ifname @ ''.'' @ newext in if length name + 1 \<le> MAX_PATH then Some name else None)"

text \<open>
  The loop of \<open>main\<close>, with the lenient parser: \<open>input\<close> is what the file has not delivered yet. The result is
  the exit code, and the parser and the client behind the last call.
\<close>

function demux_loop ::
  "('c \<Rightarrow> ts_packet \<Rightarrow> 'c option) \<Rightarrow> bytes \<Rightarrow> bytes \<Rightarrow> ts_parser \<Rightarrow> 'c \<Rightarrow> (int \<times> ts_parser \<times> 'c) option" where
  "demux_loop f input memblock p c =
     (let chunk = take read_size input;
          gcount = length chunk;
          memblock = chunk @ drop gcount memblock
      in do {
        (ok, p, c) \<leftarrow> parse f memblock (word_of_nat gcount) False p c;
        if \<not> ok then Some (- 1, p, c)
        else if gcount < read_size then Some (0, p, c)
        else demux_loop f (drop read_size input) memblock p c
      })"
  by pat_completeness auto
termination
  by (relation "measure (\<lambda>(f, input, memblock, p, c). length input)") (auto simp: read_size_def TS_SIZE_def)

declare demux_loop.simps [simp del]

text \<open>Exit code, error stream, and the output files that were opened, with their contents.\<close>

datatype demux_outcome = Demux_Exit int string "(string \<times> bytes) list"

text \<open>The output files in the order in which they are opened: those that are open, and the exit code if one fails.\<close>

fun open_outputs :: "(string \<Rightarrow> bool) \<Rightarrow> int \<Rightarrow> string list \<Rightarrow> string list \<times> (int \<times> string) option" where
  "open_outputs can_write code [] = ([], None)"
| "open_outputs can_write code (name # names) =
     (if can_write name then
        (let (opened, failed) = open_outputs can_write (code + 1) names in (name # opened, failed))
      else ([], Some (code, name)))"

definition not_a_file :: "string \<Rightarrow> string" where
  "not_a_file name = ''Fail to open file '' @ name"

definition mp2tdmux :: "(string \<Rightarrow> bytes option) \<Rightarrow> (string \<Rightarrow> bool) \<Rightarrow> string list \<Rightarrow> demux_outcome option" where
  "mp2tdmux open_in can_write args =
     (case args of
        [path] \<Rightarrow> (case open_in path of
            None \<Rightarrow> Some (Demux_Exit 2 (not_a_file path) [])
          | Some input \<Rightarrow> do {
              h264 \<leftarrow> createFilename path ''h264'';
              klv \<leftarrow> createFilename path ''klv'';
              mp2 \<leftarrow> createFilename path ''mp2'';
              exi \<leftarrow> createFilename path ''exi'';
              (case open_outputs can_write 3 [h264, klv, mp2, exi] of
                 (opened, Some (code, name)) \<Rightarrow>
                   Some (Demux_Exit code (not_a_file name) (map (\<lambda>f. (f, [])) opened))
               | (opened, None) \<Rightarrow> do {
                   (code, p, d) \<leftarrow> demux_loop demux_onPacket input (replicate read_size 0) new_parser new_demux;
                   Some (Demux_Exit code
                     ((if code = 0 then [] else line [''Error: Not a valid MPEG-2 TS file.'']) @
                      line [''TS Packets Read: '', decw (packetCount p)])
                     [(h264, ofileH264 d), (klv, ofileKLV d), (mp2, ofileAudio d), (exi, ofileEXI d)])
                 })
            })
      | _ \<Rightarrow> Some (Demux_Exit 1 (line [''usage: mp2tdmux tsfile'']) []))"

end
