(* ===== verification/Demux_Tables.thy ===== *)
theory Demux_Tables
  imports File_Demux Decoder_Output
begin

text \<open>
  What the demultiplexer knows of the streams, compared with what the decoder of the command reports: both
  keep the same tables, and the map of the kinds is a function of the reported program map tables.
\<close>

section \<open>The map of the kinds\<close>

text \<open>The elements that \<open>initTypeMap\<close> inserts, in order.\<close>

definition typed_elements :: "program_element list \<Rightarrow> (u16 \<times> STREAM_TYPE) list" where
  "typed_elements pes =
     concat (map (\<lambda>pe. case element_type pe of Some (Some t) \<Rightarrow> [(elementary_PID pe, t)] | _ \<Rightarrow> []) pes)"

lemma initTypeMap_iff:
  "initTypeMap pes types = Some types' \<longleftrightarrow>
     list_all (\<lambda>pe. element_type pe \<noteq> None) pes \<and> types' = std_map.ins_all (typed_elements pes) types"
  by (induction pes arbitrary: types)
     (auto simp: typed_elements_def std_map.ins_all_def split: option.splits bind_splits)

lemma find_format_defined:
  "list_all wf_descriptor ds \<Longrightarrow> length value = 255 \<Longrightarrow> find_format ds value fmt \<noteq> None"
  by (induction ds) (auto simp: descriptor_value_def wf_descriptor_def)

lemma find_registration_defined:
  "list_all wf_descriptor ds \<Longrightarrow> length value = 255 \<Longrightarrow> find_registration ds value \<noteq> None"
  by (induction ds) (auto simp: descriptor_value_def wf_descriptor_def)

lemma element_type_defined: "list_all wf_descriptor (descriptors pe) \<Longrightarrow> element_type pe \<noteq> None"
  using find_format_defined [of "descriptors pe" "replicate 255 0" "replicate 5 0"]
    find_registration_defined [of "descriptors pe" "replicate 255 0"]
  by (auto simp: element_type_def)

section \<open>What the steps of a unit leave alone\<close>

lemma start_unit_frame:
  "start_unit t p data len d = Some d' \<Longrightarrow>
   dm_pat d' = dm_pat d \<and> dm_pmt d' = dm_pmt d \<and> pid2type d' = pid2type d"
  by (cases t) (auto simp: start_unit_def Let_def split: bind_splits)

lemma continue_unit_frame:
  "continue_unit t data len d = Some d' \<Longrightarrow>
   dm_pat d' = dm_pat d \<and> dm_pmt d' = dm_pmt d \<and> pid2type d' = pid2type d"
  by (cases t) (auto simp: continue_unit_def split: bind_splits)

lemma parse_map_table_cases:
  assumes "parse_map_table s d = Some d'"
  obtains s' where "pmt_parse s = Some (s', True)" "list_all (\<lambda>pe. element_type pe \<noteq> None) (program_elmts s')"
      "d' = d\<lparr>dm_pmt := s', pid2type := std_map.ins_all (typed_elements (program_elmts s')) (pid2type d)\<rparr>"
    | s' where "pmt_parse s = Some (s', False)" "d' = d\<lparr>dm_pmt := s'\<rparr>"
  using assms unfolding parse_map_table_def
  by (cases "pmt_parse s") (auto simp: initTypeMap_iff Let_def split: bind_splits if_splits)

section \<open>The two clients side by side\<close>

fun event_types :: "dec_event \<Rightarrow> (u16 \<times> STREAM_TYPE) list" where
  "event_types (PMT s) = typed_elements (program_elmts s)"
| "event_types _ = []"

definition reported_types :: "dec_event list \<Rightarrow> (u16 \<times> STREAM_TYPE) list" where
  "reported_types evs = concat (map event_types evs)"

lemma reported_types_simps [simp]:
  "reported_types [] = []" "reported_types (x # evs) = event_types x @ reported_types evs"
  "reported_types (evs @ evs') = reported_types evs @ reported_types evs'"
  by (simp_all add: reported_types_def)

lemma ins_all_append: "std_map.ins_all (a @ b) m = std_map.ins_all b (std_map.ins_all a m)"
  and ins_all_Nil [simp]: "std_map.ins_all [] m = m"
  by (simp_all add: std_map.ins_all_def)

definition in_step :: "decoder \<Rightarrow> demux \<Rightarrow> bool" where
  "in_step d m \<longleftrightarrow> dm_pat m = dec_pat d \<and> dm_pmt m = dec_pmt d \<and>
     pid2type m = std_map.ins_all (reported_types (tables d)) []"

lemma in_step_new: "in_step new_decoder new_demux"
  by (simp add: in_step_def new_decoder_def new_demux_def tables_def)

lemma in_step_onPacket:
  assumes "onPacket d p = Some d'" "demux_onPacket m p = Some m'" "in_step d m"
    and "pat_find (dec_pat d) (PID p) \<noteq> Some 0"
  shows "in_step d' m'"
proof -
  obtain data where data: "getData p = Some data" using assms(1) by (auto simp: onPacket_def Let_def split: bind_splits)
  note s = assms(3) [unfolded in_step_def]
  consider (pat) "payloadUnitStart p" "PID p = 0" | (start) n where "payloadUnitStart p" "PID p \<noteq> 0" "pat_find (dec_pat d) (PID p) = Some n" "n \<noteq> 0"
    | (pes) "payloadUnitStart p" "PID p \<noteq> 0" "pat_find (dec_pat d) (PID p) = None"
    | (more) n where "\<not> payloadUnitStart p" "pat_find (dec_pat d) (PID p) = Some n" "n \<noteq> 0"
    | (other) "\<not> payloadUnitStart p" "pat_find (dec_pat d) (PID p) = None"
    using assms(4) by (cases "pat_find (dec_pat d) (PID p)") auto
  then show ?thesis
  proof cases
    case pat
    then show ?thesis using assms(1,2) data s
      by (auto simp: onPacket_def demux_onPacket_def in_step_def Let_def split: bind_splits)
  next
    case start
    then show ?thesis using assms(1,2) data s
      by (auto simp: onPacket_def demux_onPacket_def in_step_def Let_def ins_all_append
          elim!: parse_map_table_cases split: bind_splits if_splits)
  next
    case pes
    then show ?thesis using assms(1,2) data s
      by (auto simp: onPacket_def demux_onPacket_def in_step_def Let_def dest!: start_unit_frame split: bind_splits if_splits)
  next
    case more
    then have "program = n \<Longrightarrow> program > 0" for program by (simp add: word_gt_0)
    with more show ?thesis using assms(1,2) data s
      by (auto simp: onPacket_def demux_onPacket_def in_step_def Let_def ins_all_append
          dest!: continue_unit_frame elim!: parse_map_table_cases split: bind_splits if_splits)
  next
    case other
    then show ?thesis using assms(1,2) data s
      by (auto simp: onPacket_def demux_onPacket_def in_step_def Let_def dest!: continue_unit_frame split: bind_splits if_splits)
  qed
qed

text \<open>Reports are only appended, and the association table is the one that was reported last.\<close>

lemma onPacket_tables:
  assumes "onPacket d p = Some d'"
  shows "\<exists>r. tables d' = tables d @ r \<and> (dec_pat d' = dec_pat d \<or> r = [PAT (dec_pat d')])"
  using assms by (auto simp: onPacket_def Let_def split: bind_splits if_splits option.splits)

lemma feed_tables: "feed onPacket bs d = Some d' \<Longrightarrow> \<exists>r. tables d' = tables d @ r"
proof (induction bs arbitrary: d)
  case (Cons b bs)
  then obtain d1 where "onPacket d (pkt b) = Some d1" "feed onPacket bs d1 = Some d'" by (auto split: bind_splits)
  then show ?case using onPacket_tables [of d "pkt b" d1] Cons.IH [of d1] by auto
qed simp

definition no_network :: "pat \<Rightarrow> bool" where
  "no_network q \<longleftrightarrow> (\<forall>pid. pat_find q pid \<noteq> Some 0)"

lemma feed_in_step:
  "feed onPacket bs d = Some d' \<Longrightarrow> feed demux_onPacket bs m = Some m' \<Longrightarrow> in_step d m \<Longrightarrow>
   no_network (dec_pat d) \<Longrightarrow> (\<And>q. PAT q \<in> set (tables d') \<Longrightarrow> no_network q) \<Longrightarrow> in_step d' m'"
proof (induction bs arbitrary: d m)
  case (Cons b bs)
  obtain d1 m1 where step: "onPacket d (pkt b) = Some d1" "feed onPacket bs d1 = Some d'"
      "demux_onPacket m (pkt b) = Some m1" "feed demux_onPacket bs m1 = Some m'"
    using Cons.prems(1,2) by (auto split: bind_splits)
  obtain r where "tables d' = tables d1 @ r" using feed_tables [OF step(2)] by blast
  then have "no_network (dec_pat d1)"
    using onPacket_tables [OF step(1)] Cons.prems(4,5) by auto
  moreover have "in_step d1 m1"
    using in_step_onPacket [OF step(1,3) Cons.prems(3)] Cons.prems(4) by (simp add: no_network_def)
  ultimately show ?case using Cons.IH [OF step(2,4)] Cons.prems(5) by blast
qed simp

end
