(* ===== verification/Demux_Streams.thy ===== *)
theory Demux_Streams
  imports Demux_Tables
begin

text \<open>
  What the demultiplexer writes of a stream whose access units were packed with \<open>TSPacker::packetizePES\<close>:
  one unit at a time, each when the next one starts.
\<close>

section \<open>The streams of a demultiplexer\<close>

text \<open>Both kinds of video share a file and a sample.\<close>

fun file_kind :: "STREAM_TYPE \<Rightarrow> STREAM_TYPE" where
  "file_kind HDMV = H264"
| "file_kind t = t"

fun out_file :: "STREAM_TYPE \<Rightarrow> demux \<Rightarrow> bytes" where
  "out_file H264 m = ofileH264 m"
| "out_file HDMV m = ofileH264 m"
| "out_file AUDIO m = ofileAudio m"
| "out_file KLVA m = ofileKLV m"
| "out_file EXI m = ofileEXI m"
| "out_file _ m = []"

fun cur_sample :: "STREAM_TYPE \<Rightarrow> demux \<Rightarrow> sample option" where
  "cur_sample H264 m = curVideoSample m"
| "cur_sample HDMV m = curVideoSample m"
| "cur_sample AUDIO m = curAudioSample m"
| "cur_sample KLVA m = curKlvSample m"
| "cur_sample EXI m = curExiSample m"
| "cur_sample _ m = None"

definition has_file :: "STREAM_TYPE \<Rightarrow> bool" where
  "has_file t \<longleftrightarrow> t \<noteq> UNKNOWN \<and> t \<noteq> VIDEO"

definition only_stream :: "STREAM_TYPE \<Rightarrow> demux \<Rightarrow> demux \<Rightarrow> bool" where
  "only_stream t m m' \<longleftrightarrow> dm_pat m' = dm_pat m \<and> dm_pmt m' = dm_pmt m \<and> pid2type m' = pid2type m \<and>
     (\<forall>t'. file_kind t' \<noteq> file_kind t \<longrightarrow> out_file t' m' = out_file t' m \<and> cur_sample t' m' = cur_sample t' m)"

lemma all_kinds:
  "(\<forall>t. P t) \<longleftrightarrow> P UNKNOWN \<and> P H264 \<and> P HDMV \<and> P VIDEO \<and> P AUDIO \<and> P KLVA \<and> P EXI"
  using STREAM_TYPE.exhaust by metis

lemma only_stream_trans: "only_stream t m m1 \<Longrightarrow> only_stream t m1 m' \<Longrightarrow> only_stream t m m'"
  by (simp add: only_stream_def)

text \<open>What is in a file when a sample was written behind it.\<close>

definition written :: "STREAM_TYPE \<Rightarrow> u8 \<Rightarrow> sample option \<Rightarrow> bytes \<Rightarrow> bytes option" where
  "written t sid cur file = (if t = KLVA then write_klv sid cur file else Some (write_sample cur file))"

lemma start_unit_writes:
  assumes "has_file t" "unat len \<le> length data"
    and "written t (pes_stream_id p) (cur_sample t m) (out_file t m) = Some file"
  shows "\<exists>m' s. start_unit t p data len m = Some m' \<and> cur_sample t m' = Some s \<and> smp_sodb s = take (unat len) data \<and>
    out_file t m' = file \<and> only_stream t m m'"
  using assms
  by (cases t) (simp_all add: has_file_def written_def start_unit_def timed_sample_def sample_insert_def new_sample_def
      rd_n_def only_stream_def all_kinds split: option.splits)

lemma continue_unit_extends:
  assumes "has_file t" "unat len \<le> length data" "cur_sample t m = Some s"
  shows "\<exists>m' s'. continue_unit t data len m = Some m' \<and> cur_sample t m' = Some s' \<and>
    smp_sodb s' = smp_sodb s @ take (unat len) data \<and> out_file t m' = out_file t m \<and> only_stream t m m'"
  using assms
  by (cases t) (simp_all add: has_file_def continue_unit_def extend_sample_def sample_insert_def rd_n_def only_stream_def all_kinds)

section \<open>Packets of a stream\<close>

lemma payload_rest:
  assumes "length bs \<le> 184" "unat n \<le> length bs"
  shows "unat (ucast (word_of_nat (length bs) :: u8) - ucast (n :: u16) :: u32) = length bs - unat n"
    "unat (ucast (word_of_nat (length bs) :: u8) :: u32) = length bs"
proof -
  show len: "unat (ucast (word_of_nat (length bs) :: u8) :: u32) = length bs"
    using assms(1) by (simp add: unsigned_ucast_eq take_bit_nat_eq_self)
  moreover have "unat (ucast n :: u32) = unat n"
    using unsigned_less [of n, where 'a = nat] by (simp add: unsigned_ucast_eq take_bit_nat_eq_self)
  ultimately show "unat (ucast (word_of_nat (length bs) :: u8) - ucast (n :: u16) :: u32) = length bs - unat n"
    using assms(2) by (simp add: unat_sub word_le_nat_alt)
qed

lemma demux_unit_start:
  assumes p: "wf_packet p" "payloadUnitStart p" "PID p \<noteq> 0" "getData p = Some (Some (h @ r))" "r \<noteq> []"
    and q: "pes_parse new_pes (h @ r) = Some (q, n)" "drop (unat n) (h @ r) = r" "h \<noteq> []"
    and m: "pat_find (dm_pat m) (PID p) = None" "has_file (packetType m (PID p))"
    and w: "written (packetType m (PID p)) (pes_stream_id q) (cur_sample (packetType m (PID p)) m)
      (out_file (packetType m (PID p)) m) = Some file"
  shows "\<exists>m' s. demux_onPacket m p = Some m' \<and> cur_sample (packetType m (PID p)) m' = Some s \<and> smp_sodb s = r \<and>
    out_file (packetType m (PID p)) m' = file \<and> only_stream (packetType m (PID p)) m m'"
proof -
  have "length (drop (unat n) (h @ r)) = length r" by (simp only: q(2))
  then have n: "unat n = length h" using p(5) by (cases r) auto
  have "0 < unat n" using q(3) n by simp
  then have "n > 0" by (simp add: word_less_nat_alt)
  let ?len = "ucast (word_of_nat (length (h @ r)) :: u8) - ucast n :: u32"
  have len: "unat ?len = length r"
    using payload_rest(1) [OF payload_pointer(2) [OF p(1,4)], of n] n by simp
  have "demux_onPacket m p = start_unit (packetType m (PID p)) q r ?len m"
    using p m(1) q payload_pointer(1) [OF p(1,4)] \<open>n > 0\<close> by (simp add: demux_onPacket_def deref_def del: drop_append)
  then show ?thesis using start_unit_writes [OF m(2) _ w, of ?len r] len by simp
qed

lemma demux_unit_more:
  assumes p: "wf_packet p" "\<not> payloadUnitStart p" "getData p = Some (Some bs)"
    and m: "pat_find (dm_pat m) (PID p) = None" "has_file (packetType m (PID p))"
      "cur_sample (packetType m (PID p)) m = Some s"
  shows "\<exists>m' s'. demux_onPacket m p = Some m' \<and> cur_sample (packetType m (PID p)) m' = Some s' \<and>
    smp_sodb s' = smp_sodb s @ bs \<and> out_file (packetType m (PID p)) m' = out_file (packetType m (PID p)) m \<and>
    only_stream (packetType m (PID p)) m m'"
proof -
  let ?len = "ucast (word_of_nat (length bs) :: u8) :: u32"
  have len: "unat ?len = length bs" using payload_rest(2) [OF payload_pointer(2) [OF p(1,3)], of 0] by simp
  have "demux_onPacket m p = continue_unit (packetType m (PID p)) bs ?len m"
    using p m(1) payload_pointer(1) [OF p(1,3)] by (simp add: demux_onPacket_def deref_def)
  then show ?thesis using continue_unit_extends [OF m(2) _ m(3), of ?len bs] len by simp
qed

lemma only_stream_keeps:
  "only_stream t m m' \<Longrightarrow> pat_find (dm_pat m') pid = pat_find (dm_pat m) pid \<and> packetType m' pid = packetType m pid"
  by (simp add: only_stream_def packetType_def)

lemma demux_units_more:
  assumes "has_file t"
  shows "packet_run pid False c ps \<Longrightarrow> payloads ps = Some bs \<Longrightarrow> pat_find (dm_pat m) pid = None \<Longrightarrow>
    packetType m pid = t \<Longrightarrow> cur_sample t m = Some s \<Longrightarrow>
    \<exists>m' s'. feed demux_onPacket (map pk_data ps) m = Some m' \<and> cur_sample t m' = Some s' \<and>
      smp_sodb s' = smp_sodb s @ bs \<and> out_file t m' = out_file t m \<and> only_stream t m m'"
proof (induction ps arbitrary: c bs m s)
  case (Cons p ps)
  obtain b bs' where b: "getData p = Some (Some b)" "payloads ps = Some bs'" "bs = b @ bs'"
    using Cons.prems(2) by (auto split: bind_splits)
  have p: "wf_packet (pkt (pk_data p))" "getData (pkt (pk_data p)) = Some (Some b)" "\<not> payloadUnitStart (pkt (pk_data p))"
      "PID (pkt (pk_data p)) = pid" "packet_run pid False (c + 1) ps"
    using Cons.prems(1) b(1) by (simp_all add: pkt_same getData_same)
  obtain m1 s1 where m1: "demux_onPacket m (pkt (pk_data p)) = Some m1" "cur_sample t m1 = Some s1"
      "smp_sodb s1 = smp_sodb s @ b" "out_file t m1 = out_file t m" "only_stream t m m1"
    using demux_unit_more [OF p(1,3,2), of m s] Cons.prems(3-5) assms unfolding p(4) by blast
  have keep: "pat_find (dm_pat m1) pid = None" "packetType m1 pid = t"
    using only_stream_keeps [OF m1(5), of pid] Cons.prems(3,4) by simp_all
  obtain m' s' where "feed demux_onPacket (map pk_data ps) m1 = Some m'" "cur_sample t m' = Some s'"
      "smp_sodb s' = smp_sodb s1 @ bs'" "out_file t m' = out_file t m1" "only_stream t m1 m'"
    using Cons.IH [OF p(5) b(2) keep m1(2)] by blast
  then show ?case using m1 b(3) only_stream_trans [OF m1(5)] by auto
qed (simp add: only_stream_def)

section \<open>Access units\<close>

text \<open>The units of a stream, each with the PCR it is sent with, packed one after the other.\<close>

fun packetize_units :: "(access_unit \<times> u64) list \<Rightarrow> u16 \<Rightarrow> u64 \<Rightarrow> (ts_packet list \<times> u64) option" where
  "packetize_units [] pid c = Some ([], c)"
| "packetize_units ((au, pcr) # us) pid c = do {
     (ps, c) \<leftarrow> packetizePES au pid c pcr;
     (qs, c) \<leftarrow> packetize_units us pid c;
     Some (ps @ qs, c) }"

text \<open>The units that \<open>packetizePES\<close> delivers.\<close>

definition sendable :: "access_unit \<Rightarrow> u64 \<Rightarrow> bool" where
  "sendable au pcr \<longleftrightarrow> 0 < au_length au \<and> au_length au < 2 ^ 31 \<and> au_dts au = 0 \<and> au_pts au < 2 ^ 31 \<and>
     has_pes_header (au_stream_id au) \<and>
     (pesHeaderSize_init au + au_length au \<le> 188 \<or>
      pes_room au pcr \<le> au_length au \<and> (au_length au - pes_room au pcr) mod 184 \<noteq> 183)"

text \<open>What reaches the file: of synchronous metadata the data of the cell, which is all of the unit.\<close>

definition content :: "STREAM_TYPE \<Rightarrow> u8 \<Rightarrow> bytes \<Rightarrow> bytes" where
  "content t sid bs = (if t = KLVA \<and> sid = 0xFC then drop 5 bs else bs)"

definition one_cell :: "bytes \<Rightarrow> bool" where
  "one_cell bs \<longleftrightarrow> (\<exists>service seq flags data. bs = au_cell_bytes service seq flags data \<and> 0 < length data \<and> length data < 0x8000)"

lemma write_klv_cell:
  assumes "one_cell (smp_sodb s)"
  shows "write_klv 0xFC (Some s) file = Some (file @ drop 5 (smp_sodb s))"
proof -
  obtain sv sq fl data where s: "smp_sodb s = au_cell_bytes sv sq fl data" and d: "0 < length data" "length data < 0x8000"
    using assms by (auto simp: one_cell_def)
  have w: "unat (word_of_nat (length data + 5) :: u64) = length data + 5"
    using d(2) by (intro unat_of_nat_small) simp
  have "cell_parse (smp_sodb s) (word_of_nat (length data + 5)) [] = Some (smp_sodb s, word_of_nat (length data + 5))"
    using cell_parse_cell [OF d, of "word_of_nat (length data + 5)" sv sq fl "[]" "[]"] unfolding w s by simp
  then have "wrapper_parse (smp_sodb s) (word_of_nat (length data + 5)) [] =
      Some ([smp_sodb s], wrapper_length [smp_sodb s])"
    using w unfolding wrapper_parse_def
    by (subst wrapper_loop.simps) (simp add: word_less_nat_alt wrapper_loop.simps del: of_nat_add)
  moreover have "AU_cell_data_length (smp_sodb s) = word_of_nat (length data)"
    by (simp add: AU_cell_data_length_def s)
  moreover have "unat (word_of_nat (length data) :: u64) = length data"
    using d(2) by (intro unat_of_nat_small) simp
  moreover have "sample_length s = length data + 5" by (simp add: sample_length_def s)
  ultimately show ?thesis
    by (simp add: write_klv_def AU_cell_data_bytes_def rd_n_def s au_cell_bytes_def del: of_nat_add)
qed

lemma written_content:
  assumes "smp_sodb s = bs" "bs \<noteq> []" and "t = KLVA \<Longrightarrow> sid = 0xFC \<Longrightarrow> one_cell bs"
  shows "written t sid (Some s) out = Some (out @ content t sid bs)"
proof (cases "t = KLVA \<and> sid = 0xFC")
  case True
  then show ?thesis using write_klv_cell [of s out] assms by (simp add: written_def content_def)
next
  case False
  then show ?thesis using assms by (auto simp: written_def content_def write_klv_def write_sample_def sample_length_def)
qed

lemma demux_unit:
  assumes u: "sendable au pcr" "pid < 0x2000" "pid \<noteq> 0" "packetizePES au pid c pcr = Some (ps, c')"
    and m: "pat_find (dm_pat m) pid = None" "packetType m pid = t" "has_file t"
    and w: "written t (au_stream_id au) (cur_sample t m) (out_file t m) = Some out"
  shows "list_all is_ts (map pk_data ps) \<and> (\<exists>m' s. feed demux_onPacket (map pk_data ps) m = Some m' \<and>
    cur_sample t m' = Some s \<and> smp_sodb s = sodb au \<and> out_file t m' = out \<and> only_stream t m m')"
proof -
  note au = u(1) [unfolded sendable_def]
  have room: "pesHeaderSize_init au + au_length au \<le> 188 \<or> pes_room au pcr \<le> au_length au" using au by auto
  have "0 < au_length au" "au_length au < 2 ^ 31" "au_dts au = 0" using au by auto
  then obtain p ps' b r r' where ps: "ps = p # ps'" "packet_run pid True c (p # ps')"
      "getData p = Some (Some (pes_unit_header au b @ r))" "r \<noteq> []" "payloads ps' = Some r'" "r @ r' = sodb au"
    using packetizePES_unit [OF _ _ u(2) _ room, of c] au unfolding u(4) option.inject prod.inject by blast
  have p: "wf_packet (pkt (pk_data p))" "PID (pkt (pk_data p)) = pid" "payloadUnitStart (pkt (pk_data p))"
      "packet_run pid False (c + 1) ps'" "getData (pkt (pk_data p)) = Some (Some (pes_unit_header au b @ r))"
    using ps(2,3) by (simp_all add: pkt_same getData_same)
  obtain q n where q: "pes_parse new_pes (pes_unit_header au b @ r) = Some (q, n)" "pes_stream_id q = au_stream_id au"
      "drop (unat n) (pes_unit_header au b @ r) = r"
    using pes_unit_parse [of au b r] au by blast
  have "pes_unit_header au b \<noteq> []" by (simp add: pes_unit_header_def)
  then obtain m1 s1 where m1: "demux_onPacket m (pkt (pk_data p)) = Some m1" "cur_sample t m1 = Some s1"
      "smp_sodb s1 = r" "out_file t m1 = out" "only_stream t m m1"
    using demux_unit_start [OF p(1,3) _ p(5) ps(4) q(1,3), of m out] p(2) u(3) m w q(2) by auto
  have "pat_find (dm_pat m1) pid = None" "packetType m1 pid = t"
    using only_stream_keeps [OF m1(5), of pid] m(1,2) by simp_all
  then obtain m' s' where "feed demux_onPacket (map pk_data ps') m1 = Some m'" "cur_sample t m' = Some s'"
      "smp_sodb s' = smp_sodb s1 @ r'" "out_file t m' = out_file t m1" "only_stream t m1 m'"
    using demux_units_more [OF m(3) p(4) ps(5) _ _ m1(2)] by blast
  then show ?thesis
    using m1 ps(1,6) packet_run_is_ts [OF ps(2)] only_stream_trans [OF m1(5)] by (auto simp del: packet_run.simps)
qed

lemma demux_units:
  assumes t: "has_file t" and pid: "pid < 0x2000" "pid \<noteq> 0"
  shows "packetize_units us pid c = Some (ps, c') \<Longrightarrow>
    (\<And>au pcr. (au, pcr) \<in> set us \<Longrightarrow> sendable au pcr \<and> au_stream_id au = sid \<and>
      (t = KLVA \<and> sid = 0xFC \<longrightarrow> one_cell (sodb au))) \<Longrightarrow>
    pat_find (dm_pat m) pid = None \<Longrightarrow> packetType m pid = t \<Longrightarrow>
    (\<And>file. written t sid (cur_sample t m) file = Some (file @ prev)) \<Longrightarrow>
    list_all is_ts (map pk_data ps) \<and> (\<exists>m'. feed demux_onPacket (map pk_data ps) m = Some m' \<and> only_stream t m m' \<and>
      out_file t m' @ last (prev # map (\<lambda>(au, _). content t sid (sodb au)) us) =
        out_file t m @ prev @ concat (map (\<lambda>(au, _). content t sid (sodb au)) us))"
proof (induction us arbitrary: c ps m prev)
  case Nil
  then show ?case by (simp add: only_stream_def)
next
  case (Cons u us)
  obtain au pcr where u: "u = (au, pcr)" by (cases u)
  obtain qs c1 rs where ps: "packetizePES au pid c pcr = Some (qs, c1)" "packetize_units us pid c1 = Some (rs, c')"
      "ps = qs @ rs"
    using Cons.prems(1) u by (auto split: bind_splits)
  have au: "sendable au pcr" "au_stream_id au = sid" "t = KLVA \<Longrightarrow> sid = 0xFC \<Longrightarrow> one_cell (sodb au)"
    using Cons.prems(2) u by auto
  obtain m1 s where m1: "list_all is_ts (map pk_data qs)" "feed demux_onPacket (map pk_data qs) m = Some m1"
      "cur_sample t m1 = Some s" "smp_sodb s = sodb au" "out_file t m1 = out_file t m @ prev" "only_stream t m m1"
    using demux_unit [OF au(1) pid ps(1) Cons.prems(3,4) t] Cons.prems(5) au(2) by blast
  have keep: "pat_find (dm_pat m1) pid = None" "packetType m1 pid = t"
    using only_stream_keeps [OF m1(6), of pid] Cons.prems(3,4) by simp_all
  have "sodb au \<noteq> []" using au(1) by (auto simp: sendable_def au_length_def)
  then have "written t sid (cur_sample t m1) file = Some (file @ content t sid (sodb au))" for "file"
    using written_content [OF m1(4) _ au(3)] m1(3) by simp
  then obtain m' where m': "list_all is_ts (map pk_data rs)" "feed demux_onPacket (map pk_data rs) m1 = Some m'"
      "only_stream t m1 m'"
      "out_file t m' @ last (content t sid (sodb au) # map (\<lambda>(au, _). content t sid (sodb au)) us) =
        out_file t m1 @ content t sid (sodb au) @ concat (map (\<lambda>(au, _). content t sid (sodb au)) us)"
    using Cons.IH [OF ps(2) Cons.prems(2) keep] by auto
  then show ?case using m1 ps(3) only_stream_trans [OF m1(6) m'(3)] by (auto simp: u feed_append)
qed

end
