(* ===== verification/Demux_Program.thy ===== *)
theory Demux_Program
  imports Demux_Streams
begin

text \<open>
  The demultiplexer as a whole: its tables and streams together, its read loop, and the files it leaves.
\<close>

section \<open>Tables\<close>

text \<open>No unit has started.\<close>

definition idle :: "demux \<Rightarrow> bool" where
  "idle m \<longleftrightarrow> (\<forall>t. cur_sample t m = None)"

lemma idle_simps [simp]: "idle (m\<lparr>dm_pat := q\<rparr>) = idle m" "idle (m\<lparr>dm_pmt := s\<rparr>) = idle m" "idle (m\<lparr>pid2type := ty\<rparr>) = idle m"
  "out_file t (m\<lparr>dm_pat := q\<rparr>) = out_file t m" "out_file t (m\<lparr>dm_pmt := s\<rparr>) = out_file t m" "out_file t (m\<lparr>pid2type := ty\<rparr>) = out_file t m"
  by (simp_all add: idle_def all_kinds) (cases t; simp)+

lemma continue_unit_idle: "idle m \<Longrightarrow> continue_unit t data len m = Some m"
  by (cases t) (simp_all add: idle_def all_kinds continue_unit_def extend_sample_def)

definition typed :: "program_element list \<Rightarrow> bool" where
  "typed pes \<longleftrightarrow> list_all (\<lambda>pe. element_type pe \<noteq> None) pes"

lemma parse_map_table_idle:
  assumes "pmt_parse s = Some (s', ok)" "ok \<Longrightarrow> typed (program_elmts s')" "idle m"
  shows "\<exists>m'. parse_map_table s m = Some m' \<and> idle m' \<and> (\<forall>t. out_file t m' = out_file t m)"
proof -
  have "ok \<Longrightarrow> \<exists>ty. initTypeMap (program_elmts s') (pid2type m) = Some ty"
    using assms(2) initTypeMap_iff by (auto simp: typed_def)
  then show ?thesis using assms(1,3) by (cases ok) (auto simp: parse_map_table_def Let_def)
qed

lemma demux_table_step:
  assumes wf: "wf_packet p" and step: "onPacket d p = Some d'" and sync: "in_step d m" and idle: "idle m"
    and kind: "PID p = 0 \<or> pat_find (dec_pat d) (PID p) \<noteq> None" "pat_find (dec_pat d) (PID p) \<noteq> Some 0"
    and typed: "\<And>s. PMT s \<in> set (tables d') \<Longrightarrow> typed (program_elmts s)"
  shows "\<exists>m'. demux_onPacket m p = Some m' \<and> idle m' \<and> (\<forall>t. out_file t m' = out_file t m)"
proof -
  obtain data where data: "getData p = Some data" using step by (auto simp: onPacket_def Let_def split: bind_splits)
  note s = sync [unfolded in_step_def]
  consider (pat) "payloadUnitStart p" "PID p = 0"
    | (start) n where "payloadUnitStart p" "PID p \<noteq> 0" "pat_find (dec_pat d) (PID p) = Some n" "n \<noteq> 0"
    | (more) n where "\<not> payloadUnitStart p" "pat_find (dec_pat d) (PID p) = Some n" "n > 0" "n \<noteq> 0"
    | (other) "\<not> payloadUnitStart p" "pat_find (dec_pat d) (PID p) = None"
    using kind by (cases "pat_find (dec_pat d) (PID p)") (auto simp: word_gt_0)
  then show ?thesis
  proof cases
    case pat
    then show ?thesis using step data s idle
      by (auto simp: onPacket_def demux_onPacket_def Let_def split: bind_splits)
  next
    case start
    then obtain db bs t t' ok where r: "data_byte p = Some db" "deref data = Some bs" "pmt_of bs (uint db) = Some t"
        "pmt_parse t = Some (t', ok)" "ok \<Longrightarrow> PMT t' \<in> set (tables d')"
      using step data by (auto simp: onPacket_def Let_def split: bind_splits if_splits)
    then show ?thesis using parse_map_table_idle [OF r(4) typed [OF r(5)] idle] start data s
      by (simp add: demux_onPacket_def)
  next
    case more
    then obtain db bs t t' ok where r: "data_byte p = Some db" "deref data = Some bs" "pmt_add bs (uint db) (dec_pmt d) = Some t"
        "pmt_parse t = Some (t', ok)" "ok \<Longrightarrow> PMT t' \<in> set (tables d')"
      using step data by (auto simp: onPacket_def Let_def split: bind_splits if_splits)
    then show ?thesis using parse_map_table_idle [OF r(4) typed [OF r(5)] idle] more data s
      by (auto simp: demux_onPacket_def continue_unit_idle)
  next
    case other
    then show ?thesis using data_byte_wf [OF wf] getData_wf [OF wf] s idle
      by (simp add: demux_onPacket_def deref_def continue_unit_idle)
  qed
qed

lemma demux_tables_feed:
  "list_all is_ts bs \<Longrightarrow> feed onPacket bs d = Some d' \<Longrightarrow> in_step d m \<Longrightarrow> idle m \<Longrightarrow> no_network (dec_pat d) \<Longrightarrow>
   (\<And>q. PAT q \<in> set (tables d') \<Longrightarrow> no_network q) \<Longrightarrow> (\<And>s. PMT s \<in> set (tables d') \<Longrightarrow> typed (program_elmts s)) \<Longrightarrow>
   list_all (\<lambda>b. PID (pkt b) = pid) bs \<Longrightarrow> pid = 0 \<or> pat_find (dec_pat d) pid \<noteq> None \<Longrightarrow>
   \<exists>m'. feed demux_onPacket bs m = Some m' \<and> in_step d' m' \<and> idle m' \<and> (\<forall>t. out_file t m' = out_file t m)"
proof (induction bs arbitrary: d m)
  case (Cons b bs)
  have wf: "wf_packet (pkt b)" "PID (pkt b) = pid" "list_all is_ts bs" "list_all (\<lambda>b. PID (pkt b) = pid) bs"
    using Cons.prems(1,8) by (simp_all add: wf_packet_def) (simp add: is_ts_def)
  obtain d1 where d1: "onPacket d (pkt b) = Some d1" "feed onPacket bs d1 = Some d'"
    using Cons.prems(2) by (auto split: bind_splits)
  obtain r where r: "tables d' = tables d1 @ r" using feed_tables [OF d1(2)] by blast
  have find: "pat_find (dec_pat d) (PID (pkt b)) \<noteq> Some 0" using Cons.prems(5) by (simp add: no_network_def)
  obtain m1 where m1: "demux_onPacket m (pkt b) = Some m1" "idle m1" "\<And>t. out_file t m1 = out_file t m"
    using demux_table_step [OF wf(1) d1(1) Cons.prems(3,4) _ find] Cons.prems(7,9) r wf(2) by auto
  have sync: "in_step d1 m1" by (rule in_step_onPacket [OF d1(1) m1(1) Cons.prems(3) find])
  have "no_network (dec_pat d1)" using onPacket_tables [OF d1(1)] Cons.prems(5,6) r by auto
  moreover have "pid = 0 \<or> pat_find (dec_pat d1) pid \<noteq> None"
    using d1(1) Cons.prems(9) wf(2) by (auto simp: onPacket_def Let_def split: bind_splits if_splits option.splits)
  ultimately obtain m' where "feed demux_onPacket bs m1 = Some m'" "in_step d' m'" "idle m'" "\<And>t. out_file t m' = out_file t m1"
    using Cons.IH [OF wf(3) d1(2) sync m1(2) _ Cons.prems(6,7) wf(4)] by blast
  then show ?case using m1(1,3) by auto
qed simp

text \<open>Both tables through the demultiplexer: it knows the kinds of the streams, and no unit has started.\<close>

lemma packet_run_pids: "packet_run pid st c ps \<Longrightarrow> list_all (\<lambda>b. PID (pkt b) = pid) (map pk_data ps)"
  by (induction pid st c ps rule: packet_run.induct) (simp_all add: pkt_same)

lemma demux_tables_known:
  assumes tables: "wf_pat t" "pat_pointer_field t = 0" "length (pid_to_program t) \<le> 42"
      "list_all (\<lambda>(pid, _). pid < 0x2000) (pid_to_program t)"
      "wf_pmt s" "pmt_len s \<le> 180 \<or> 184 < pmt_len s \<and> (pmt_len s + 4) mod 184 \<in> {5..182}"
      "pat_find t map_pid = Some program" "program \<noteq> 0" "map_pid < 0x2000" "map_pid \<noteq> 0"
      "pmt_serialize s = Some raw"
      "packetize (pat_serialize t) (length (pat_serialize t)) 0 c0 = Some (ps0, c0')"
      "packetize raw (length raw) map_pid c1 = Some (ps1, c1')"
    and no_nit: "no_network t"
  shows "list_all is_ts (map pk_data (ps0 @ ps1)) \<and>
    (\<exists>d m q buf. feed onPacket (map pk_data (ps0 @ ps1)) new_decoder = Some d \<and>
      tables d = [PAT q, PMT (s\<lparr>pmt_buffer := buf\<rparr>)] \<and> no_network q \<and>
      feed demux_onPacket (map pk_data (ps0 @ ps1)) new_demux = Some m \<and> idle m \<and> (\<forall>k. out_file k m = []) \<and>
      (\<forall>pid. pat_find (dm_pat m) pid = pat_find t pid) \<and>
      (\<forall>pid. packetType m pid = (case map_of (typed_elements (program_elmts s)) pid of Some k \<Rightarrow> k | None \<Rightarrow> UNKNOWN)))"
proof -
  obtain d0 d q buf where d: "feed onPacket (map pk_data ps0) new_decoder = Some d0" "dec_pat d0 = q"
      "feed onPacket (map pk_data ps1) d0 = Some d" "packet_run 0 True c0 ps0" "packet_run map_pid True c1 ps1"
      "tables d = [PAT q, PMT (s\<lparr>pmt_buffer := buf\<rparr>)]" "dec_pat d = q" "pid_to_program q = pid_to_program t"
    using tables_feed [OF tables] by blast
  have find: "pat_find q = pat_find t" using d(8) by (simp add: pat_find_def fun_eq_iff)
  note ts = packet_run_is_ts [OF d(4)] packet_run_is_ts [OF d(5)]
  have "typed (program_elmts s)"
    using wf_pmt_parts(6) [OF tables(5)] element_type_defined
    by (auto simp: typed_def list_all_iff wf_element_def fits_element_def)
  then have all: "\<And>q. PAT q \<in> set (tables d) \<Longrightarrow> no_network q" "\<And>s. PMT s \<in> set (tables d) \<Longrightarrow> typed (program_elmts s)"
    using d(6) no_nit find by (auto simp: no_network_def)
  obtain r where r: "tables d = tables d0 @ r" using feed_tables [OF d(3)] by blast
  have start: "idle new_demux" "no_network (dec_pat new_decoder)" "\<And>k. out_file k new_demux = []"
    by (simp_all add: idle_def all_kinds new_demux_def no_network_def new_decoder_def new_pat_def pat_find_def map_find_def)
      (case_tac k; simp)
  obtain m0 where m0: "feed demux_onPacket (map pk_data ps0) new_demux = Some m0" "in_step d0 m0" "idle m0"
      "\<And>k. out_file k m0 = []"
    using demux_tables_feed [OF ts(1) d(1) in_step_new start(1,2) _ _ packet_run_pids [OF d(4)]] all r start(3) by auto
  have "pat_find (dec_pat d0) map_pid \<noteq> None" "no_network (dec_pat d0)"
    using d(2) find tables(7) no_nit by (simp_all add: no_network_def)
  then obtain m where m: "feed demux_onPacket (map pk_data ps1) m0 = Some m" "in_step d m" "idle m"
      "\<And>k. out_file k m = []"
    using demux_tables_feed [OF ts(2) d(3) m0(2,3) _ all packet_run_pids [OF d(5)]] m0(4) by auto
  have "packetType m pid = (case map_of (typed_elements (program_elmts s)) pid of Some k \<Rightarrow> k | None \<Rightarrow> UNKNOWN)" for pid
    using m(2) std_map.look_ins_all [OF std_map.inv_nil, of "typed_elements (program_elmts s)" pid]
    by (simp add: in_step_def packetType_def d(6) std_map.look_nil)
  moreover have "pat_find (dm_pat m) pid = pat_find t pid" for pid using m(2) d(7) find by (simp add: in_step_def)
  moreover have "no_network q" using all(1) d(6) by simp
  ultimately show ?thesis using ts d(1,3,6) m0(1) m(1,3,4) by (auto simp: feed_append)
qed

section \<open>The read loop\<close>

lemma demux_loop_turn:
  assumes "take read_size input = chunk" and "mem' = chunk @ drop (length chunk) mem"
    and "parse f mem' (word_of_nat (length chunk)) False p c = Some (True, p', c')"
  shows "demux_loop f input mem p c =
    (if length chunk < read_size then Some (0, p', c') else demux_loop f (drop read_size input) mem' p' c')"
  using assms by (subst demux_loop.simps) (simp add: Let_def)

lemma demux_loop_packets:
  assumes "list_all is_ts ps" and "feed f ps c = Some c'" and "length mem = read_size"
  shows "demux_loop f (concat ps) mem (std_parser k []) c = Some (0, std_parser (k + word_of_nat (length ps)) [], c')"
  using assms
proof (induction "length ps" arbitrary: ps mem k c rule: less_induct)
  case less
  have sz: "read_size = 188 * 7" by (simp add: read_size_def TS_SIZE_def)
  define qs where "qs = take 7 ps"
  have qs: "list_all is_ts qs" "length qs = min 7 (length ps)"
    using less.prems(1) by (auto simp: qs_def list_all_iff dest: in_set_takeD)
  have chunk: "take read_size (concat ps) = concat qs" "drop read_size (concat ps) = concat (drop 7 ps)"
    using take_concat_is_ts [OF less.prems(1), of 7] by (simp_all add: sz qs_def)
  have n: "length (concat qs) = 188 * length qs" "length qs \<le> 7" using length_concat_is_ts [OF qs(1)] qs(2) by simp_all
  obtain c1 where c1: "feed f qs c = Some c1" "feed f (drop 7 ps) c1 = Some c'"
    using less.prems(2) feed_append [of f "take 7 ps" "drop 7 ps" c] by (auto simp: qs_def split: bind_splits)
  define mem' where "mem' = concat qs @ drop (length (concat qs)) mem"
  have "parse f mem' (word_of_nat (length (concat qs))) False (std_parser k []) c =
      Some (True, std_parser (k + word_of_nat (length qs)) [], c1)"
    using parse_chunk [OF qs(1), of "[]" "length (concat qs)" mem' "[]" False f k c] n c1(1)
    by (simp add: mem'_def del: length_concat)
  note turn = demux_loop_turn [OF chunk(1) mem'_def this]
  show ?case
  proof (cases "length ps < 7")
    case True
    then show ?thesis using turn n c1 qs(2) by (simp add: qs_def sz)
  next
    case False
    then have seven: "length qs = 7" "length ps = 7 + length (drop 7 ps)" using qs(2) by simp_all
    then have len: "length (drop 7 ps) < length ps" "length mem' = read_size" "\<not> length (concat qs) < read_size"
      using n less.prems(3) by (simp_all add: mem'_def sz)
    have "list_all is_ts (drop 7 ps)" using less.prems(1) by (auto simp: list_all_iff dest: in_set_dropD)
    from less.hyps [OF len(1) this c1(2) len(2)]
    have "demux_loop f (concat (drop 7 ps)) mem' (std_parser (k + 7) []) c1 =
        Some (0, std_parser (k + 7 + word_of_nat (length (drop 7 ps))) [], c')" .
    moreover have "k + 7 + word_of_nat (length (drop 7 ps)) = k + word_of_nat (length ps)"
      unfolding seven(2) by (simp add: add.assoc)
    ultimately show ?thesis using turn len(3) by (simp add: chunk(2) seven(1))
  qed
qed

text \<open>A lenient parser accepts whatever it is given.\<close>

lemma parse_loop_lenient:
  "parse_loop f s len st i h r p c = Some y \<Longrightarrow> \<not> st \<Longrightarrow> fst (snd (snd y)) = r"
proof (induction rule: parse_loop.raw_induct [rotated 1, consumes 1, case_names step])
  case (step loop f s len st i h r p c y)
  show ?case
    using step.hyps step.prems
    by (auto simp: Let_def split: if_splits bind_splits dest!: step.IH)
qed

lemma parse_lenient: "parse f s len False p c = Some (ok, p', c') \<Longrightarrow> ok"
  by (auto simp: parse_def split: bind_splits dest!: parse_loop_lenient)

lemma demux_loop_code: "demux_loop f input mem p c = Some (code, p', c') \<Longrightarrow> code = 0"
proof (induction f input mem p c rule: demux_loop.induct)
  case (1 f input mem p c)
  define mem' where "mem' = take read_size input @ drop (length (take read_size input)) mem"
  obtain ok p1 c1 where r: "parse f mem' (word_of_nat (length (take read_size input))) False p c = Some (ok, p1, c1)"
      "(if \<not> ok then Some (- 1, p1, c1) else if length (take read_size input) < read_size then Some (0, p1, c1)
        else demux_loop f (drop read_size input) mem' p1 c1) = Some (code, p', c')"
    using 1(2) unfolding demux_loop.simps [of f input mem p c] mem'_def by (auto simp: Let_def simp del: length_take split: bind_splits)
  have ok: "ok" by (rule parse_lenient [OF r(1)])
  show ?case
  proof (cases "length (take read_size input) < read_size")
    case False
    then show ?thesis using 1(1) [OF refl refl refl r(1) [unfolded mem'_def]] r(2) ok by (simp add: mem'_def)
  qed (use r(2) ok in \<open>simp del: length_take\<close>)
qed

lemma demux_loop_nosync:
  "0x47 \<notin> set input \<Longrightarrow> length mem = read_size \<Longrightarrow>
   demux_loop f input mem (std_parser k []) c = Some (0, std_parser k [], c)"
proof (induction "length input" arbitrary: input mem rule: less_induct)
  case less
  have sz: "0 < read_size" "read_size < 2 ^ 32" by (simp_all add: read_size_def TS_SIZE_def)
  define chunk where "chunk = take read_size input"
  define mem' where "mem' = chunk @ drop (length chunk) mem"
  have n: "length chunk \<le> read_size" "length mem' = read_size" using less.prems(2) by (simp_all add: chunk_def mem'_def)
  have no: "mem' ! j \<noteq> 0x47" if "j < length chunk" for j
  proof -
    have "mem' ! j \<in> set chunk" using that by (simp add: mem'_def nth_append)
    then show ?thesis using less.prems(1) by (auto simp: chunk_def dest: in_set_takeD)
  qed
  have "parse_loop f mem' (word_of_nat (length chunk)) False (word_of_nat 0) 0 True (std_parser k []) c =
      parse_loop f mem' (word_of_nat (length chunk)) False (word_of_nat (0 + length chunk)) 0 True (std_parser k []) c"
    using n sz by (intro parse_loop_skips) (simp_all add: no)
  then have parse: "parse f mem' (word_of_nat (length chunk)) False (std_parser k []) c = Some (True, std_parser k [], c)"
    by (simp add: parse_def parse_loop_done)
  note turn = demux_loop_turn [OF chunk_def [symmetric] mem'_def parse]
  show ?case
  proof (cases "length chunk < read_size")
    case False
    then have "length (drop read_size input) < length input" using sz by (simp add: chunk_def)
    moreover have "0x47 \<notin> set (drop read_size input)" using less.prems(1) by (auto dest: in_set_dropD)
    ultimately show ?thesis using less.hyps n(2) turn False by simp
  qed (use turn in simp)
qed

section \<open>The output files\<close>

definition left_files :: "string \<Rightarrow> (STREAM_TYPE \<Rightarrow> bytes) \<Rightarrow> (string \<times> bytes) list" where
  "left_files path f =
     [(path @ ''.h264'', f H264), (path @ ''.klv'', f KLVA), (path @ ''.mp2'', f AUDIO), (path @ ''.exi'', f EXI)]"

lemma createFilename_fits:
  "length path \<le> 254 \<Longrightarrow> length ext \<le> 4 \<Longrightarrow> createFilename path ext = Some (path @ ''.'' @ ext)"
  by (simp add: createFilename_def MAX_PATH_def)

lemma mp2tdmux_run:
  assumes "open_in path = Some input" "length path \<le> 254"
    and "\<And>ext. ext \<in> {''h264'', ''klv'', ''mp2'', ''exi''} \<Longrightarrow> can_write (path @ ''.'' @ ext)"
    and "demux_loop demux_onPacket input (replicate read_size 0) (std_parser 0 []) new_demux =
      Some (0, std_parser (word_of_nat k) [], d)" "k < 2 ^ 64"
  shows "mp2tdmux open_in can_write [path] = Some (Demux_Exit 0 (packets_read k) (left_files path (\<lambda>t. out_file t d)))"
  using assms createFilename_fits [OF assms(2)] packets_read_count [OF assms(5)]
  by (simp add: mp2tdmux_def left_files_def new_parser_std)

section \<open>Properties\<close>

text \<open>
  Property C15. The demultiplexer and the decoder of the command agree on the tables, as long as no association table
  that is reported names a network PID (program 0): the start of a packet on such a PID is a map table for the
  demultiplexer only. After any packets that both accept, both hold the same association table and the same
  program map table; and the kind that the demultiplexer gives a PID is the one of the first typed element for it in
  all the tables that the command reports: a later table never changes it.
\<close>

theorem demux_follows_decoder:
  assumes "feed onPacket bs new_decoder = Some d" and "feed demux_onPacket bs new_demux = Some m"
    and "\<And>q. PAT q \<in> set (tables d) \<Longrightarrow> no_network q"
  shows "dm_pat m = dec_pat d \<and> dm_pmt m = dec_pmt d \<and>
    packetType m pid = (case map_of (reported_types (tables d)) pid of Some t \<Rightarrow> t | None \<Rightarrow> UNKNOWN)"
proof -
  have "no_network (dec_pat new_decoder)"
    by (simp add: no_network_def new_decoder_def new_pat_def pat_find_def map_find_def)
  then have "in_step d m" using feed_in_step [OF assms(1,2) in_step_new _ assms(3)] by blast
  then show ?thesis
    using std_map.look_ins_all [OF std_map.inv_nil, of "reported_types (tables d)" pid]
    by (simp add: in_step_def packetType_def std_map.look_nil)
qed

text \<open>
  Property C9. A stream through the library and its demultiplexer. A file holds an association table of at
  most 42 programs without a network PID, a map table for one of them with a length that the packer does not damage, and
  the access units of one stream, all packed by \<open>TSPacker\<close>. The map table announces the stream, on a PID of
  no table, with a kind that has a file; the four output files can be written, and the path has at most 254 characters. The units have one stream id, which has a PES header, no DTS, a PTS below \<open>2 ^ 31\<close>, and lengths for which
  \<open>packetizePES\<close> neither drops the unit nor inserts a byte; synchronous metadata (\<open>KLVA\<close> with stream id
  \<open>0xFC\<close>) are one metadata cell each. The demultiplexer then exits with 0. The file of the kind holds all units but the last,
  in order, each with all its bytes, or without the five bytes of the cell header if they are synchronous metadata;
  the last unit is never written, and the other files are empty.
\<close>

theorem demux_recovers_stream:
  assumes tables: "wf_pat t" "pat_pointer_field t = 0" "length (pid_to_program t) \<le> 42"
      "list_all (\<lambda>(pid, _). pid < 0x2000) (pid_to_program t)"
      "wf_pmt s" "pmt_len s \<le> 180 \<or> 184 < pmt_len s \<and> (pmt_len s + 4) mod 184 \<in> {5..182}"
      "pat_find t map_pid = Some program" "program \<noteq> 0" "map_pid < 0x2000" "map_pid \<noteq> 0"
      "pmt_serialize s = Some raw"
      "packetize (pat_serialize t) (length (pat_serialize t)) 0 c0 = Some (ps0, c0')"
      "packetize raw (length raw) map_pid c1 = Some (ps1, c1')"
    and no_nit: "no_network t"
    and stream: "map_of (typed_elements (program_elmts s)) pid = Some kind" "has_file kind"
      "pat_find t pid = None" "pid < 0x2000" "pid \<noteq> 0"
    and units: "packetize_units us pid c2 = Some (ps2, c2')"
      "\<And>au pcr. (au, pcr) \<in> set us \<Longrightarrow> sendable au pcr \<and> au_stream_id au = sid \<and>
        (kind = KLVA \<and> sid = 0xFC \<longrightarrow> one_cell (sodb au))"
    and files: "open_in path = Some (concat (map pk_data (ps0 @ ps1 @ ps2)))" "length path \<le> 254"
      "\<And>ext. ext \<in> {''h264'', ''klv'', ''mp2'', ''exi''} \<Longrightarrow> can_write (path @ ''.'' @ ext)"
    and n: "n = length (ps0 @ ps1 @ ps2)" "n < 2 ^ 64"
  shows "mp2tdmux open_in can_write [path] = Some (Demux_Exit 0 (packets_read n)
    (left_files path (\<lambda>k. if k = file_kind kind then concat (map (\<lambda>(au, _). content kind sid (sodb au)) (butlast us)) else [])))"
proof -
  obtain m1 where ts: "list_all is_ts (map pk_data (ps0 @ ps1))"
    and m1: "feed demux_onPacket (map pk_data (ps0 @ ps1)) new_demux = Some m1" "idle m1" "\<And>k. out_file k m1 = []"
      "pat_find (dm_pat m1) pid = None" "packetType m1 pid = kind"
    using demux_tables_known [OF tables no_nit] stream(1,3) by auto
  have "written kind sid (cur_sample kind m1) file = Some (file @ [])" for "file"
    using m1(2) by (simp add: idle_def written_def write_klv_def write_sample_def)
  then obtain m2 where m2: "list_all is_ts (map pk_data ps2)" "feed demux_onPacket (map pk_data ps2) m1 = Some m2"
      "only_stream kind m1 m2"
      "out_file kind m2 @ last ([] # map (\<lambda>(au, _). content kind sid (sodb au)) us) =
        concat (map (\<lambda>(au, _). content kind sid (sodb au)) us)"
    using demux_units [OF stream(2,4,5) units m1(4,5), of "[]"] m1(3) by auto
  have out: "out_file kind m2 = concat (map (\<lambda>(au, _). content kind sid (sodb au)) (butlast us))"
    using m2(4) by (cases us rule: rev_cases) simp_all
  have "out_file k m2 = (if k = file_kind kind then out_file kind m2 else [])" if "k \<in> {H264, KLVA, AUDIO, EXI}" for k
    using m2(3) m1(3) that stream(2) by (cases kind) (auto simp: only_stream_def has_file_def all_kinds)
  from this [of H264] this [of KLVA] this [of AUDIO] this [of EXI]
  have "left_files path (\<lambda>k. out_file k m2) = left_files path (\<lambda>k. if k = file_kind kind then out_file kind m2 else [])"
    by (auto simp: left_files_def)
  moreover have "feed demux_onPacket (map pk_data (ps0 @ ps1 @ ps2)) new_demux = Some m2"
    using m1(1) m2(2) by (auto simp: feed_append split: bind_splits)
  moreover have "list_all is_ts (map pk_data (ps0 @ ps1 @ ps2))" using ts m2(1) by simp
  ultimately show ?thesis
    using mp2tdmux_run [where can_write = can_write and open_in = open_in, OF files, of n m2]
      demux_loop_packets [of "map pk_data (ps0 @ ps1 @ ps2)" demux_onPacket new_demux m2 "replicate read_size 0" 0] n
    unfolding out [symmetric] by simp
qed

text \<open>
  The demultiplexer never says that a file is not a transport stream: it parses leniently, and
  the lenient parser accepts everything. Its exit code is never -1; and a file without any sync byte leaves
  four empty files, no packets and the exit code 0.
\<close>

lemma demux_accepts_any_file:
  assumes "open_in path = Some input" "length path \<le> 254" and "0x47 \<notin> set input"
    and "\<And>ext. ext \<in> {''h264'', ''klv'', ''mp2'', ''exi''} \<Longrightarrow> can_write (path @ ''.'' @ ext)"
  shows "mp2tdmux open_in can_write [path] = Some (Demux_Exit 0 (packets_read 0) (left_files path (\<lambda>_. []))) \<and>
    mp2tdmux open_any can_any args \<noteq> Some (Demux_Exit (- 1) cerr out)"
proof
  have "out_file t new_demux = []" for t by (cases t) (simp_all add: new_demux_def)
  then show "mp2tdmux open_in can_write [path] = Some (Demux_Exit 0 (packets_read 0) (left_files path (\<lambda>_. [])))"
    using mp2tdmux_run [where can_write = can_write and open_in = open_in, OF assms(1,2,4), of 0 new_demux] demux_loop_nosync [OF assms(3) length_replicate, of demux_onPacket 0 0 new_demux]
    by simp
  have opens: "snd (open_outputs w code names) = Some (code', name) \<Longrightarrow> code \<le> code'" for w code names code' name
    by (induction w code names rule: open_outputs.induct) (auto simp: split_beta Let_def split: if_splits)
  show "mp2tdmux open_any can_any args \<noteq> Some (Demux_Exit (- 1) cerr out)"
    using opens [of can_any 3 _ "- 1"]
    by (auto simp: mp2tdmux_def dest!: demux_loop_code split: list.splits option.splits bind_splits)
qed

text \<open>
  Property C29. The other ends of the demultiplexer, by what fails first: the number of arguments, the input
  file, one of the output files (the files before it are left empty). But a path of more than 254
  characters, where the names of the output files no longer fit into their arrays, overflows an array.
\<close>

theorem demux_exit_codes:
  assumes "length args \<noteq> 1" "no_file path = None" and "open_in path = Some input"
    and "names = map (\<lambda>ext. path @ ''.'' @ ext) [''h264'', ''klv'', ''mp2'', ''exi'']"
    and "i < 4" "\<And>j. j < i \<Longrightarrow> can_write (names ! j)" "\<not> can_write (names ! i)"
  shows "mp2tdmux open_any can_any args = Some (Demux_Exit 1 (line [''usage: mp2tdmux tsfile'']) []) \<and>
    mp2tdmux no_file can_any [path] = Some (Demux_Exit 2 (not_a_file path) []) \<and>
    mp2tdmux open_in can_write [path] =
      (if 254 < length path then None
       else Some (Demux_Exit (3 + int i) (not_a_file (names ! i)) (map (\<lambda>f. (f, [])) (take i names))))"
proof (intro conjI)
  show "mp2tdmux open_any can_any args = Some (Demux_Exit 1 (line [''usage: mp2tdmux tsfile'']) [])"
    using assms(1) by (auto simp: mp2tdmux_def split: list.splits)
  show "mp2tdmux no_file can_any [path] = Some (Demux_Exit 2 (not_a_file path) [])"
    using assms(2) by (simp add: mp2tdmux_def)
  have i: "i \<in> {0, 1, 2, 3}" using assms(5) by auto
  have ok: "i > 0 \<Longrightarrow> can_write (names ! 0)" "i > 1 \<Longrightarrow> can_write (names ! 1)" "i > 2 \<Longrightarrow> can_write (names ! 2)"
    using assms(6) by blast+
  show "mp2tdmux open_in can_write [path] =
      (if 254 < length path then None
       else Some (Demux_Exit (3 + int i) (not_a_file (names ! i)) (map (\<lambda>f. (f, [])) (take i names))))"
  proof (cases "254 < length path")
    case True
    then show ?thesis using assms(3) by (simp add: mp2tdmux_def createFilename_def MAX_PATH_def)
  next
    case False
    then show ?thesis
      using assms(3,7) i ok createFilename_fits [of path] unfolding assms(4) by (auto simp: mp2tdmux_def)
  qed
qed

section \<open>Examples\<close>

lemma sample_types: "typed_elements (program_elmts sample_pmt) = [(0x100, H264), (0x101, AUDIO)]"
  by (simp add: typed_elements_def sample_pmt_def pmt_table_def Let_def element_type_def strcmp_eq_def c_string_def
      TAG_HDMV_def TAG_HDPR_def)

lemma sample_no_network: "no_network sample_pat"
  by (simp add: no_network_def sample_pat_def pat_find_def map_find_def)

text \<open>The two tables of the examples, in a packet each.\<close>

lemma sample_tables:
  obtains p0 p1 where "packetize (pat_serialize sample_pat) (length (pat_serialize sample_pat)) 0 0 = Some ([p0], 1)"
    "pmt_serialize sample_pmt = Some (pmt_raw sample_pmt)"
    "packetize (pmt_raw sample_pmt) (length (pmt_raw sample_pmt)) 0x20 0 = Some ([p1], 1)"
  using sample_pat_packet small_pmt_packet [OF sample_pmt_wf sample_pmt_small] by metis

theorem demux_follows_decoder_witness:
  "\<exists>bs d m. length bs = 2 \<and> feed onPacket bs new_decoder = Some d \<and> feed demux_onPacket bs new_demux = Some m \<and>
    packetType m 0x100 = H264 \<and> packetType m 0x101 = AUDIO \<and> packetType m 0x102 = UNKNOWN"
proof -
  obtain p0 p1 where p: "packetize (pat_serialize sample_pat) (length (pat_serialize sample_pat)) 0 0 = Some ([p0], 1)"
    "pmt_serialize sample_pmt = Some (pmt_raw sample_pmt)"
    "packetize (pmt_raw sample_pmt) (length (pmt_raw sample_pmt)) 0x20 0 = Some ([p1], 1)"
    by (rule sample_tables)
  obtain d m q buf where d: "feed onPacket (map pk_data ([p0] @ [p1])) new_decoder = Some d"
      "feed demux_onPacket (map pk_data ([p0] @ [p1])) new_demux = Some m"
      "tables d = [PAT q, PMT (sample_pmt\<lparr>pmt_buffer := buf\<rparr>)]" "no_network q"
    using demux_tables_known [OF sample_pat_facts(1-4) sample_pmt_wf disjI1 [OF sample_pmt_small] sample_pat_facts(5) _ _ _
        p(2,1,3) sample_no_network] by auto
  have "reported_types (tables d) = [(0x100, H264), (0x101, AUDIO)]" using d(3) by (simp add: sample_types)
  moreover have "no_network q'" if "PAT q' \<in> set (tables d)" for q' using that d(3,4) by simp
  ultimately show ?thesis
    using demux_follows_decoder [OF d(1,2), of "0x100"] demux_follows_decoder [OF d(1,2), of "0x101"]
      demux_follows_decoder [OF d(1,2), of "0x102"] d(1,2)
    by (intro exI [of _ "map pk_data ([p0] @ [p1])"] exI [of _ d] exI [of _ m]) simp
qed

theorem demux_recovers_stream_witness:
  "\<exists>file. mp2tdmux (\<lambda>_. Some file) (\<lambda>_. True) [''a.ts''] = Some (Demux_Exit 0 (packets_read 4)
    (left_files ''a.ts'' (\<lambda>k. if k = H264 then replicate 100 7 else [])))"
proof -
  obtain p0 p1 where p: "packetize (pat_serialize sample_pat) (length (pat_serialize sample_pat)) 0 0 = Some ([p0], 1)"
    "pmt_serialize sample_pmt = Some (pmt_raw sample_pmt)"
    "packetize (pmt_raw sample_pmt) (length (pmt_raw sample_pmt)) 0x20 0 = Some ([p1], 1)"
    by (rule sample_tables)
  obtain p2 where p2: "packetizePES (sample_au 100 90000 0) 0x100 0 0 = Some ([p2], 0 + 1)" by (rule sample_au_packet)
  obtain p3 where p3: "packetizePES (sample_au 100 90000 0) 0x100 (0 + 1) 0 = Some ([p3], 0 + 1 + 1)" by (rule sample_au_packet)
  let ?us = "[(sample_au 100 90000 0, 0 :: u64), (sample_au 100 90000 0, 0)]"
  have units: "packetize_units ?us 0x100 0 = Some ([p2] @ [p3], 0 + 1 + 1)"
    using p2 p3 by simp
  have pids: "(0x20 :: u16) < 0x2000" "(0x20 :: u16) \<noteq> 0" "(0x100 :: u16) < 0x2000" "(0x100 :: u16) \<noteq> 0" by simp_all
  have ok: "(au, pcr) \<in> set ?us \<Longrightarrow> sendable au pcr \<and> au_stream_id au = 0xBD \<and> (H264 = KLVA \<and> 0xBD = (0xFC :: u8) \<longrightarrow> one_cell (sodb au))"
    for au pcr by (auto simp: sendable_def has_pes_header_def pesHeaderSize_init_def)
  have "mp2tdmux (\<lambda>_. Some (concat (map pk_data ([p0] @ [p1] @ [p2] @ [p3])))) (\<lambda>_. True) [''a.ts''] =
    Some (Demux_Exit 0 (packets_read 4) (left_files ''a.ts'' (\<lambda>k. if k = file_kind H264
      then concat (map (\<lambda>(au, _). content H264 0xBD (sodb au)) (butlast ?us)) else [])))"
    using demux_recovers_stream [where kind = H264 and sid = "0xBD" and n = 4 and path = "''a.ts''"
        and open_in = "\<lambda>_. Some (concat (map pk_data ([p0] @ [p1] @ [p2] @ [p3])))" and can_write = "\<lambda>_. True",
        OF sample_pat_facts(1-4) sample_pmt_wf disjI1 [OF sample_pmt_small] sample_pat_facts(5) _ pids(1,2)
        p(2,1,3) sample_no_network _ _ sample_pat_facts(6) pids(3,4) units ok]
    by (simp add: sample_types has_file_def del: butlast.simps)
  then show ?thesis by (auto simp: content_def cong: if_cong)
qed

theorem demux_exit_codes_witness:
  "mp2tdmux (\<lambda>_. Some []) (\<lambda>_. True) [] = Some (Demux_Exit 1 (line [''usage: mp2tdmux tsfile'']) []) \<and>
   mp2tdmux (\<lambda>_. None) (\<lambda>_. True) [''a''] = Some (Demux_Exit 2 ''Fail to open file a'' []) \<and>
   mp2tdmux (\<lambda>_. Some []) (\<lambda>f. f = ''a.h264'') [''a''] = Some (Demux_Exit 4 ''Fail to open file a.klv'' [(''a.h264'', [])]) \<and>
   mp2tdmux (\<lambda>_. Some []) (\<lambda>_. False) [replicate 255 CHR ''a''] = None"
  using demux_exit_codes [of "[]" "\<lambda>_. None" "''a''" "\<lambda>_. Some []" "[]" _ 1 "\<lambda>f. f = ''a.h264''" "\<lambda>_. Some []" "\<lambda>_. True"]
    demux_exit_codes [of "[]" "\<lambda>_. None" "replicate 255 CHR ''a''" "\<lambda>_. Some []" "[]" _ 0 "\<lambda>_. False" "\<lambda>_. Some []" "\<lambda>_. True"]
  by (simp add: not_a_file_def)

end
