(* ===== verification/Test_Programs.thy ===== *)
theory Test_Programs
  imports Demux_Program
begin

text \<open>
  The two smaller programs under \<open>src/tests\<close>: \<open>packtest\<close> packs one access unit of a given size and prints the
  number of packets; \<open>modifytest\<close> adds a second to the time stamp of the first packet of a file and sets a
  PID in all packets, and prints what it does.
\<close>

section \<open>packtest\<close>

text \<open>\<open>std::atoi\<close>: 0 if there are no digits; a number outside of \<open>int\<close> has no defined result.\<close>

definition atoi :: "string \<Rightarrow> int option" where
  "atoi s = (case stoi s of Inr n \<Rightarrow> Some n | Inl Invalid_argument \<Rightarrow> Some 0 | Inl Out_of_range \<Rightarrow> None)"

text \<open>Exit code, console and error stream; or the exception of a vector with too large a size.\<close>

datatype test_outcome =
    Test_Exit int string string
  | Length_error

text \<open>The constructor of the vector takes the size as \<open>size_t\<close>; it throws what is above its maximum.\<close>

definition packtest :: "string list \<Rightarrow> test_outcome option" where
  "packtest args = do {
     let cerr = (if length args \<noteq> 1 then line [''Usage: packtest <size>''] else []);
     arg \<leftarrow> (case args of [] \<Rightarrow> None | arg # _ \<Rightarrow> Some arg);
     size \<leftarrow> atoi arg;
     if size < 0 then Some Length_error
     else do {
       let vec = replicate (nat size) (0x2A :: u8);
       au \<leftarrow> access_unit_of vec (length vec) 0xBD 0 0;
       (ts, cc) \<leftarrow> packetizePES au 255 0 0;
       Some (Test_Exit 0 (line [dec (length ts)]) cerr)
     } }"

section \<open>modifytest\<close>

text \<open>An \<open>int\<close> behind \<open>hex\<close>, \<open>showbase\<close>, \<open>internal\<close>, \<open>setw(4)\<close>, \<open>setfill('0')\<close>: zero has no prefix.\<close>

definition hex_byte :: "u8 \<Rightarrow> string" where
  "hex_byte b = (if b = 0 then ''0000'' else ''0x'' @ hex2 b)"

fun hex_bytes :: "bytes \<Rightarrow> string" where
  "hex_bytes [] = []"
| "hex_bytes [b] = hex_byte b"
| "hex_bytes (b # bs) = hex_byte b @ '' '' @ hex_bytes bs"

definition outputPTS :: "bytes \<Rightarrow> string option" where
  "outputPTS bs = do { bs \<leftarrow> rd_n bs 0 5; Some ('' ('' @ hex_bytes bs @ '')'') }"

definition output_stamp :: "pes \<Rightarrow> string option" where
  "output_stamp p = do {
     t \<leftarrow> outputPTS (pes_PTS p);
     Some (g6 (ptsInSeconds p) @ '' sec ('' @ decw (pts p) @ '')'' @ t) }"

text \<open>The new time stamp, in the header and in the packet.\<close>

definition add_second :: "ts_packet \<Rightarrow> pes \<Rightarrow> (ts_packet \<times> pes) option" where
  "add_second pckt p = do {
     let newPts = pts p + 90000;
     let p = setPTS p newPts;
     (payload, bytesRead) \<leftarrow> getPayload pckt (replicate 188 0) 188;
     payload \<leftarrow> pes_serialize p payload;
     pckt \<leftarrow> setPayload pckt payload bytesRead;
     Some (pckt, p) }"

text \<open>The part for the first packet: what it prints, and the packet behind it.\<close>

definition modify_first :: "ts_packet \<Rightarrow> (string \<times> ts_packet) option" where
  "modify_first pckt = do {
     data \<leftarrow> getData pckt;
     bs \<leftarrow> deref data;
     (p, bytesParsed) \<leftarrow> pes_parse new_pes bs;
     if bytesParsed > 0 then do {
       before \<leftarrow> output_stamp p;
       (pckt, p) \<leftarrow> add_second pckt p;
       after \<leftarrow> output_stamp p;
       Some (line [''Add one second to PTS''] @ line [''PTS '', before, '' => '', after], pckt)
     }
     else Some ([], pckt) }"

fun reset_PIDs :: "ts_packet list \<Rightarrow> string" where
  "reset_PIDs [] = []"
| "reset_PIDs (ts # tss) = line [''PID '', decw (PID ts), '' => '', decw (PID (setPID ts 256))] @ reset_PIDs tss"

text \<open>The read loop is that of \<open>mp2tdmux\<close>; if it fails, the program goes on with the packets it has.\<close>

definition modifytest :: "(string \<Rightarrow> bytes option) \<Rightarrow> string list \<Rightarrow> test_outcome option" where
  "modifytest open_in args = (case args of
     [] \<Rightarrow> None
   | path # _ \<Rightarrow> (case open_in path of
       None \<Rightarrow> Some (Test_Exit 2 [] (not_a_file path))
     | Some input \<Rightarrow> do {
         (code, parser, packets) \<leftarrow> demux_loop onPacket_collect input (replicate read_size 0) new_parser [];
         let cerr = (if code = 0 then [] else line [''Error: Not a valid MPEG-2 TS file.'']);
         (case packets of
            [] \<Rightarrow> Some (Test_Exit (- 1) [] (cerr @ line [''Failed to find TS Packets'']))
          | pckt # rest \<Rightarrow> do {
              (text, pckt) \<leftarrow> modify_first pckt;
              Some (Test_Exit code (text @ line [''Reset PID''] @ reset_PIDs (pckt # rest)) cerr)
            })
       }))"

section \<open>The number of packets\<close>

text \<open>For a unit of asynchronous metadata without time stamps.\<close>

definition packet_count :: "nat \<Rightarrow> nat" where
  "packet_count n =
     (if n = 0 \<or> n = 174 then 0 else if n < 174 then 1 else 1 + pes_tail_count (n - 175))"

lemma packetizePES_count:
  assumes "au = \<lparr>sodb = bs, au_pts = 0, au_dts = 0, au_stream_id = 0xBD\<rparr>" "length bs < 2 ^ 31"
  shows "\<exists>ps c. packetizePES au 255 0 0 = Some (ps, c) \<and> length ps = packet_count (length bs)"
proof -
  have au: "au_length au = length bs" "pesHeaderSize_init au = 15" "pes_room au 0 = 175" "au_dts au = 0"
    by (simp_all add: assms(1) au_length_def pesHeaderSize_init_def pes_room_def)
  consider "length bs = 0" | "0 < length bs" "length bs \<le> 173" | "length bs = 174" | "175 \<le> length bs" by linarith
  then show ?thesis
  proof cases
    case 1
    then have "packetizePES au 255 0 0 = Some ([], 0)"
      unfolding packetizePES_def by (subst packetizePES_loop.simps) (simp add: au(1) TS_SIZE_def)
    then show ?thesis using 1 by (simp add: packet_count_def)
  next
    case 2
    then show ?thesis using packetizePES_single [of au 255 0 0] au by (auto simp: packet_count_def)
  next
    case 3
    then show ?thesis using packetizePES_multi [of au 255 0 0] au by (simp add: packet_count_def)
  next
    case 4
    then have "0 < au_length au" "au_length au < 2 ^ 31" "188 < pesHeaderSize_init au + au_length au" "pes_room au 0 \<le> au_length au"
      using assms(2) by (auto simp: au)
    from packetizePES_several [OF this, of 255 0]
    obtain p ps c where "packetizePES au 255 0 0 = Some (p # ps, c)" "length ps = pes_tail_count (length bs - 175)"
      unfolding au by (auto simp del: packet_run.simps payloads.simps)
    then show ?thesis using 4 by (auto simp: packet_count_def)
  qed
qed

section \<open>A later time stamp\<close>

text \<open>The line for a time stamp \<open>t\<close> that is stored as \<open>bs\<close>.\<close>

definition stamp_line :: "u64 \<Rightarrow> bytes \<Rightarrow> string" where
  "stamp_line t bs = g6 (to_double (unat t) 90000) @ '' sec ('' @ decw t @ '') ('' @ hex_bytes bs @ '')''"

lemma output_stamp_eq:
  "pes_flags2 p = 0x80 \<Longrightarrow> pes_PTS p = bs \<Longrightarrow> length bs = 5 \<Longrightarrow> output_stamp p = Some (stamp_line (decodeTimestamp bs) bs)"
  using rd_n_prefix [of 5 bs "[]"]
  by (simp add: output_stamp_def outputPTS_def stamp_line_def ptsInSeconds_def pts_def)

lemma length_encodeTimestamp [simp]: "length (encodeTimestamp t) = 5"
  by (simp add: encodeTimestamp_eq)

text \<open>The first packet, if it starts a PES packet with a PTS: only the five bytes of the stamp change.\<close>

lemma modify_first_stamp:
  assumes wf: "wf_packet p" and data: "getData p = Some (Some (0 # 0 # 1 # sid # h # l # f # 0x80 # 5 # ts @ d))"
    and len: "length ts = 5" and sid: "has_pes_header sid"
  defines "t \<equiv> decodeTimestamp ts" and "new \<equiv> encodeTimestamp (decodeTimestamp ts + 90000)"
  shows "\<exists>q. modify_first p = Some (line [''Add one second to PTS''] @
      line [''PTS '', stamp_line t ts, '' => '', stamp_line (decodeTimestamp new) new], q) \<and> wf_packet q \<and>
    take (payload_start p) (pk_data q) = take (payload_start p) (pk_data p) \<and>
    getData q = Some (Some (0 # 0 # 1 # sid # h # l # f # 0x80 # 5 # new @ d))"
proof -
  let ?data = "0 # 0 # 1 # sid # h # l # f # 0x80 # 5 # ts @ d"
  let ?data' = "0 # 0 # 1 # sid # h # l # f # 0x80 # 5 # new @ d"
  define q where "q = p\<lparr>pk_data := take (payload_start p) (pk_data p) @ ?data'\<rparr>"
  define r where "r = new_pes\<lparr>packet_start_code_prefix := [0, 0, 1], pes_stream_id := sid, PES_packet_length := be16 h l,
    pes_flags1 := f, pes_flags2 := 0x80, PES_header_data_length := 5, pes_PTS := ts\<rparr>"
  have drop: "drop (payload_start p) (pk_data p) = ?data" using getData_wf [OF wf] data by simp
  have size: "payload_size p = 14 + length d" using payload_length [OF wf] len by (simp add: drop)
  have parse: "pes_parse new_pes ?data = Some (r, 14)"
    using pes_parse_header [OF _ sid, of new_pes h l f "0x80" 5 "ts @ d"] rd_n_prefix [of 5 ts d] len
    by (simp add: new_pes_def r_def)
  have r: "pts r = t" "output_stamp r = Some (stamp_line t ts)"
    using output_stamp_eq [of r ts] len by (simp_all add: r_def pts_def t_def)
  have "pes_header_bytes (setPTS r (t + 90000)) = 0 # 0 # 1 # sid # h # l # f # 0x80 # 5 # new"
    using pes_header_bytes_eq [of "setPTS r (t + 90000)"]
    by (simp add: wf_pes_def setPTS_def r_def new_pes_def new_def t_def endian_simps)
  then have ser: "pes_serialize (setPTS r (t + 90000)) (?data @ z) = Some (?data' @ z)" for z
    using len by (simp add: pes_serialize_def new_def)
  have small: "length d \<le> 174" using payload_size_le [of p] size by simp
  have get: "getPayload p (replicate 188 0) 188 = Some (?data @ replicate (174 - length d) 0, int (payload_size p))"
    using getPayload_wf [OF wf refl, of 188 "replicate 188 0"] payload_length [OF wf] len
    small by (simp add: drop size)
  have len': "length ?data' = payload_size p" by (simp add: size new_def)
  then have take: "take (payload_size p) (?data' @ z) = ?data'" for z by (metis append_eq_conv_conj)
  have set: "setPayload p (?data' @ z) (int (payload_size p)) = Some q" for z
    using setPayload_wf [OF wf, of "payload_size p" "int (payload_size p)" "?data' @ z", unfolded take] wf len' payload_start_size [of p]
    by (simp add: q_def wf_packet_def)
  have add: "add_second p r = Some (q, setPTS r (t + 90000))"
    using r(1) get ser set unfolding add_second_def by (simp add: Let_def)
  have stamp: "output_stamp (setPTS r (t + 90000)) = Some (stamp_line (decodeTimestamp new) new)"
    by (rule output_stamp_eq) (simp_all add: setPTS_def new_def t_def)
  have "wf_packet q" using wf size payload_start_size [of p] by (simp add: q_def wf_packet_def new_def)
  moreover have pre: "take (payload_start p) (pk_data q) = take (payload_start p) (pk_data p)"
    using payload_start_bounds(2) [of p] wf by (simp add: q_def wf_packet_def)
  have "payload_start q = payload_start p" unfolding payload_start_def by (simp only: payload_size_prefix [OF pre])
  then have "getData q = Some (Some ?data')"
    using getData_wf [OF \<open>wf_packet q\<close>] payload_start_bounds(2) [of p] wf by (simp add: q_def wf_packet_def)
  ultimately show ?thesis using pre
    by (intro exI [of _ q]) (simp add: modify_first_def data parse r(2) add stamp deref_def)
qed

text \<open>\<open>setPID (256)\<close> sets 257 in every packet.\<close>

lemma reset_PIDs_eq:
  "list_all wf_packet tss \<Longrightarrow> reset_PIDs tss = concat (map (\<lambda>ts. line [''PID '', decw (PID ts), '' => 257'']) tss)"
proof (induction tss)
  case (Cons ts tss)
  have "PID (setPID ts 256) = 257" using setPID_roundtrip_iff [of ts 256] Cons.prems by (simp add: hi8_def be16_def)
  then show ?case using Cons by (simp add: decw_def dec_def digits_in.simps line_def)
qed simp

lemma packet_run_rest:
  "packet_run pid st c ps \<Longrightarrow> list_all wf_packet (map (pkt \<circ> pk_data) ps) \<and>
     map (\<lambda>t. PID (pkt (pk_data t))) ps = replicate (length ps) pid"
  by (induction pid st c ps rule: packet_run.induct) (simp_all add: pkt_same)

lemma below_2_30: "t < 2 ^ 30 \<Longrightarrow> (t AND 0x3FFFFFFF) OR (if bit t 31 then 0x180000000 else 0) = (t :: u64)"
proof (rule bit_word_eqI)
  fix n assume "t < 2 ^ 30"
  then have "unat t < 2 ^ 30" by (simp add: word_less_nat_alt)
  then have "\<not> bit t k" if "30 \<le> k" for k using bit_below [of t 30 k] that by linarith
  then show "bit ((t AND 0x3FFFFFFF) OR (if bit t 31 then 0x180000000 else 0)) n = bit t n"
    by (cases "n < 30") (auto simp: bit_simps word_bits)
qed

section \<open>Properties\<close>

text \<open>
  Property C37. What \<open>packtest\<close> prints for every size: 0 for 0, 1 from 1 to 173 bytes, and 0 for 174, for which no packet is
  made at all; above, one packet for the first 175 bytes and one for every 184 that follow, but one more when
  the rest is 183. A negative size ends in an exception; without an argument the program prints its usage, goes
  on, and reads past its arguments.
\<close>

theorem packtest_counts:
  assumes "n < 2 ^ 31" "0 < k" "k \<le> 2 ^ 31"
  shows "packtest [show_int (int n)] = Some (Test_Exit 0 (line [dec (packet_count n)]) []) \<and>
    packtest [show_int (- int k)] = Some Length_error \<and> packtest [] = None"
proof (intro conjI)
  have n: "atoi (show_int (int n)) = Some (int n)" using assms(1) by (simp add: atoi_def stoi_show_int)
  obtain ps c where "packetizePES \<lparr>sodb = replicate n 0x2A, au_pts = 0, au_dts = 0, au_stream_id = 0xBD\<rparr> 255 0 0 = Some (ps, c)"
      "length ps = packet_count n"
    using packetizePES_count [OF refl, of "replicate n 0x2A"] assms(1) by auto
  then show "packtest [show_int (int n)] = Some (Test_Exit 0 (line [dec (packet_count n)]) [])"
    using n by (simp add: packtest_def access_unit_of_def rd_n_def new_access_unit_def)
  have "atoi (show_int (- int k)) = Some (- int k)" using assms(2,3) by (simp add: atoi_def stoi_show_int)
  then show "packtest [show_int (- int k)] = Some Length_error" using assms(2) by (simp add: packtest_def)
qed (simp add: packtest_def)

theorem packtest_counts_witness:
  "packtest [''174''] = Some (Test_Exit 0 (line [''0'']) []) \<and> packtest [''-1''] = Some Length_error"
  using packtest_counts [of 174 1] by (simp add: show_int_def dec_def digits_in.simps packet_count_def)

text \<open>
  Property C17. \<open>modifytest\<close> on a file of the packets of one access unit, without a DTS and with a PTS from 1 up to
  \<open>2 ^ 31\<close>. In the first packet, which it holds in memory, it stores the stamp that \<open>setPTS\<close> makes of the
  old one plus 90000, and changes neither the rest of the header nor the data. Read back, the new stamp is the old one plus
  90000 when this sum is below \<open>2 ^ 30\<close>; otherwise it lacks the bit 30 of the sum, and from \<open>2 ^ 31\<close> on its bits 31
  and 32 are set. The program prints both stamps as they are read, and for each packet that its
  PID is 257 now, although it asks for 256; it ends with 0.
\<close>

theorem modifytest_adds_second:
  assumes au: "sendable au pcr" "0 < au_pts au" "pid < 0x2000"
    and ps: "packetizePES au pid c pcr = Some (ps, c')"
    and "open_in path = Some (concat (map pk_data ps))"
    and new: "new = encodeTimestamp (au_pts au + 90000)"
  shows "\<exists>p rest q before d.
    ps = p # rest \<and> length before = 9 \<and>
    getData (pkt (pk_data p)) = Some (Some (before @ writePTS 2 (au_pts au) @ d)) \<and>
    modify_first (pkt (pk_data p)) = Some (line [''Add one second to PTS''] @
      line [''PTS '', stamp_line (au_pts au) (writePTS 2 (au_pts au)), '' => '', stamp_line (decodeTimestamp new) new], q) \<and>
    getData q = Some (Some (before @ new @ d)) \<and>
    decodeTimestamp new = ((au_pts au + 90000) AND 0x3FFFFFFF) OR (if bit (au_pts au + 90000) 31 then 0x180000000 else 0) \<and>
    (au_pts au + 90000 < 2 ^ 30 \<longrightarrow> decodeTimestamp new = au_pts au + 90000) \<and>
    modifytest open_in [path] = Some (Test_Exit 0
      (line [''Add one second to PTS''] @
       line [''PTS '', stamp_line (au_pts au) (writePTS 2 (au_pts au)), '' => '', stamp_line (decodeTimestamp new) new] @
       line [''Reset PID''] @ concat (replicate (length ps) (line [''PID '', decw pid, '' => 257'']))) [])"
proof -
  have send: "0 < au_length au" "au_length au < 2 ^ 31" "au_dts au = 0" "au_pts au < 2 ^ 31" "has_pes_header (au_stream_id au)"
      "pesHeaderSize_init au + au_length au \<le> 188 \<or> pes_room au pcr \<le> au_length au"
    using au(1) by (auto simp: sendable_def)
  obtain p rest b r where pr: "ps = p # rest" "packet_run pid True c (p # rest)"
      "getData p = Some (Some (pes_unit_header au b @ r))"
    using packetizePES_unit [OF send(1,2) au(3) send(3,6), of c] ps by (auto simp del: packet_run.simps payloads.simps)
  define ts where "ts = writePTS 2 (au_pts au)"
  define P where "P = pkt (pk_data p)"
  let ?before = "[0, 0, 1, au_stream_id au, hi8 (sent_pes_length au), lo8 (sent_pes_length au), 0x80, 0x80, 5]"
  have ts: "length ts = 5" "decodeTimestamp ts = au_pts au"
    unfolding ts_def decode_writePTS by (rule below_2_31 [OF send(4)] | simp add: writePTS_def Let_def)+
  have P: "wf_packet P" "payloadUnitStart P" "PID P = pid" using pr(2) by (simp_all add: P_def pkt_same)
  have "pes_unit_header au b = ?before @ ts"
    using au(2) send(3) by (simp add: pes_unit_header_def pes_pts_bytes_def pes_length_bytes_eq ts_def)
  then have data: "getData P = Some (Some (?before @ ts @ r))"
    using pr(2,3) by (simp add: P_def getData_same)
  from modify_first_stamp [OF P(1) _ ts(1) send(5)] data
  obtain q where q: "modify_first P = Some (line [''Add one second to PTS''] @
      line [''PTS '', stamp_line (au_pts au) ts, '' => '', stamp_line (decodeTimestamp new) new], q)" "wf_packet q"
      "take (payload_start P) (pk_data q) = take (payload_start P) (pk_data P)"
      "getData q = Some (Some (?before @ new @ r))"
    by (auto simp: ts(2) new)
  have prefix: "pk_data q ! i = pk_data P ! i" if "i < 4" for i
    using q(3) that payload_start_bounds(1) [of P] by (metis nth_take less_le_trans)
  have "PID q = pid" using P(3) prefix [of 1] prefix [of 2] by (simp add: PID_def)
  have run: "packet_run pid False (c + 1) rest" using pr(2) by simp
  have rest: "list_all wf_packet (map (pkt \<circ> pk_data) rest)" "map (\<lambda>t. PID (pkt (pk_data t))) rest = replicate (length rest) pid"
    using packet_run_rest [OF run] by simp_all
  have resets: "reset_PIDs (q # map (pkt \<circ> pk_data) rest) = concat (replicate (length ps) (line [''PID '', decw pid, '' => 257'']))"
  proof -
    have "map (\<lambda>t. line [''PID '', decw (PID t), '' => 257'']) (map (pkt \<circ> pk_data) rest) =
        map (\<lambda>n. line [''PID '', decw n, '' => 257'']) (map (\<lambda>t. PID (pkt (pk_data t))) rest)" by simp
    then show ?thesis using reset_PIDs_eq [of "q # map (pkt \<circ> pk_data) rest"] q(2) rest \<open>PID q = pid\<close>
      by (simp add: pr(1) map_replicate_const)
  qed
  have "demux_loop onPacket_collect (concat (map pk_data ps)) (replicate read_size 0) new_parser [] =
      Some (0, std_parser (word_of_nat (length ps)) [], map (pkt \<circ> pk_data) ps)"
    using demux_loop_packets [of "map pk_data ps" onPacket_collect "[]" "map (pkt \<circ> pk_data) ps" "replicate read_size 0" 0]
      packet_run_is_ts [OF pr(2)]
    by (simp add: feed_collect pr(1) std_parser_def new_parser_def onPacket_collect_def)
  then have "modifytest open_in [path] = Some (Test_Exit 0
      (line [''Add one second to PTS''] @
       line [''PTS '', stamp_line (au_pts au) ts, '' => '', stamp_line (decodeTimestamp new) new] @
       line [''Reset PID''] @ concat (replicate (length ps) (line [''PID '', decw pid, '' => 257'']))) [])"
    using q(1) resets assms(5) by (simp add: modifytest_def pr(1) P_def del: reset_PIDs.simps)
  moreover have "decodeTimestamp new = au_pts au + 90000" if "au_pts au + 90000 < 2 ^ 30"
    unfolding new decode_encode by (rule below_2_30 [OF that])
  moreover note decode_encode [of "au_pts au + 90000", folded new]
  ultimately show ?thesis
    using q data unfolding ts_def [symmetric] P_def
    by (intro exI [of _ p] exI [of _ rest] exI [of _ q] exI [of _ ?before] exI [of _ r]) (simp add: pr(1))
qed

theorem modifytest_adds_second_witness:
  "\<exists>ps. packetizePES (sample_au 100 90000 0) 0x100 0 0 = Some (ps, 1) \<and>
    modifytest (\<lambda>_. Some (concat (map pk_data ps))) [''a.ts''] = Some (Test_Exit 0
      (line [''Add one second to PTS''] @
       line [''PTS '', stamp_line 90000 (writePTS 2 90000), '' => '', stamp_line 180000 (encodeTimestamp 180000)] @
       line [''Reset PID''] @ line [''PID '', ''256'', '' => 257'']) [])"
proof -
  obtain p where p: "packetizePES (sample_au 100 90000 0) 0x100 0 0 = Some ([p], 0 + 1)" by (rule sample_au_packet)
  have "sendable (sample_au 100 90000 0) 0"
    by (simp add: sendable_def sample_au_def au_length_def pesHeaderSize_init_def has_pes_header_def)
  from modifytest_adds_second [OF this _ _ p, of "\<lambda>_. Some (concat (map pk_data [p]))" "''a.ts''" "encodeTimestamp 180000"]
  show ?thesis using p by (auto simp: sample_au_def decw_def dec_def digits_in.simps)
qed

end
