(* ===== verification/Object_Lifetime.thy ===== *)
theory Object_Lifetime
  imports Metadata_AU Network_Information Program_Association Program_Map Pes_Packet Transport_Packet Access_Unit
begin

text \<open>
  Construction, copies, moves and destruction of the library's objects. The classes \<open>AccessUnit\<close>,
  \<open>TransportPacket\<close>, \<open>PESPacket\<close>, \<open>ProgramAssociationTable\<close>, \<open>ProgramMapTable\<close> and
  \<open>NetworkInformationTable\<close> hold nothing but a \<open>unique_ptr<Impl>\<close>, and write their special members in the
  same way; the other theories take such an object for the value of its \<open>Impl\<close>. Here the objects are addresses,
  with their pointers and the heap behind them, which says when that view is right. The classes
  \<open>Descriptor\<close>, \<open>ProgramElement\<close>, \<open>MetadataAUCell\<close> and \<open>MetadataAUWrapper\<close> have their members in the object.
\<close>

section \<open>Objects that own an \<open>Impl\<close>\<close>

text \<open>
  \<open>pimpl s a\<close> is the \<open>_pimpl\<close> of the object at \<open>a\<close>, \<open>Some None\<close> if it is null, and \<open>None\<close> if no object lives there;
  \<open>impls\<close> is the heap, and \<open>next_impl\<close> the next address that \<open>new\<close> returns.
\<close>

record 'i objects =
  pimpl :: "nat \<rightharpoonup> nat option"
  impls :: "nat \<rightharpoonup> 'i"
  next_impl :: nat

definition no_objects :: "'i objects" where
  "no_objects = \<lparr>pimpl = Map.empty, impls = Map.empty, next_impl = 0\<rparr>"

definition alloc :: "'i \<Rightarrow> 'i objects \<Rightarrow> nat \<times> 'i objects" where
  "alloc x s = (next_impl s, s\<lparr>impls := (impls s)(next_impl s \<mapsto> x), next_impl := Suc (next_impl s)\<rparr>)"

text \<open>What a \<open>unique_ptr\<close> does with the pointer it gives up.\<close>

definition release :: "nat option \<Rightarrow> 'i objects \<Rightarrow> 'i objects" where
  "release q s = (case q of None \<Rightarrow> s | Some p \<Rightarrow> s\<lparr>impls := (impls s)(p := None)\<rparr>)"

text \<open>\<open>*_pimpl\<close>, and the effect of a member function on it; neither is defined for a null pointer.\<close>

definition the_impl :: "nat \<Rightarrow> 'i objects \<Rightarrow> 'i option" where
  "the_impl a s = do { q \<leftarrow> pimpl s a; p \<leftarrow> q; impls s p }"

definition apply_impl :: "('i \<Rightarrow> 'i option) \<Rightarrow> nat \<Rightarrow> 'i objects \<Rightarrow> 'i objects option" where
  "apply_impl f a s = do {
     q \<leftarrow> pimpl s a;
     p \<leftarrow> q;
     x \<leftarrow> impls s p;
     y \<leftarrow> f x;
     Some (s\<lparr>impls := (impls s)(p \<mapsto> y)\<rparr>) }"

text \<open>The constructors; \<open>x\<close> is the new \<open>Impl\<close>, and \<open>cp\<close> the copy constructor of \<open>Impl\<close>.\<close>

definition object_new :: "'i \<Rightarrow> nat \<Rightarrow> 'i objects \<Rightarrow> 'i objects option" where
  "object_new x a s =
     (if pimpl s a \<noteq> None then None
      else let (p, s) = alloc x s in Some (s\<lparr>pimpl := (pimpl s)(a \<mapsto> Some p)\<rparr>))"

definition object_copy :: "('i \<Rightarrow> 'i) \<Rightarrow> nat \<Rightarrow> nat \<Rightarrow> 'i objects \<Rightarrow> 'i objects option" where
  "object_copy cp a src s = do { x \<leftarrow> the_impl src s; object_new (cp x) a s }"

definition object_delete :: "nat \<Rightarrow> 'i objects \<Rightarrow> 'i objects option" where
  "object_delete a s = do {
     q \<leftarrow> pimpl s a;
     let s = release q s;
     Some (s\<lparr>pimpl := (pimpl s)(a := None)\<rparr>) }"

definition object_assign :: "('i \<Rightarrow> 'i) \<Rightarrow> nat \<Rightarrow> nat \<Rightarrow> 'i objects \<Rightarrow> 'i objects option" where
  "object_assign cp a rhs s = do {
     old \<leftarrow> pimpl s a;
     if a \<noteq> rhs then do {
       x \<leftarrow> the_impl rhs s;
       let (p, s) = alloc (cp x) s;
       let s = s\<lparr>pimpl := (pimpl s)(a \<mapsto> Some p)\<rparr>;
       Some (release old s)
     }
     else Some s }"

definition object_move_assign :: "nat \<Rightarrow> nat \<Rightarrow> 'i objects \<Rightarrow> 'i objects option" where
  "object_move_assign a rhs s = do {
     old \<leftarrow> pimpl s a;
     if a \<noteq> rhs then do {
       q \<leftarrow> pimpl s rhs;
       let s = s\<lparr>pimpl := (pimpl s)(rhs \<mapsto> None, a \<mapsto> q)\<rparr>;
       Some (release old s)
     }
     else Some s }"

text \<open>The move constructor starts with a null pointer and assigns.\<close>

definition object_move :: "nat \<Rightarrow> nat \<Rightarrow> 'i objects \<Rightarrow> 'i objects option" where
  "object_move a src s =
     (if pimpl s a \<noteq> None then None
      else object_move_assign a src (s\<lparr>pimpl := (pimpl s)(a \<mapsto> None)\<rparr>))"

text \<open>What a client does with the objects of a class.\<close>

datatype 'i object_op =
    Construct nat 'i
  | Copy_construct nat nat
  | Move_construct nat nat
  | Copy_assign nat nat
  | Move_assign nat nat
  | Member nat "'i \<Rightarrow> 'i option"
  | Destroy nat

fun object_step :: "('i \<Rightarrow> 'i) \<Rightarrow> 'i object_op \<Rightarrow> 'i objects \<Rightarrow> 'i objects option" where
  "object_step cp (Construct a x) s = object_new x a s"
| "object_step cp (Copy_construct a b) s = object_copy cp a b s"
| "object_step cp (Move_construct a b) s = object_move a b s"
| "object_step cp (Copy_assign a b) s = object_assign cp a b s"
| "object_step cp (Move_assign a b) s = object_move_assign a b s"
| "object_step cp (Member a f) s = apply_impl f a s"
| "object_step cp (Destroy a) s = object_delete a s"

fun object_run :: "('i \<Rightarrow> 'i) \<Rightarrow> 'i object_op list \<Rightarrow> 'i objects \<Rightarrow> 'i objects option" where
  "object_run cp [] s = Some s"
| "object_run cp (x # xs) s = do { s \<leftarrow> object_step cp x s; object_run cp xs s }"

section \<open>The abstract view: objects as values\<close>

text \<open>\<open>Some None\<close> is an object that was moved from. There is neither a heap nor a pointer.\<close>

type_synonym 'i valuation = "nat \<rightharpoonup> 'i option"

fun value_step :: "('i \<Rightarrow> 'i) \<Rightarrow> 'i object_op \<Rightarrow> 'i valuation \<Rightarrow> 'i valuation option" where
  "value_step cp (Construct a x) v = (if v a \<noteq> None then None else Some (v(a \<mapsto> Some x)))"
| "value_step cp (Copy_construct a b) v =
     (case v b of Some (Some x) \<Rightarrow> if v a \<noteq> None then None else Some (v(a \<mapsto> Some (cp x))) | _ \<Rightarrow> None)"
| "value_step cp (Move_construct a b) v =
     (if v a \<noteq> None then None
      else if a = b then Some (v(a \<mapsto> None))
      else case v b of Some y \<Rightarrow> Some (v(b \<mapsto> None, a \<mapsto> y)) | None \<Rightarrow> None)"
| "value_step cp (Copy_assign a b) v =
     (if v a = None then None else if a = b then Some v
      else case v b of Some (Some x) \<Rightarrow> Some (v(a \<mapsto> Some (cp x))) | _ \<Rightarrow> None)"
| "value_step cp (Move_assign a b) v =
     (if v a = None then None else if a = b then Some v
      else case v b of Some y \<Rightarrow> Some (v(b \<mapsto> None, a \<mapsto> y)) | None \<Rightarrow> None)"
| "value_step cp (Member a f) v =
     (case v a of Some (Some x) \<Rightarrow> (case f x of Some y \<Rightarrow> Some (v(a \<mapsto> Some y)) | None \<Rightarrow> None) | _ \<Rightarrow> None)"
| "value_step cp (Destroy a) v = (if v a = None then None else Some (v(a := None)))"

fun value_run :: "('i \<Rightarrow> 'i) \<Rightarrow> 'i object_op list \<Rightarrow> 'i valuation \<Rightarrow> 'i valuation option" where
  "value_run cp [] v = Some v"
| "value_run cp (x # xs) v = do { v \<leftarrow> value_step cp x v; value_run cp xs v }"

definition values_of :: "'i objects \<Rightarrow> 'i valuation" where
  "values_of s = (\<lambda>a. case pimpl s a of None \<Rightarrow> None | Some None \<Rightarrow> Some None | Some (Some p) \<Rightarrow> Some (impls s p))"

text \<open>Each pointer leads to an \<open>Impl\<close> of its own, and no \<open>Impl\<close> is left without an owner.\<close>

definition owned :: "'i objects \<Rightarrow> bool" where
  "owned s \<longleftrightarrow>
     (\<forall>a p. pimpl s a = Some (Some p) \<longrightarrow> impls s p \<noteq> None) \<and>
     (\<forall>a b p. pimpl s a = Some (Some p) \<and> pimpl s b = Some (Some p) \<longrightarrow> a = b) \<and>
     (\<forall>p. impls s p \<noteq> None \<longrightarrow> p < next_impl s \<and> (\<exists>a. pimpl s a = Some (Some p)))"

section \<open>The two views agree\<close>

lemma ownedD:
  assumes "owned s"
  shows "pimpl s a = Some (Some p) \<Longrightarrow> \<exists>x. impls s p = Some x"
    and "pimpl s a = Some (Some p) \<Longrightarrow> pimpl s b = Some (Some p) \<Longrightarrow> a = b"
    and "impls s p = Some x \<Longrightarrow> p < next_impl s"
    and "impls s p = Some x \<Longrightarrow> \<exists>a. pimpl s a = Some (Some p)"
    and "pimpl s a = Some (Some p) \<Longrightarrow> p < next_impl s"
  using assms unfolding owned_def by blast+

lemma ownedI:
  assumes "\<And>a p. pimpl s a = Some (Some p) \<Longrightarrow> impls s p \<noteq> None"
    and "\<And>a b p. pimpl s a = Some (Some p) \<Longrightarrow> pimpl s b = Some (Some p) \<Longrightarrow> a = b"
    and "\<And>p. impls s p \<noteq> None \<Longrightarrow> p < next_impl s \<and> (\<exists>a. pimpl s a = Some (Some p))"
  shows "owned s"
  using assms unfolding owned_def by blast

lemma values_of_simps:
  "values_of s a = None \<longleftrightarrow> pimpl s a = None"
  "pimpl s a = Some None \<Longrightarrow> values_of s a = Some None"
  "pimpl s a = Some (Some p) \<Longrightarrow> values_of s a = Some (impls s p)"
  by (auto simp: values_of_def split: option.splits)

lemma the_impl_value: "owned s \<Longrightarrow> the_impl a s = (case values_of s a of Some y \<Rightarrow> y | None \<Rightarrow> None)"
  by (auto simp: the_impl_def values_of_def split: option.splits)

lemma owned_no_objects: "owned no_objects" "values_of no_objects = Map.empty"
  by (simp_all add: owned_def no_objects_def values_of_def)

text \<open>A pointer is put into a slot whose old pointer is released: to a new \<open>Impl\<close>, or another object's.\<close>

lemma release_simps [simp]:
  "pimpl (release q s) = pimpl s" "next_impl (release q s) = next_impl s"
  "impls (release q s) p = (if q = Some p then None else impls s p)"
  by (simp_all add: release_def split: option.splits)

lemma install_new:
  assumes "owned s" "case pimpl s a of None \<Rightarrow> old = None | Some q \<Rightarrow> old = q"
  assumes t_def: "t = release old (s\<lparr>impls := (impls s)(next_impl s \<mapsto> x), next_impl := Suc (next_impl s),
    pimpl := (pimpl s)(a \<mapsto> Some (next_impl s))\<rparr>)"
  shows "owned t \<and> values_of t = (values_of s)(a \<mapsto> Some x)"
proof
  note o = ownedD [OF assms(1)]
  have fresh: "pimpl s b \<noteq> Some (Some (next_impl s))" "impls s (next_impl s) = None" for b
    using o(1) o(3) by fastforce+
  have old: "old = Some p \<Longrightarrow> pimpl s a = Some (Some p)" for p
    using assms(2) by (auto split: option.splits)
  show "owned t"
  proof (rule ownedI)
    fix b p assume "pimpl t b = Some (Some p)"
    then show "impls t p \<noteq> None"
      using o(1) [of b p] o(2) [of b p a] fresh old [of p]
      by (auto simp: t_def split: option.splits if_splits)
  next
    fix b c p assume "pimpl t b = Some (Some p)" "pimpl t c = Some (Some p)"
    then show "b = c"
      using o(2) [of b p c] fresh by (auto simp: t_def split: option.splits if_splits)
  next
    fix p assume p: "impls t p \<noteq> None"
    show "p < next_impl t \<and> (\<exists>b. pimpl t b = Some (Some p))"
    proof (cases "p = next_impl s")
      case True
      then show ?thesis by (auto simp: t_def split: option.splits)
    next
      case False
      then obtain y where y: "impls s p = Some y" "old \<noteq> Some p"
        using p by (auto simp: t_def split: option.splits if_splits)
      then obtain b where "pimpl s b = Some (Some p)" using o(4) by blast
      moreover from this have "b \<noteq> a" using assms(2) y(2) by auto
      ultimately show ?thesis
        using o(3) [OF y(1)] by (auto simp: t_def split: option.splits intro!: exI [of _ b])
    qed
  qed
  show "values_of t = (values_of s)(a \<mapsto> Some x)"
  proof
    fix b
    show "values_of t b = ((values_of s)(a \<mapsto> Some x)) b"
      using fresh(1) [of b] o(2) [of b _ a] old
      by (auto simp: t_def values_of_def fresh split: option.splits)
  qed
qed

lemma install_moved:
  assumes "owned s" "pimpl s b = Some q" "a \<noteq> b" "case pimpl s a of None \<Rightarrow> old = None | Some q \<Rightarrow> old = q"
  assumes t_def: "t = release old (s\<lparr>pimpl := (pimpl s)(b \<mapsto> None, a \<mapsto> q)\<rparr>)"
  shows "owned t \<and> values_of t = (values_of s)(b \<mapsto> None, a \<mapsto> the (values_of s b))"
proof
  note o = ownedD [OF assms(1)]
  have old: "old = Some p \<Longrightarrow> pimpl s a = Some (Some p)" for p
    using assms(4) by (auto split: option.splits)
  show "owned t"
  proof (rule ownedI)
    fix c p assume "pimpl t c = Some (Some p)"
    then show "impls t p \<noteq> None"
      using o(1) [of c p] o(1) [of b p] o(2) [of c p a] o(2) [of b p a] assms(2,3) old [of p]
      by (auto simp: t_def split: option.splits if_splits)
  next
    fix c d p assume "pimpl t c = Some (Some p)" "pimpl t d = Some (Some p)"
    then show "c = d"
      using o(2) [of c p d] o(2) [of b p d] o(2) [of c p b] assms(2,3)
      by (cases "c = a"; cases "d = a"; cases "c = b"; cases "d = b") (simp_all add: t_def)
  next
    fix p assume "impls t p \<noteq> None"
    then obtain y where y: "impls s p = Some y" "old \<noteq> Some p"
      by (auto simp: t_def split: option.splits if_splits)
    then obtain c where "pimpl s c = Some (Some p)" using o(4) by blast
    moreover from this have "c \<noteq> a" using assms(4) y(2) by auto
    ultimately show "p < next_impl t \<and> (\<exists>c. pimpl t c = Some (Some p))"
      using o(3) [OF y(1)] assms(2)
      by (cases "c = b") (auto simp: t_def split: option.splits intro: exI [of _ c] exI [of _ a])
  qed
  show "values_of t = (values_of s)(b \<mapsto> None, a \<mapsto> the (values_of s b))"
  proof
    fix c
    show "values_of t c = ((values_of s)(b \<mapsto> None, a \<mapsto> the (values_of s b))) c"
      using o(2) [of c _ a] o(2) [of b _ a] old assms(2,3)
      by (auto simp: t_def values_of_def split: option.splits)
  qed
qed

lemma destroyed:
  assumes "owned s" "pimpl s a = Some q" and t_def: "t = (release q s)\<lparr>pimpl := (pimpl s)(a := None)\<rparr>"
  shows "owned t \<and> values_of t = (values_of s)(a := None)"
proof
  note o = ownedD [OF assms(1)]
  show "owned t"
  proof (rule ownedI)
    fix c p assume "pimpl t c = Some (Some p)"
    then show "impls t p \<noteq> None"
      using o(1) [of c p] o(2) [of c p a] assms(2) by (auto simp: t_def split: if_splits)
  next
    fix c d p assume "pimpl t c = Some (Some p)" "pimpl t d = Some (Some p)"
    then show "c = d" using o(2) [of c p d] by (auto simp: t_def split: if_splits)
  next
    fix p assume "impls t p \<noteq> None"
    then obtain y where y: "impls s p = Some y" "q \<noteq> Some p" by (auto simp: t_def split: if_splits)
    then obtain c where "pimpl s c = Some (Some p)" using o(4) by blast
    then show "p < next_impl t \<and> (\<exists>c. pimpl t c = Some (Some p))"
      using o(3) [OF y(1)] y(2) assms(2) by (auto simp: t_def intro!: exI [of _ c])
  qed
  show "values_of t = (values_of s)(a := None)"
  proof
    fix c
    show "values_of t c = ((values_of s)(a := None)) c"
      using o(2) [of c _ a] assms(2) by (auto simp: t_def values_of_def split: option.splits)
  qed
qed

lemma changed:
  assumes "owned s" "pimpl s a = Some (Some p)" and t_def: "t = s\<lparr>impls := (impls s)(p \<mapsto> y)\<rparr>"
  shows "owned t \<and> values_of t = (values_of s)(a \<mapsto> Some y)"
proof
  note o = ownedD [OF assms(1)]
  show "owned t"
  proof (rule ownedI)
    fix c r assume "pimpl t c = Some (Some r)"
    then show "impls t r \<noteq> None" using o(1) [of c r] by (auto simp: t_def)
  next
    fix c d r assume "pimpl t c = Some (Some r)" "pimpl t d = Some (Some r)"
    then show "c = d" using o(2) [of c r d] by (simp add: t_def)
  next
    fix r assume "impls t r \<noteq> None"
    then obtain x where "impls s r = Some x" using o(1) [OF assms(2)] by (cases "r = p") (auto simp: t_def)
    then show "r < next_impl t \<and> (\<exists>c. pimpl t c = Some (Some r))" using o(3,4) by (simp add: t_def)
  qed
  show "values_of t = (values_of s)(a \<mapsto> Some y)"
  proof
    fix c
    show "values_of t c = ((values_of s)(a \<mapsto> Some y)) c"
    proof (cases "c = a")
      case False
      then have "pimpl s c \<noteq> Some (Some p)" using o(2) [of c p a] assms(2) by blast
      then show ?thesis using False by (auto simp: t_def values_of_def split: option.splits)
    qed (simp add: t_def values_of_def assms(2))
  qed
qed

text \<open>Each operation.\<close>

definition agree :: "'i objects option \<Rightarrow> 'i valuation option \<Rightarrow> bool" where
  "agree r w \<longleftrightarrow> map_option values_of r = w \<and> pred_option owned r"

lemma agree_simps [simp]: "agree None w \<longleftrightarrow> w = None" "agree (Some t) w \<longleftrightarrow> w = Some (values_of t) \<and> owned t"
  by (auto simp: agree_def)

lemma values_cases:
  assumes "owned s"
  obtains "pimpl s a = None" "values_of s a = None"
  | "pimpl s a = Some None" "values_of s a = Some None"
  | p x where "pimpl s a = Some (Some p)" "impls s p = Some x" "values_of s a = Some (Some x)"
  using ownedD(1) [OF assms, of a] by (cases "pimpl s a"; cases "the (pimpl s a)") (auto simp: values_of_def)

lemma agree_new: "owned s \<Longrightarrow> agree (object_new x a s) (if values_of s a \<noteq> None then None else Some ((values_of s)(a \<mapsto> Some x)))"
  using install_new [of s None a _ x, OF _ _ refl] by (simp add: object_new_def alloc_def values_of_simps release_def)

lemma agree_move:
  assumes s: "owned s"
  shows "agree (object_move_assign a b s) (value_step cp (Move_assign a b) (values_of s))"
proof (cases "pimpl s a")
  case None
  then show ?thesis by (simp add: object_move_assign_def values_of_simps)
next
  case a: (Some old)
  show ?thesis
  proof (cases "a = b \<or> pimpl s b = None")
    case True
    then show ?thesis using a s values_of_simps(1) [of s a] values_of_simps(1) [of s b]
      by (cases "a = b") (auto simp: object_move_assign_def)
  next
    case False
    then obtain q where q: "pimpl s b = Some q" "a \<noteq> b" by auto
    then obtain y where y: "values_of s b = Some y" using values_of_simps(1) [of s b] by (cases "values_of s b") auto
    then show ?thesis
      using install_moved [OF s q _ refl, of old] a q values_of_simps(1) [of s a]
      by (auto simp: object_move_assign_def)
  qed
qed

lemma blank:
  assumes "owned s" "pimpl s a = None" and t_def: "t = s\<lparr>pimpl := (pimpl s)(a \<mapsto> None)\<rparr>"
  shows "owned t \<and> values_of t = (values_of s)(a \<mapsto> None)"
proof
  note o = ownedD [OF assms(1)]
  show "owned t"
  proof (rule ownedI)
    fix c r assume "pimpl t c = Some (Some r)"
    then show "impls t r \<noteq> None" using o(1) [of c r] by (auto simp: t_def split: if_splits)
  next
    fix c d r assume "pimpl t c = Some (Some r)" "pimpl t d = Some (Some r)"
    then show "c = d" using o(2) [of c r d] by (simp add: t_def split: if_splits)
  next
    fix r assume "impls t r \<noteq> None"
    then obtain x where x: "impls s r = Some x" by (auto simp: t_def)
    then obtain c where "pimpl s c = Some (Some r)" using o(4) by blast
    then show "r < next_impl t \<and> (\<exists>c. pimpl t c = Some (Some r))"
      using o(3) [OF x] assms(2) by (auto simp: t_def intro!: exI [of _ c])
  qed
  show "values_of t = (values_of s)(a \<mapsto> None)" by (auto simp: t_def values_of_def fun_eq_iff split: option.splits)
qed

lemma agree_assign:
  assumes s: "owned s"
  shows "agree (object_assign cp a b s) (value_step cp (Copy_assign a b) (values_of s))"
proof (cases "pimpl s a")
  case None
  then show ?thesis by (simp add: object_assign_def values_of_simps)
next
  case a: (Some old)
  then have va: "values_of s a \<noteq> None" by (simp add: values_of_simps)
  show ?thesis
  proof (cases "a = b")
    case True
    then show ?thesis using a va s by (auto simp: object_assign_def)
  next
    case False
    show ?thesis using values_cases [OF s, of b]
    proof cases
      case (3 p x)
      then show ?thesis using install_new [OF s _ refl, of old a "cp x"] a va False
        by (simp add: object_assign_def the_impl_def alloc_def)
    qed (use a va False in \<open>simp_all add: object_assign_def the_impl_def\<close>)
  qed
qed

lemma agree_step:
  assumes s: "owned s"
  shows "agree (object_step cp op s) (value_step cp op (values_of s))"
proof (cases op)
  case (Construct a x)
  then show ?thesis using agree_new [OF s, of x a] by simp
next
  case (Copy_construct a b)
  show ?thesis using values_cases [OF s, of b]
  proof cases
    case (3 p x)
    then show ?thesis using agree_new [OF s, of "cp x" a] Copy_construct by (simp add: object_copy_def the_impl_def)
  qed (simp_all add: Copy_construct object_copy_def the_impl_def)
next
  case (Move_construct a b)
  show ?thesis
  proof (cases "pimpl s a")
    case None
    note t = blank [OF s None refl]
    then have "agree (object_move a b s) (value_step cp (Move_assign a b) ((values_of s)(a \<mapsto> None)))"
      using agree_move [of "s\<lparr>pimpl := (pimpl s)(a \<mapsto> None)\<rparr>" a b cp] None by (simp add: object_move_def)
    moreover have "value_step cp (Move_assign a b) ((values_of s)(a \<mapsto> None)) = value_step cp op (values_of s)"
      using None values_of_simps(1) [of s a] by (auto simp: Move_construct fun_upd_twist split: option.splits)
    ultimately show ?thesis using Move_construct by simp
  qed (simp add: Move_construct object_move_def values_of_simps)
next
  case (Copy_assign a b)
  then show ?thesis using agree_assign [OF s] by simp
next
  case (Move_assign a b)
  then show ?thesis using agree_move [OF s] by simp
next
  case (Member a f)
  show ?thesis using values_cases [OF s, of a]
  proof cases
    case (3 p x)
    then show ?thesis using changed [OF s 3(1) refl] by (cases "f x") (simp_all add: Member apply_impl_def)
  qed (simp_all add: Member apply_impl_def)
next
  case (Destroy a)
  show ?thesis
    using destroyed [OF s _ refl, of a] values_of_simps(1) [of s a]
    by (cases "pimpl s a") (simp_all add: Destroy object_delete_def)
qed

lemma agree_run: "owned s \<Longrightarrow> agree (object_run cp ops s) (value_run cp ops (values_of s))"
proof (induction ops arbitrary: s)
  case (Cons op ops)
  show ?case
  proof (cases "object_step cp op s")
    case None
    then show ?thesis using agree_step [OF Cons.prems, of cp op] by simp
  next
    case (Some t)
    then show ?thesis using agree_step [OF Cons.prems, of cp op] Cons.IH [of t] by simp
  qed
qed simp

section \<open>The classes\<close>

text \<open>
  The special members of each class. \<open>PESPacket::Impl\<close> declares no copy constructor: the implicit one copies
  all members.
\<close>

definition access_unit_step :: "access_unit object_op \<Rightarrow> access_unit objects \<Rightarrow> access_unit objects option" where
  "access_unit_step = object_step access_unit_copy"

definition packet_step :: "ts_packet object_op \<Rightarrow> ts_packet objects \<Rightarrow> ts_packet objects option" where
  "packet_step = object_step packet_copy"

definition pes_step :: "pes object_op \<Rightarrow> pes objects \<Rightarrow> pes objects option" where
  "pes_step = object_step (\<lambda>other. other)"

definition pat_step :: "pat object_op \<Rightarrow> pat objects \<Rightarrow> pat objects option" where
  "pat_step = object_step pat_copy"

definition pmt_step :: "pmt object_op \<Rightarrow> pmt objects \<Rightarrow> pmt objects option" where
  "pmt_step = object_step pmt_copy"

definition nit_step :: "nit object_op \<Rightarrow> nit objects \<Rightarrow> nit objects option" where
  "nit_step = object_step nit_copy"

text \<open>Classes without an \<open>Impl\<close>: copies are made and swapped in.\<close>

definition descriptor_copy :: "descriptor \<Rightarrow> descriptor" where
  "descriptor_copy orig = \<lparr>dtag = dtag orig, dvalue = [] @ dvalue orig\<rparr>"

definition descriptor_swap :: "descriptor \<Rightarrow> descriptor \<Rightarrow> descriptor \<times> descriptor" where
  "descriptor_swap d src = (d\<lparr>dtag := dtag src, dvalue := dvalue src\<rparr>, src\<lparr>dtag := dtag d, dvalue := dvalue d\<rparr>)"

definition descriptor_assign :: "descriptor \<Rightarrow> descriptor \<Rightarrow> descriptor" where
  "descriptor_assign d rhs = (let temp = descriptor_copy rhs in fst (descriptor_swap d temp))"

definition element_copy :: "program_element \<Rightarrow> program_element" where
  "element_copy orig = \<lparr>stream_type = stream_type orig, elementary_PID = elementary_PID orig,
     descriptors = [] @ map descriptor_copy (descriptors orig)\<rparr>"

definition element_swap :: "program_element \<Rightarrow> program_element \<Rightarrow> program_element \<times> program_element" where
  "element_swap pe src =
     (pe\<lparr>stream_type := stream_type src, elementary_PID := elementary_PID src, descriptors := descriptors src\<rparr>,
      src\<lparr>stream_type := stream_type pe, elementary_PID := elementary_PID pe, descriptors := descriptors pe\<rparr>)"

definition element_assign :: "program_element \<Rightarrow> program_element \<Rightarrow> program_element" where
  "element_assign pe rhs = (let temp = element_copy rhs in fst (element_swap pe temp))"

text \<open>A move of the wrapper or of a cell takes the vector and leaves an empty one, unless it is a move to itself.\<close>

definition cell_move :: "au_cell \<Rightarrow> au_cell \<times> au_cell" where
  "cell_move other = (other, [])"

definition cell_move_assign :: "bool \<Rightarrow> au_cell \<Rightarrow> au_cell \<Rightarrow> au_cell \<times> au_cell" where
  "cell_move_assign self c rhs = (if \<not> self then cell_move rhs else (c, rhs))"

definition wrapper_move :: "au_wrapper \<Rightarrow> au_wrapper \<times> au_wrapper" where
  "wrapper_move other = (other, [])"

definition wrapper_move_assign :: "bool \<Rightarrow> au_wrapper \<Rightarrow> au_wrapper \<Rightarrow> au_wrapper \<times> au_wrapper" where
  "wrapper_move_assign self w rhs = (if \<not> self then wrapper_move rhs else (w, rhs))"

text \<open>What the tables append to the caller's vector.\<close>

definition program_infos :: "pmt \<Rightarrow> descriptor list \<Rightarrow> descriptor list" where
  "program_infos s out = out @ map descriptor_copy (program_info s)"

definition network_descriptors_out :: "nit \<Rightarrow> descriptor list \<Rightarrow> descriptor list" where
  "network_descriptors_out s out = out @ map descriptor_copy (network_descriptors s)"

text \<open>A copy is the same value; of the map table it is one without the CRC, of the association table one with its reserved bits set.\<close>

lemma copies [simp]:
  "access_unit_copy au = au" "packet_copy p = p" "nit_copy n = n" "pmt_copy s = s\<lparr>pmt_CRC_32 := 0\<rparr>"
  "descriptor_copy d = d" "descriptor_assign d e = e" "element_copy pe = pe" "element_assign pe pe' = pe'"
  by (simp_all add: access_unit_copy_def packet_copy_def nit_copy_def pmt_copy_def new_pmt_def descriptor_copy_def
      descriptor_swap_def descriptor_assign_def element_copy_def element_swap_def element_assign_def map_idI)

text \<open>What an assignment leaves: the copy in the target, and everything else as it was.\<close>

lemma assigned:
  assumes "owned s" "values_of s a \<noteq> None" "values_of s b = Some (Some x)" "a \<noteq> b"
  obtains t where "object_step cp (Copy_assign a b) s = Some t" "owned t" "values_of t = (values_of s)(a \<mapsto> Some (cp x))"
  using agree_step [OF assms(1), of cp "Copy_assign a b"] assms(2-4) by (cases "object_step cp (Copy_assign a b) s") auto

lemma assigned_same:
  "owned s \<Longrightarrow> values_of s a \<noteq> None \<Longrightarrow> values_of s b = Some (Some x) \<Longrightarrow> a \<noteq> b \<Longrightarrow>
     \<exists>t. access_unit_step (Copy_assign a b) s = Some t \<and> values_of t = (values_of s)(a \<mapsto> Some x)"
  "owned s' \<Longrightarrow> values_of s' a \<noteq> None \<Longrightarrow> values_of s' b = Some (Some y) \<Longrightarrow> a \<noteq> b \<Longrightarrow>
     \<exists>t. packet_step (Copy_assign a b) s' = Some t \<and> values_of t = (values_of s')(a \<mapsto> Some y)"
  "owned p \<Longrightarrow> values_of p a \<noteq> None \<Longrightarrow> values_of p b = Some (Some q) \<Longrightarrow> a \<noteq> b \<Longrightarrow>
     \<exists>t. pes_step (Copy_assign a b) p = Some t \<and> values_of t = (values_of p)(a \<mapsto> Some q)"
  "owned n \<Longrightarrow> values_of n a \<noteq> None \<Longrightarrow> values_of n b = Some (Some i) \<Longrightarrow> a \<noteq> b \<Longrightarrow>
     \<exists>t. nit_step (Copy_assign a b) n = Some t \<and> values_of t = (values_of n)(a \<mapsto> Some i)"
  "owned u \<Longrightarrow> values_of u a \<noteq> None \<Longrightarrow> values_of u b = Some (Some v) \<Longrightarrow> a \<noteq> b \<Longrightarrow> wf_pat v \<Longrightarrow>
     \<exists>t. pat_step (Copy_assign a b) u = Some t \<and> values_of t = (values_of u)(a \<mapsto> Some (v\<lparr>pat_reserved := 3\<rparr>))"
  unfolding access_unit_step_def packet_step_def pes_step_def nit_step_def pat_step_def
  by (metis assigned copies pat_copy_eq)+

section \<open>Properties\<close>

text \<open>
  Property C16. Objects are values. Whatever a client of a class with an \<open>Impl\<close> constructs, copies, moves, assigns,
  changes and destroys, in any order: the program with pointers and a heap is defined as long as the one on values
  is, and its objects have the same values. Hence a change to an object never shows in another, a copy or an
  assignment takes the value that the copy constructor of \<open>Impl\<close> makes, a self-assignment changes nothing, and only
  the use of an object that was moved from, or of none, is undefined. At each moment no two objects share an
  \<open>Impl\<close>, and none is left without an owner.
\<close>

theorem objects_are_values:
  "map_option values_of (object_run cp ops no_objects) = value_run cp ops Map.empty \<and>
   pred_option owned (object_run cp ops no_objects)"
  using agree_run [of no_objects cp ops] by (simp add: owned_no_objects agree_def)

text \<open>
  Property C36. The exception among the copies. A program map table that is assigned from a well-formed one, whose CRC
  is not 0 by chance, has its programs and descriptors, but no CRC: what it serialises fails the check of every
  receiver, although the source, which the assignment leaves alone, is a valid section.
\<close>

theorem assigned_table_invalid:
  assumes "owned s" "values_of s a \<noteq> None" "values_of s b = Some (Some m)" "a \<noteq> b"
    and "wf_pmt m" "pmt_CRC_32 m \<noteq> 0"
  shows "\<exists>t c raw. pmt_step (Copy_assign a b) s = Some t \<and> owned t \<and>
    values_of t = (values_of s)(a \<mapsto> Some c) \<and> program_elmts c = program_elmts m \<and> program_info c = program_info m \<and>
    pmt_serialize c = Some raw \<and> \<not> valid_section raw"
proof -
  from assigned [OF assms(1-4)]
  obtain t where "pmt_step (Copy_assign a b) s = Some t" "owned t" "values_of t = (values_of s)(a \<mapsto> Some (pmt_copy m))"
    unfolding pmt_step_def by blast
  then show ?thesis using pmt_copy_loses_crc [OF assms(5,6)] by blast
qed

theorem assigned_table_invalid_witness:
  "\<exists>s t c raw. object_run pmt_copy [Construct 0 sample_pmt, Construct 1 new_pmt] no_objects = Some s \<and>
    pmt_step (Copy_assign 1 0) s = Some t \<and> values_of t 0 = Some (Some sample_pmt) \<and> values_of t 1 = Some (Some c) \<and>
    program_elmts c = program_elmts sample_pmt \<and> pmt_serialize c = Some raw \<and> \<not> valid_section raw"
proof -
  let ?ops = "[Construct 0 sample_pmt, Construct 1 new_pmt]"
  have "agree (object_run pmt_copy ?ops no_objects) (Some [0 \<mapsto> Some sample_pmt, 1 \<mapsto> Some new_pmt])"
    using agree_run [OF owned_no_objects(1), of pmt_copy ?ops] by (simp add: owned_no_objects(2))
  then obtain s where s: "object_run pmt_copy ?ops no_objects = Some s" "owned s"
      "values_of s = [0 \<mapsto> Some sample_pmt, 1 \<mapsto> Some new_pmt]"
    by (cases "object_run pmt_copy ?ops no_objects") (simp_all del: object_run.simps)
  have "pmt_CRC_32 sample_pmt \<noteq> 0" by code_simp
  from assigned_table_invalid [OF s(2) _ _ _ sample_pmt_wf this, of 1 0] s
  show ?thesis by (auto simp del: object_run.simps)
qed

end
