(* ===== verification/Spec2Isabelle.thy ===== *)
theory Spec2Isabelle
  imports Shared_Table Decoder_Output Extended_Packets Network_Information Metadata_AU Command Test_Programs Object_Lifetime
begin

text \<open>
  A model of mp2tp, a C++ library that reads and writes MPEG-2 transport streams (ISO/IEC 13818-1), and
  of its programs \<open>mp2tp\<close>, \<open>mp2tdmux\<close>, \<open>modifytest\<close> and \<open>packtest\<close>, with the theorems that make their components correct and those that show
  where the code differs from what it means to do.

  \<^bold>\<open>The program.\<close>  Sending: tables (\<open>ProgramAssociationTable\<close>, \<open>ProgramMapTable\<close>) are filled, protected by
  a CRC and serialised; \<open>TSPacker\<close> cuts sections and access units into 188-byte packets.  Receiving:
  \<open>TSParser::parse\<close> finds packets in a byte stream that comes in chunks and calls the virtual \<open>onPacket\<close>;
  \<open>TsDecoder\<close>, the client in the command, sends packets on PID 0 to the association table, packets on the
  PIDs that table names to the map table (over several packets if needed), and all other unit starts to
  \<open>PESPacket::parse\<close>.  The read loop of \<open>main\<close> feeds the parser.  A second client, \<open>MP2TFileDemux\<close> in \<open>mp2tdmux\<close>,
  reads the same tables and writes the access units of each stream to the file of its kind.

  \<^bold>\<open>The theories\<close> (sources under \<open>src/mp2tp\<close> unless said otherwise).

  \<^item> \<open>Mp2tp_Prelude\<close>: machine integers, checked reads of memory (\<open>rd\<close>, \<open>rd_n\<close>, \<open>rd16\<close>, \<open>rd32\<close>), byte
    order, and the facts on bits and masks the components share.
  \<^item> \<open>Adaptation_Field\<close> (\<open>tsadptfd.cpp\<close>) and \<open>Transport_Packet\<close> (\<open>tspckt.cpp\<close>): the 188-byte packet as the
    record \<open>ts_packet\<close>, its header accessors, payload access, counter and serialisation.
  \<^item> \<open>TS_Parser\<close> (\<open>tsprsr.cpp\<close>): the record \<open>ts_parser\<close> with its buffer between calls, \<open>parse\<close> and its loops.
    The client is a parameter; \<open>locale packet_client\<close> states what a client must accept, and is
    interpreted on the base class's handler and on the collecting handler of \<open>modifytest\<close>.
  \<^item> \<open>Crc32\<close> (\<open>tspmt.cpp\<close>, \<open>tspat.cpp\<close>): the CRC table and loop, equal to the bitwise shift register of the
    standard.  \<open>Crc_Section\<close>: what a receiver can rely on, for every table that keeps the contract of
    \<open>locale crc_section\<close>; interpreted on both tables.
  \<^item> \<open>Ordered_Map\<close>: \<open>std::map\<close> as a sorted list, behind \<open>locale ordered_map\<close>.
  \<^item> \<open>Program_Association\<close> (\<open>tspat.cpp\<close>): the record \<open>pat\<close>, \<open>addProgram\<close>, \<open>pat_parse\<close>, \<open>pat_serialize\<close>.
    \<open>Pat_Refinement\<close>: the table as the finite map that it promises to be, and its operations as those of the map.
  \<^item> \<open>Psi_Descriptors\<close> (\<open>tspmt.cpp\<close>): \<open>Descriptor\<close> and \<open>ProgramElement\<close>, and the loops that read and write
    descriptors.  \<open>Program_Map\<close> (\<open>tspmt.cpp\<close>): the record \<open>pmt\<close> (\<open>_pmt\<close>, \<open>_buffer\<close> and the lists), all
    accessors, \<open>canParse\<close>, \<open>pmt_parse\<close>, \<open>pmt_serialize\<close>, \<open>addProgramElement\<close>, \<open>removeProgramElement\<close>.
    \<open>wf_pmt\<close> is its invariant: the two length fields and the CRC are those of the contents.
  \<^item> \<open>Network_Information\<close> (\<open>tsnit.cpp\<close>): the record \<open>nit\<close> and its parser.
  \<^item> \<open>Metadata_AU\<close> (\<open>tsmetadata.cpp\<close>): metadata cells and their wrapper.
  \<^item> \<open>Pes_Packet\<close> (\<open>tspes.cpp\<close>): headers of PES packets and their time stamps.
  \<^item> \<open>Access_Unit\<close> (\<open>AccessUnit.cpp\<close>) and \<open>TS_Packer\<close> (\<open>tspacker.cpp\<close>): the three packetize functions, and what
    \<open>packetize\<close> delivers.  \<open>Pes_Delivery\<close>: what \<open>packetizePES\<close> delivers, and when it does not.
  \<^item> \<open>Decoder\<close> (\<open>src/src/TsDecoder.cpp\<close>, \<open>src/src/main.cpp\<close>): \<open>onPacket\<close> of the command's decoder and the read
    loop.  The decoder keeps the objects that are written to its stream; \<open>Decoder_Output\<close> gives their grammar.
  \<^item> \<open>Output_Text\<close>, \<open>Description_Tables\<close>, \<open>Descriptor_Printer\<close> and \<open>Ts_Writer\<close> (\<open>src/src/TsWriter.cpp\<close>): the text of
    these objects, character by character.  \<open>output_text\<close> is all that a decoder has written.  The loops
    over descriptors are instances of \<open>locale cursor_loop\<close>, which tells a loop that is stuck from one that
    reads outside its array.
  \<^item> \<open>Command\<close> (\<open>src/src/main.cpp\<close>): the options, \<open>run\<close> and \<open>main\<close>; what the file system holds is a parameter.
  \<^item> \<open>File_Demux\<close> (\<open>src/tests/mp2tdmux\<close>): the demultiplexer, from its samples to its \<open>main\<close>.  \<open>Demux_Tables\<close>: its
    tables are those of the decoder (\<open>in_step\<close>).  \<open>Demux_Streams\<close>: one step for the packets of a stream of any kind.
    \<open>Demux_Program\<close>: what it leaves in its files.  \<open>Test_Programs\<close> (\<open>src/tests/modifytest\<close>, \<open>src/tests/packtest\<close>): the
    two small programs, and the number of packets of a unit of any size.
  \<^item> \<open>Object_Lifetime\<close> (all sources): construction, copies, moves and destruction of the objects, with their pointers
    and a heap; it refines the view of an object as a value, which all other theories take.
  \<^item> \<open>Mux_Demux\<close>: how the decoder follows packed tables and access units.  \<open>Shared_Table\<close>: a map table that arrives
    between the packets of another.  \<open>Extended_Packets\<close>: streams whose packets are longer than 188 bytes.  This
    theory: the two sides together.

  \<^bold>\<open>Groups of theorems.\<close>  Round trips of packets, PES headers and both tables; invariants of the tables
  under every edit; equivalence of the CRC with its definition, and the errors it detects; delivery of
  every packet of a stream in chunks of at least 375 bytes; what arrives of a section or an access unit for each of its
  lengths, where the packer keeps, changes or loses data; termination and memory safety of the parser on arbitrary bytes;
  reads past the end of a packet or a buffer; loops that do not end; the end-to-end theorems below, for
  tables, access units, and the text that is written of them; and the refinement of objects with
  pointers by values.

  \<^bold>\<open>Modelling decisions.\<close>  A C++ object is a record of its data members (for its \<open>Impl\<close>, see \<open>Object_Lifetime\<close>); a
  method that changes it returns the new record.  A read or write outside an array or vector has no defined behaviour and is \<^const>\<open>None\<close>,
  so a theorem that a function returns \<open>Some\<close> also says that it stays within its memory.  Integers
  have their width and wrap; offsets that provably stay below their width are natural numbers, which
  each theory says.  Hosts are little endian.  Loops are recursive functions with a termination
  proof; the three whose ends depend on the data (\<open>parse_loop\<close>, \<open>wrapper_loop\<close>, \<open>desc_loop\<close>) are
  \<open>partial_function (option)\<close>, where \<^const>\<open>None\<close> also stands for a run without end.  No fuel is used.
  A \<open>double\<close> is the fraction that it is.  What is written does not change the state of the decoder, so its
  text is a function of the objects written; a text without end stands for a command that never ends.
  \<open>BUFSIZ\<close> is 8192, as in the GNU C library.  Vectors hold fewer than \<open>2 ^ 63\<close> bytes.

  \<^bold>\<open>Not modelled.\<close>  Getters that return a member and iterators (they are the fields and lists of the records), \<open>const\<close>
  overloads, and \<open>operator<<\<close> of \<open>TransportPacket\<close>, which writes its bytes; the order of what a program writes to its
  console and to its error stream; errors of the file system after a file was opened.
\<close>

section \<open>From the packetizer through the parser to the decoder\<close>

text \<open>Two runs of packets, as a byte stream in chunks, are fed to the decoder in order.\<close>

lemma chunks_feed:
  assumes "packet_run pid0 True c0 ps0" "packet_run pid1 True c1 ps1"
    and "concat cs = concat (map pk_data (ps0 @ ps1))"
    and "\<And>x. x \<in> set cs \<Longrightarrow> 375 \<le> length x \<and> length x + 188 < 2 ^ 32"
    and "feed onPacket (map pk_data (ps0 @ ps1)) new_decoder = Some d"
  shows "\<exists>parser. parse_chunks onPacket cs strict new_parser new_decoder =
      Some (replicate (length cs) True, parser, d) \<and>
    packetCount parser = word_of_nat (length ps0 + length ps1) \<and> headers_wf d"
proof -
  have ts: "list_all is_ts (map pk_data (ps0 @ ps1))"
    using packet_run_is_ts [OF assms(1)] packet_run_is_ts [OF assms(2)] by simp
  then have "parse_chunks onPacket cs strict (std_parser 0 []) new_decoder =
      do { c' \<leftarrow> feed onPacket (map pk_data (ps0 @ ps1)) new_decoder;
           Some (replicate (length cs) True, std_parser (0 + word_of_nat (length (map pk_data (ps0 @ ps1)))) [], c') }"
    using assms(3,4) by (intro parse_chunks_aligned) simp_all
  moreover have "headers_wf d" using feed_headers [OF ts assms(5)] by simp
  ultimately show ?thesis using assms(5) by (simp add: new_parser_std packetCount_def)
qed

text \<open>
  Property C7. The two sides of the library fit together, for tables that the packer does not damage. An association
  table with at most 42 programs and pointer field 0, and a well-formed map table for one of its programs whose
  serialisation has at most 184 bytes, or more than 188 and modulo 184 from 5 to 182, are serialised and cut into
  packets by \<open>TSPacker::packetize\<close>; the packets are sent as a byte stream that reaches \<open>TSParser::parse\<close> in chunks
  of at least 375 bytes. Every chunk is accepted, and the decoder reports two tables: an association table with
  the programs and the transport stream id of the one that was sent (its version and \<open>current_next_indicator\<close> are
  not sent), and the map table with its descriptors, elements, fixed part and CRC, also when its section is spread
  over several packets.
\<close>

theorem tables_survive_transport:
  assumes "wf_pat t" "pat_pointer_field t = 0" "length (pid_to_program t) \<le> 42"
    and "list_all (\<lambda>(pid, _). pid < 0x2000) (pid_to_program t)"
    and "wf_pmt s" "pmt_len s \<le> 180 \<or> 184 < pmt_len s \<and> (pmt_len s + 4) mod 184 \<in> {5..182}"
    and "pat_find t pid = Some program" "program \<noteq> 0" "pid < 0x2000" "pid \<noteq> 0"
    and "pmt_serialize s = Some raw"
    and "packetize (pat_serialize t) (length (pat_serialize t)) 0 c0 = Some (ps0, c0')"
    and "packetize raw (length raw) pid c1 = Some (ps1, c1')"
    and "concat cs = concat (map pk_data (ps0 @ ps1))"
    and "\<And>x. x \<in> set cs \<Longrightarrow> 375 \<le> length x \<and> length x + 188 < 2 ^ 32"
  shows "\<exists>parser d q buf. parse_chunks onPacket cs strict new_parser new_decoder =
      Some (replicate (length cs) True, parser, d) \<and>
    tables d = [PAT q, PMT (s\<lparr>pmt_buffer := buf\<rparr>)] \<and> dec_pat d = q \<and>
    pid_to_program q = pid_to_program t \<and> pat_transport_stream_id q = pat_transport_stream_id t \<and>
    packetCount parser = word_of_nat (length ps0 + length ps1)"
proof -
  obtain d q buf where d: "feed onPacket (map pk_data (ps0 @ ps1)) new_decoder = Some d"
      "packet_run 0 True c0 ps0" "packet_run pid True c1 ps1"
      "tables d = [PAT q, PMT (s\<lparr>pmt_buffer := buf\<rparr>)]" "dec_pat d = q"
      "pid_to_program q = pid_to_program t" "pat_transport_stream_id q = pat_transport_stream_id t"
    using tables_feed [OF assms(1-13)] by (auto simp: feed_append)
  then show ?thesis using chunks_feed [OF d(2,3) assms(14,15) d(1), of strict] by blast
qed

theorem tables_survive_transport_witness:
  "\<exists>p0 p1. packetize (pat_serialize sample_pat) (length (pat_serialize sample_pat)) 0 0 = Some ([p0], 1) \<and>
     packetize (pmt_raw sample_pmt) (length (pmt_raw sample_pmt)) 0x20 0 = Some ([p1], 1) \<and>
     (\<exists>parser d q buf. parse_chunks onPacket [concat (map pk_data ([p0] @ [p1]))] True new_parser new_decoder =
       Some ([True], parser, d) \<and> tables d = [PAT q, PMT (sample_pmt\<lparr>pmt_buffer := buf\<rparr>)])"
proof -
  note len = sample_pmt_small
  obtain p0 where p0: "packetize (pat_serialize sample_pat) (length (pat_serialize sample_pat)) 0 0 = Some ([p0], 1)"
    "length (pk_data p0) = 188" by (rule sample_pat_packet)
  obtain p1 where p1: "pmt_serialize sample_pmt = Some (pmt_raw sample_pmt)"
    "packetize (pmt_raw sample_pmt) (length (pmt_raw sample_pmt)) 0x20 0 = Some ([p1], 1)" "length (pk_data p1) = 188"
    by (rule small_pmt_packet [OF sample_pmt_wf len])
  have "\<exists>parser d q buf. parse_chunks onPacket [concat (map pk_data ([p0] @ [p1]))] True new_parser new_decoder =
      Some (replicate (length [concat (map pk_data ([p0] @ [p1]))]) True, parser, d) \<and>
      tables d = [PAT q, PMT (sample_pmt\<lparr>pmt_buffer := buf\<rparr>)] \<and> dec_pat d = q \<and>
      pid_to_program q = pid_to_program sample_pat \<and>
      pat_transport_stream_id q = pat_transport_stream_id sample_pat \<and>
      packetCount parser = word_of_nat (length [p0] + length [p1])"
    by (rule tables_survive_transport [OF sample_pat_facts(1-4) sample_pmt_wf disjI1 [OF len] sample_pat_facts(5) _ _ _ p1(1) p0(1) p1(2)])
       (simp_all add: p0(2) p1(3))
  then show ?thesis using p0(1) p1(2) by fastforce
qed

text \<open>
  Property C10. The command, with \<open>-n0\<close> to read to the end, on a file with the packets of the two tables that were
  sent, if these are not a multiple of 7 packets. The association table has at most 42 programs and the section of
  the map table a length that the packer does not damage. The command prints both tables, with the exit code 0
  and the number of packets, unless a descriptor of the program map table is longer than its printer can
  follow. Then the loop over that descriptor is stuck at a position at which its body changes nothing, and the command
  has no result. So a conforming table with, for instance, private data in a metadata
  descriptor arrives intact and stops the command.
\<close>

theorem sent_table_printed_or_hangs:
  assumes "wf_pat t" "pat_pointer_field t = 0" "length (pid_to_program t) \<le> 42"
    and "list_all (\<lambda>(pid, _). pid < 0x2000) (pid_to_program t)"
    and "wf_pmt s" "pmt_len s \<le> 180 \<or> 184 < pmt_len s \<and> (pmt_len s + 4) mod 184 \<in> {5..182}"
    and "pat_find t pid = Some program" "program \<noteq> 0" "pid < 0x2000" "pid \<noteq> 0"
    and "pmt_serialize s = Some raw"
    and "packetize (pat_serialize t) (length (pat_serialize t)) 0 c0 = Some (ps0, c0')"
    and "packetize raw (length raw) pid c1 = Some (ps1, c1')"
    and "open_in path = Some (concat (map pk_data (ps0 @ ps1)))" "path \<noteq> []" "length mem = read_size"
    and "n = length ps0 + length ps1" "n mod 7 \<noteq> 0" "n < 2 ^ 64"
  shows "\<exists>d q buf. tables d = [PAT q, PMT (s\<lparr>pmt_buffer := buf\<rparr>)] \<and> pid_to_program q = pid_to_program t \<and>
    main open_in can_write cin mem [''-i'' @ path, ''-n0''] =
      (if list_ex (\<lambda>x. last_position x < length (dvalue x)) (all_descriptors s) then None
       else Some (Exit 0 (the (output_text d)) (packets_read n) None)) \<and>
    (\<forall>x \<in> set (all_descriptors s). last_position x < length (dvalue x) \<longrightarrow>
       (\<forall>depth. printDescriptorValue x depth = None \<and> stuck (desc_body x depth) (length (dvalue x)) new_cursor))"
proof -
  obtain d q buf where d: "feed onPacket (map pk_data (ps0 @ ps1)) new_decoder = Some d"
      "packet_run 0 True c0 ps0" "packet_run pid True c1 ps1"
      "tables d = [PAT q, PMT (s\<lparr>pmt_buffer := buf\<rparr>)]" "pid_to_program q = pid_to_program t"
    using tables_feed [OF assms(1-13)] by (auto simp: feed_append)
  have ts: "list_all is_ts (map pk_data (ps0 @ ps1))"
    using packet_run_is_ts [OF d(2)] packet_run_is_ts [OF d(3)] by simp
  have "headers_wf d" using feed_headers [OF ts d(1)] by simp
  then have hangs: "output_text d = None \<longleftrightarrow> list_ex unprintable (all_descriptors s)"
    using output_text_iff printPMT_iff [OF assms(5), of buf] d(4) by auto
  have unprintable: "unprintable = (\<lambda>x. last_position x < length (dvalue x))" by (simp add: fun_eq_iff unprintable_def)
  have zero: "''-n'' @ show_int 0 = ''-n0''" by (simp add: show_int_def dec_def digits_in.simps)
  have loop: "read_loop onPacket 0 (concat (map pk_data (ps0 @ ps1))) mem 0 (std_parser 0 []) new_decoder =
      Some ([], 0, std_parser (word_of_nat n) [], d)"
    using read_loop_packets [OF ts d(1) assms(16), of 0 0] assms(17,18) by simp
  have "main open_in can_write cin mem [''-i'' @ path, ''-n0''] =
      do { text \<leftarrow> output_text d; Some (Exit 0 text (packets_read n) None) }"
    using main_file [of open_in path, OF assms(14,15) _ _ loop assms(19)] unfolding zero by simp
  then have "main open_in can_write cin mem [''-i'' @ path, ''-n0''] =
      (if list_ex (\<lambda>x. last_position x < length (dvalue x)) (all_descriptors s) then None
       else Some (Exit 0 (the (output_text d)) (packets_read n) None))"
    using hangs unfolding unprintable by (cases "output_text d") auto
  then show ?thesis using d(4,5) long_descriptor_stuck [OF wf_pmt_descriptors [OF assms(5)]] by blast
qed

text \<open>
  Property C8. An access unit is reported behind a program association table with at most 42 programs. The unit has
  no DTS, a PTS below \<open>2 ^ 31\<close>, a stream id with a PES header, a length for which \<open>packetizePES\<close> makes packets, and a PID
  that is neither 0 nor in the table; the stream of packets comes in chunks of at least 375 bytes. The decoder
  reports the association table and one PES packet with the stream id, the PTS and the packet length of the
  unit, the packets that continue it are passed over, and the text of the whole output is written.
\<close>

theorem access_unit_survives_transport:
  assumes "wf_pat t" "pat_pointer_field t = 0" "length (pid_to_program t) \<le> 42"
    and "list_all (\<lambda>(pid, _). pid < 0x2000) (pid_to_program t)"
    and "packetize (pat_serialize t) (length (pat_serialize t)) 0 c0 = Some (ps0, c0')"
    and "0 < au_length au" "au_length au < 2 ^ 31" "pid < 0x2000" "pid \<noteq> 0" "pat_find t pid = None"
    and "au_dts au = 0" "au_pts au < 2 ^ 31" "has_pes_header (au_stream_id au)"
    and "pesHeaderSize_init au + au_length au \<le> 188 \<or> pes_room au pcr \<le> au_length au"
    and "packetizePES au pid c1 pcr = Some (ps1, c1')"
    and "concat cs = concat (map pk_data (ps0 @ ps1))"
    and "\<And>x. x \<in> set cs \<Longrightarrow> 375 \<le> length x \<and> length x + 188 < 2 ^ 32"
  shows "\<exists>parser d q p. parse_chunks onPacket cs strict new_parser new_decoder =
      Some (replicate (length cs) True, parser, d) \<and>
    tables d = [PAT q, PES p] \<and> pid_to_program q = pid_to_program t \<and>
    pes_stream_id p = au_stream_id au \<and> pts p = au_pts au \<and> PES_packet_length p = sent_pes_length au \<and>
    (\<exists>text. output_text d = Some text)"
proof -
  have new: "dec_pat new_decoder = new_pat" "tables new_decoder = []"
    by (simp_all add: new_decoder_def tables_def)
  obtain d0 q where run0: "packet_run 0 True c0 ps0" and d0: "feed onPacket (map pk_data ps0) new_decoder = Some d0"
      "dec_pat d0 = q" "pid_to_program q = pid_to_program t" "tables d0 = [PAT q]"
    using feed_packed_pat [OF assms(1-5) new(1)] new(2) by auto
  have "pat_find (dec_pat d0) pid = None" using assms(10) d0(2,3) by (simp add: pat_find_def)
  then obtain d p where run1: "packet_run pid True c1 ps1" and d: "feed onPacket (map pk_data ps1) d0 = Some d"
      "tables d = tables d0 @ [PES p]" "pes_stream_id p = au_stream_id au" "pts p = au_pts au"
      "PES_packet_length p = sent_pes_length au"
    using feed_pes [OF assms(6-9,11-15)] by blast
  have all: "feed onPacket (map pk_data (ps0 @ ps1)) new_decoder = Some d"
    using d0(1) d(1) by (simp add: feed_append)
  obtain parser where "parse_chunks onPacket cs strict new_parser new_decoder =
      Some (replicate (length cs) True, parser, d)" "headers_wf d"
    using chunks_feed [OF run0 run1 assms(16,17) all] by blast
  moreover have "\<exists>text. output_text d = Some text"
    using output_text_iff [OF \<open>headers_wf d\<close>] d(2) d0(4) by (cases "output_text d") auto
  ultimately show ?thesis using d d0(3,4) by auto
qed

text \<open>A metadata descriptor with one byte of private data, in an otherwise ordinary table.\<close>

definition metadata_pmt :: pmt where
  "metadata_pmt = pmt_table [0, 1, 0xC1, 0, 0, 0xE1, 0] []
     [\<lparr>stream_type = 0x15, elementary_PID = 0x102,
       descriptors = [\<lparr>dtag = 0x26, dvalue = [1, 0, 0x10, 0, 7, 0x0F, 0xAA]\<rparr>]\<rparr>]"

lemma metadata_pmt_facts:
  "wf_pmt metadata_pmt" "pmt_len metadata_pmt \<le> 180"
  "all_descriptors metadata_pmt = [\<lparr>dtag = 0x26, dvalue = [1, 0, 0x10, 0, 7, 0x0F, 0xAA]\<rparr>]"
proof -
  show "wf_pmt metadata_pmt"
    unfolding metadata_pmt_def
    by (rule wf_pmt_table) (simp_all add: wf_descriptor_def wf_element_def fits_element_def ebytes_def dbytes_def)
  show "pmt_len metadata_pmt \<le> 180"
    by (simp add: pmt_len_def metadata_pmt_def pmt_table_def Let_def new_pmt_def ebytes_def dbytes_def)
  show "all_descriptors metadata_pmt = [\<lparr>dtag = 0x26, dvalue = [1, 0, 0x10, 0, 7, 0x0F, 0xAA]\<rparr>]"
    by (simp add: all_descriptors_def metadata_pmt_def pmt_table_def Let_def new_pmt_def)
qed

theorem sent_table_printed_or_hangs_witness:
  "\<exists>p0 p1. packetize (pat_serialize sample_pat) (length (pat_serialize sample_pat)) 0 0 = Some ([p0], 1) \<and>
     packetize (pmt_raw metadata_pmt) (length (pmt_raw metadata_pmt)) 0x20 0 = Some ([p1], 1) \<and>
     main (\<lambda>_. Some (concat (map pk_data ([p0] @ [p1])))) (\<lambda>_. False) [] (replicate read_size 0) [''-ia.ts'', ''-n0''] = None"
proof -
  note m = metadata_pmt_facts
  obtain p0 where p0: "packetize (pat_serialize sample_pat) (length (pat_serialize sample_pat)) 0 0 = Some ([p0], 1)"
    by (rule sample_pat_packet)
  obtain p1 where p1: "pmt_serialize metadata_pmt = Some (pmt_raw metadata_pmt)"
    "packetize (pmt_raw metadata_pmt) (length (pmt_raw metadata_pmt)) 0x20 0 = Some ([p1], 1)"
    by (rule small_pmt_packet [OF m(1,2)])
  let ?open = "\<lambda>_ :: string. Some (concat (map pk_data ([p0] @ [p1])))"
  have "\<exists>d q buf. tables d = [PAT q, PMT (metadata_pmt\<lparr>pmt_buffer := buf\<rparr>)] \<and>
      pid_to_program q = pid_to_program sample_pat \<and>
      main ?open (\<lambda>_. False) [] (replicate read_size 0) [''-i'' @ ''a.ts'', ''-n0''] =
      (if list_ex (\<lambda>x. last_position x < length (dvalue x)) (all_descriptors metadata_pmt) then None
       else Some (Exit 0 (the (output_text d)) (packets_read 2) None)) \<and>
      (\<forall>x \<in> set (all_descriptors metadata_pmt). last_position x < length (dvalue x) \<longrightarrow>
         (\<forall>depth. printDescriptorValue x depth = None \<and> stuck (desc_body x depth) (length (dvalue x)) new_cursor))"
    by (rule sent_table_printed_or_hangs [OF sample_pat_facts(1-4) m(1) disjI1 [OF m(2)] sample_pat_facts(5) _ _ _ p1(1) p0(1) p1(2)])
       simp_all
  moreover have "list_ex (\<lambda>x. last_position x < length (dvalue x)) (all_descriptors metadata_pmt)"
    by (simp add: m(3) last_position_def metadata_end_def config_end_def padded_def)
  ultimately show ?thesis using p0(1) p1(2) by fastforce
qed

theorem access_unit_survives_transport_witness:
  "\<exists>p0 p1 parser d q p. packetize (pat_serialize sample_pat) (length (pat_serialize sample_pat)) 0 0 = Some ([p0], 1) \<and>
     packetizePES (sample_au 100 90000 0) 0x100 0 0 = Some ([p1], 1) \<and>
     parse_chunks onPacket [concat (map pk_data ([p0] @ [p1]))] True new_parser new_decoder = Some ([True], parser, d) \<and>
     tables d = [PAT q, PES p] \<and> pts p = 90000"
proof -
  obtain p0 where p0: "packetize (pat_serialize sample_pat) (length (pat_serialize sample_pat)) 0 0 = Some ([p0], 1)"
    "length (pk_data p0) = 188" by (rule sample_pat_packet)
  obtain p1 where p1: "packetizePES (sample_au 100 90000 0) 0x100 0 0 = Some ([p1], 1)" "length (pk_data p1) = 188"
    using sample_au_packet [of 0] by auto
  have "\<exists>parser d q p. parse_chunks onPacket [concat (map pk_data ([p0] @ [p1]))] True new_parser new_decoder =
      Some (replicate (length [concat (map pk_data ([p0] @ [p1]))]) True, parser, d) \<and>
    tables d = [PAT q, PES p] \<and> pid_to_program q = pid_to_program sample_pat \<and>
    pes_stream_id p = au_stream_id (sample_au 100 90000 0) \<and> pts p = au_pts (sample_au 100 90000 0) \<and>
    PES_packet_length p = sent_pes_length (sample_au 100 90000 0) \<and> (\<exists>text. output_text d = Some text)"
    by (rule access_unit_survives_transport [OF sample_pat_facts(1-4) p0(1) _ _ _ _ sample_pat_facts(6) _ _ _ _ p1(1)])
       (simp_all add: p0(2) p1(2) has_pes_header_def pesHeaderSize_init_def)
  then show ?thesis using p0(1) p1(1) by fastforce
qed

end
